(* ===== verification/Prelude.thy ===== *)
theory Prelude
  imports Main
begin

text \<open>
  Shared vocabulary of the development: Rust results, fixed-width unsigned integers with the
  checked, saturating and wrapping operations the sources use, sums over storage maps, and the
  named collections that carry the component proofs.
\<close>

section \<open>Collections of facts\<close>

named_theorems rust_int \<open>unfolding rules of the fixed-width integer operations\<close>
named_theorems frame_simps \<open>what an operation leaves unchanged\<close>

section \<open>Results\<close>

text \<open>Rust's \<open>Result<A, E>\<close> is the sum \<open>'e + 'a\<close>: \<open>Err\<close> on the left, \<open>Ok\<close> on the right.\<close>

type_synonym ('a, 'e) result = "'e + 'a"

abbreviation Ok :: "'a \<Rightarrow> ('a, 'e) result" where
  "Ok \<equiv> Inr"

abbreviation Err :: "'e \<Rightarrow> ('a, 'e) result" where
  "Err \<equiv> Inl"

definition is_ok :: "('a, 'e) result \<Rightarrow> bool" where
  "is_ok r = (case r of Inl _ \<Rightarrow> False | Inr _ \<Rightarrow> True)"

text \<open>The \<open>?\<close> operator.\<close>

definition and_then :: "('a, 'e) result \<Rightarrow> ('a \<Rightarrow> ('b, 'e) result) \<Rightarrow> ('b, 'e) result" where
  "and_then r f = (case r of Inl e \<Rightarrow> Inl e | Inr a \<Rightarrow> f a)"

definition ok_or :: "'a option \<Rightarrow> 'e \<Rightarrow> ('a, 'e) result" where
  "ok_or x e = (case x of None \<Rightarrow> Inl e | Some a \<Rightarrow> Inr a)"

text \<open>\<open>frame_support::ensure!\<close>.\<close>

definition ensure :: "bool \<Rightarrow> 'e \<Rightarrow> (unit, 'e) result" where
  "ensure b e = (if b then Inr () else Inl e)"

definition unwrap_or :: "('a, 'e) result \<Rightarrow> 'a \<Rightarrow> 'a" where
  "unwrap_or r d = (case r of Inl _ \<Rightarrow> d | Inr a \<Rightarrow> a)"

lemma is_ok_simps [simp]: "is_ok (Inr a)" "\<not> is_ok (Inl e)"
  by (simp_all add: is_ok_def)

lemma unwrap_or_simps [simp]: "unwrap_or (Inr a) d = a" "unwrap_or (Inl e) d = d"
  by (simp_all add: unwrap_or_def)

lemma and_then_simps [simp]: "and_then (Inr a) f = f a" "and_then (Inl e) f = Inl e"
  by (simp_all add: and_then_def)

lemma and_then_Inr_iff [simp]:
  "and_then r f = Inr b \<longleftrightarrow> (\<exists>a. r = Inr a \<and> f a = Inr b)"
  by (cases r) auto

lemma and_then_Inl_iff:
  "and_then r f = Inl e \<longleftrightarrow> r = Inl e \<or> (\<exists>a. r = Inr a \<and> f a = Inl e)"
  by (cases r) auto

lemma ok_or_Inr_iff [simp]: "ok_or x e = Inr a \<longleftrightarrow> x = Some a"
  by (cases x) (auto simp: ok_or_def)

lemma ok_or_Inl_iff [simp]: "ok_or x e = Inl e' \<longleftrightarrow> x = None \<and> e' = e"
  by (cases x) (auto simp: ok_or_def)

lemma ensure_Inr_iff [simp]: "ensure b e = Inr u \<longleftrightarrow> b"
  by (simp add: ensure_def)

lemma ensure_Inl_iff [simp]: "ensure b e = Inl e' \<longleftrightarrow> \<not> b \<and> e' = e"
  by (auto simp: ensure_def)

section \<open>Unsigned integers of a width\<close>

text \<open>
  A \<open>w\<close>-bit unsigned integer is a natural number below \<open>2 ^ w\<close>. Additions and multiplications
  name what happens at the bound: \<open>checked_*\<close> gives \<open>None\<close>, \<open>saturating_*\<close> stops there and
  \<open>wrapping_*\<close> is the plain operator of a release build.
\<close>

definition u_max :: "nat \<Rightarrow> nat" where
  "u_max w = 2 ^ w - 1"

text \<open>The truncating conversion \<open>x as uN\<close>.\<close>

definition wrap :: "nat \<Rightarrow> nat \<Rightarrow> nat" where
  "wrap w x = x mod 2 ^ w"

definition checked_add :: "nat \<Rightarrow> nat \<Rightarrow> nat \<Rightarrow> nat option" where
  "checked_add w a b = (if a + b < 2 ^ w then Some (a + b) else None)"

definition checked_sub :: "nat \<Rightarrow> nat \<Rightarrow> nat option" where
  "checked_sub a b = (if b \<le> a then Some (a - b) else None)"

definition checked_mul :: "nat \<Rightarrow> nat \<Rightarrow> nat \<Rightarrow> nat option" where
  "checked_mul w a b = (if a * b < 2 ^ w then Some (a * b) else None)"

definition saturating_add :: "nat \<Rightarrow> nat \<Rightarrow> nat \<Rightarrow> nat" where
  "saturating_add w a b = min (a + b) (u_max w)"

definition saturating_mul :: "nat \<Rightarrow> nat \<Rightarrow> nat \<Rightarrow> nat" where
  "saturating_mul w a b = min (a * b) (u_max w)"

definition saturating_sub :: "nat \<Rightarrow> nat \<Rightarrow> nat" where
  "saturating_sub a b = a - b"

definition wrapping_add :: "nat \<Rightarrow> nat \<Rightarrow> nat \<Rightarrow> nat" where
  "wrapping_add w a b = (a + b) mod 2 ^ w"

definition wrapping_sub :: "nat \<Rightarrow> nat \<Rightarrow> nat \<Rightarrow> nat" where
  "wrapping_sub w a b = (a + (2 ^ w - b mod 2 ^ w)) mod 2 ^ w"

lemma checked_add_Some_iff [simp]:
  "checked_add w a b = Some c \<longleftrightarrow> a + b < 2 ^ w \<and> c = a + b"
  by (auto simp: checked_add_def)

lemma checked_add_None_iff [simp]: "checked_add w a b = None \<longleftrightarrow> 2 ^ w \<le> a + b"
  by (auto simp: checked_add_def)

lemma checked_sub_Some_iff [simp]: "checked_sub a b = Some c \<longleftrightarrow> b \<le> a \<and> c = a - b"
  by (auto simp: checked_sub_def)

lemma checked_sub_None_iff [simp]: "checked_sub a b = None \<longleftrightarrow> a < b"
  by (auto simp: checked_sub_def)

lemma saturating_add_exact [simp]: "a + b < 2 ^ w \<Longrightarrow> saturating_add w a b = a + b"
  by (simp add: saturating_add_def u_max_def min_def) linarith

lemma saturating_add_bound: "saturating_add w a b < 2 ^ w"
proof -
  have "saturating_add w a b \<le> 2 ^ w - 1" by (simp add: saturating_add_def u_max_def)
  moreover have "(0::nat) < 2 ^ w" by simp
  ultimately show ?thesis by linarith
qed

lemma saturating_add_eq_0 [simp]: "0 < w \<Longrightarrow> saturating_add w a b = 0 \<longleftrightarrow> a = 0 \<and> b = 0"
proof -
  assume "0 < w"
  then have "(2::nat) ^ 1 \<le> 2 ^ w" by (intro power_increasing) auto
  then have "0 < u_max w" by (simp add: u_max_def)
  then show ?thesis by (auto simp: saturating_add_def min_def)
qed

lemma wrap_exact [simp]: "x < 2 ^ w \<Longrightarrow> wrap w x = x"
  by (simp add: wrap_def)

lemma wrap_bound: "wrap w x < 2 ^ w"
  by (simp add: wrap_def)

lemma wrapping_add_exact [simp]: "a + b < 2 ^ w \<Longrightarrow> wrapping_add w a b = a + b"
  by (simp add: wrapping_add_def)

lemma wrapping_sub_exact [simp]:
  assumes "b \<le> a" "a < 2 ^ w"
  shows "wrapping_sub w a b = a - b"
proof -
  have "a + (2 ^ w - b mod 2 ^ w) = (a - b) + 2 ^ w" using assms by simp
  then have "wrapping_sub w a b = ((a - b) + 2 ^ w) mod 2 ^ w" by (simp only: wrapping_sub_def)
  also have "\<dots> = (a - b) mod 2 ^ w" by simp
  also have "\<dots> = a - b" using assms by simp
  finally show ?thesis .
qed

lemmas rust_int_defs [rust_int] =
  u_max_def wrap_def checked_add_def checked_sub_def checked_mul_def saturating_add_def saturating_mul_def
  saturating_sub_def wrapping_add_def wrapping_sub_def

section \<open>Sums over storage maps\<close>

text \<open>The sum of \<open>f\<close> over the values a map stores.\<close>

definition msum :: "('v \<Rightarrow> nat) \<Rightarrow> ('k \<rightharpoonup> 'v) \<Rightarrow> nat" where
  "msum f m = (\<Sum>k\<in>dom m. f (the (m k)))"

text \<open>What a map holds at a key, \<open>0\<close> where it holds nothing.\<close>

definition at0 :: "('v \<Rightarrow> nat) \<Rightarrow> ('k \<rightharpoonup> 'v) \<Rightarrow> 'k \<Rightarrow> nat" where
  "at0 f m k = (case m k of None \<Rightarrow> 0 | Some v \<Rightarrow> f v)"

lemma at0_simps [simp]:
  "m k = None \<Longrightarrow> at0 f m k = 0"
  "m k = Some v \<Longrightarrow> at0 f m k = f v"
  by (simp_all add: at0_def)

lemma at0_upd: "at0 f (m(k := x)) j = (if j = k then (case x of None \<Rightarrow> 0 | Some v \<Rightarrow> f v) else at0 f m j)"
  by (simp add: at0_def)

lemma msum_empty [simp]: "msum f Map.empty = 0"
  by (simp add: msum_def)

lemma finite_dom_upd [simp]: "finite (dom (m(k := x))) \<longleftrightarrow> finite (dom m)"
proof -
  have "insert k (dom (m(k := x))) = insert k (dom m)" by (cases x) (auto split: if_splits)
  then show ?thesis by (metis finite_insert)
qed

text \<open>Taking one key out of the sum.\<close>

lemma msum_remove:
  assumes "finite (dom m)"
  shows "msum f m = msum f (m(k := None)) + at0 f m k"
proof (cases "m k")
  case None
  then have "m(k := None) = m" by auto
  with None show ?thesis by simp
next
  case (Some v)
  then have "dom m = insert k (dom (m(k := None)))" by auto
  then have "msum f m = (\<Sum>j\<in>insert k (dom (m(k := None))). f (the (m j)))"
    by (simp add: msum_def)
  also have "\<dots> = f v + (\<Sum>j\<in>dom (m(k := None)). f (the (m j)))"
    using assms Some by (subst sum.insert) auto
  also have "(\<Sum>j\<in>dom (m(k := None)). f (the (m j))) = msum f (m(k := None))"
    unfolding msum_def by (rule sum.cong) auto
  finally show ?thesis using Some by simp
qed

text \<open>One key written: the sum moves by the difference at that key.\<close>

lemma msum_upd:
  assumes "finite (dom m)"
  shows "msum f (m(k := x)) + at0 f m k = msum f m + (case x of None \<Rightarrow> 0 | Some v \<Rightarrow> f v)"
proof -
  have "finite (dom (m(k := x)))" using assms by simp
  from msum_remove [OF this, of f k]
  have "msum f (m(k := x)) = msum f (m(k := None)) + (case x of None \<Rightarrow> 0 | Some v \<Rightarrow> f v)"
    by (simp add: at0_def)
  with msum_remove [OF assms, of f k] show ?thesis by simp
qed

lemma at0_le_msum: "finite (dom m) \<Longrightarrow> at0 f m k \<le> msum f m"
  using msum_remove [of m f k] by simp

lemma at0_pair_le_msum:
  assumes "finite (dom m)" "j \<noteq> k"
  shows "at0 f m j + at0 f m k \<le> msum f m"
proof -
  have "finite (dom (m(k := None)))" using assms by simp
  from at0_le_msum [OF this, of f j] msum_remove [OF assms(1), of f k] assms(2)
  show ?thesis by (simp add: at0_def)
qed

end
