(* ===== verification/Storage_Map.thy ===== *)
theory Storage_Map
  imports Prelude
begin

text \<open>
  The storage map generator of \<open>frame/support/src/storage/generator/map.rs\<close>. A storage item of
  the runtime is a field of the state record that holds a map: it is given by the field's
  selector \<open>sel\<close> and update function \<open>upd\<close>. The trait's \<open>Query\<close> type comes with the two
  conversions \<open>from_optional_value_to_query\<close> and \<open>from_query_to_optional_value\<close>, the arguments
  \<open>qf\<close> and \<open>qt\<close> below. The closures that the mutating operations take run against the whole
  state, as they do in the code, so the old value is read before they run and the new one is
  written after. Key hashing and value encoding are left out: a key owns its entry.
\<close>

section \<open>Operations\<close>

type_synonym ('s, 'k, 'v) sel = "'s \<Rightarrow> 'k \<rightharpoonup> 'v"
type_synonym ('s, 'k, 'v) upd = "(('k \<rightharpoonup> 'v) \<Rightarrow> ('k \<rightharpoonup> 'v)) \<Rightarrow> 's \<Rightarrow> 's"

text \<open>Storing \<open>Some\<close> value and killing the key at \<open>None\<close>.\<close>

definition sm_store :: "('s, 'k, 'v) upd \<Rightarrow> 'k \<Rightarrow> 'v option \<Rightarrow> 's \<Rightarrow> 's" where
  "sm_store upd k v s = upd (\<lambda>m. m(k := v)) s"

definition sm_contains_key :: "('s, 'k, 'v) sel \<Rightarrow> 'k \<Rightarrow> 's \<Rightarrow> bool" where
  "sm_contains_key sel k s = (case sel s k of None \<Rightarrow> False | Some _ \<Rightarrow> True)"

definition sm_get :: "('s, 'k, 'v) sel \<Rightarrow> ('v option \<Rightarrow> 'q) \<Rightarrow> 'k \<Rightarrow> 's \<Rightarrow> 'q" where
  "sm_get sel qf k s = qf (sel s k)"

definition sm_insert :: "('s, 'k, 'v) upd \<Rightarrow> 'k \<Rightarrow> 'v \<Rightarrow> 's \<Rightarrow> 's" where
  "sm_insert upd k v s = sm_store upd k (Some v) s"

definition sm_remove :: "('s, 'k, 'v) upd \<Rightarrow> 'k \<Rightarrow> 's \<Rightarrow> 's" where
  "sm_remove upd k s = sm_store upd k None s"

definition sm_swap :: "('s, 'k, 'v) sel \<Rightarrow> ('s, 'k, 'v) upd \<Rightarrow> 'k \<Rightarrow> 'k \<Rightarrow> 's \<Rightarrow> 's" where
  "sm_swap sel upd k1 k2 s =
     (let v1 = sel s k1;
          s1 = (case sel s k2 of Some val \<Rightarrow> sm_insert upd k1 val s | None \<Rightarrow> sm_remove upd k1 s)
      in case v1 of Some val \<Rightarrow> sm_insert upd k2 val s1 | None \<Rightarrow> sm_remove upd k2 s1)"

definition sm_mutate ::
  "('s, 'k, 'v) sel \<Rightarrow> ('s, 'k, 'v) upd \<Rightarrow> ('v option \<Rightarrow> 'q) \<Rightarrow> ('q \<Rightarrow> 'v option) \<Rightarrow>
   'k \<Rightarrow> ('q \<Rightarrow> 's \<Rightarrow> 'r \<times> 'q \<times> 's) \<Rightarrow> 's \<Rightarrow> 'r \<times> 's" where
  "sm_mutate sel upd qf qt k f s =
     (case f (qf (sel s k)) s of (ret, val, s1) \<Rightarrow>
        (ret, case qt val of Some v \<Rightarrow> sm_insert upd k v s1 | None \<Rightarrow> sm_remove upd k s1))"

definition sm_mutate_exists ::
  "('s, 'k, 'v) sel \<Rightarrow> ('s, 'k, 'v) upd \<Rightarrow>
   'k \<Rightarrow> ('v option \<Rightarrow> 's \<Rightarrow> 'r \<times> 'v option \<times> 's) \<Rightarrow> 's \<Rightarrow> 'r \<times> 's" where
  "sm_mutate_exists sel upd k f s =
     (case f (sel s k) s of (ret, val, s1) \<Rightarrow>
        (ret, case val of Some v \<Rightarrow> sm_insert upd k v s1 | None \<Rightarrow> sm_remove upd k s1))"

definition sm_try_mutate ::
  "('s, 'k, 'v) sel \<Rightarrow> ('s, 'k, 'v) upd \<Rightarrow> ('v option \<Rightarrow> 'q) \<Rightarrow> ('q \<Rightarrow> 'v option) \<Rightarrow>
   'k \<Rightarrow> ('q \<Rightarrow> 's \<Rightarrow> ('r, 'e) result \<times> 'q \<times> 's) \<Rightarrow> 's \<Rightarrow> ('r, 'e) result \<times> 's" where
  "sm_try_mutate sel upd qf qt k f s =
     (case f (qf (sel s k)) s of (ret, val, s1) \<Rightarrow>
        (ret,
         if is_ok ret
         then (case qt val of Some v \<Rightarrow> sm_insert upd k v s1 | None \<Rightarrow> sm_remove upd k s1)
         else s1))"

definition sm_try_mutate_exists ::
  "('s, 'k, 'v) sel \<Rightarrow> ('s, 'k, 'v) upd \<Rightarrow>
   'k \<Rightarrow> ('v option \<Rightarrow> 's \<Rightarrow> ('r, 'e) result \<times> 'v option \<times> 's) \<Rightarrow> 's \<Rightarrow> ('r, 'e) result \<times> 's" where
  "sm_try_mutate_exists sel upd k f s =
     (case f (sel s k) s of (ret, val, s1) \<Rightarrow>
        (ret,
         if is_ok ret
         then (case val of Some v \<Rightarrow> sm_insert upd k v s1 | None \<Rightarrow> sm_remove upd k s1)
         else s1))"

definition sm_take ::
  "('s, 'k, 'v) sel \<Rightarrow> ('s, 'k, 'v) upd \<Rightarrow> ('v option \<Rightarrow> 'q) \<Rightarrow> 'k \<Rightarrow> 's \<Rightarrow> 'q \<times> 's" where
  "sm_take sel upd qf k s = (qf (sel s k), sm_remove upd k s)"

section \<open>The laws of a storage item\<close>

text \<open>
  What every item of the runtime state promises: its selector reads what its update function
  wrote. The lemmas give the state after each operation and what a read at any key returns there.
\<close>

locale storage_item =
  fixes sel :: "'s \<Rightarrow> 'k \<rightharpoonup> 'v"
    and upd :: "(('k \<rightharpoonup> 'v) \<Rightarrow> ('k \<rightharpoonup> 'v)) \<Rightarrow> 's \<Rightarrow> 's"
  assumes sel_upd: "sel (upd g s) = g (sel s)"
    and upd_upd: "upd g (upd h s) = upd (\<lambda>m. g (h m)) s"
    and upd_id: "upd (\<lambda>m. m) s = s"
    and upd_eq: "g (sel s) = h (sel s) \<Longrightarrow> upd g s = upd h s"
begin

lemma sel_store [simp]: "sel (sm_store upd k v s) = (sel s)(k := v)"
  by (simp add: sm_store_def sel_upd fun_eq_iff)

lemma get_insert: "sel (sm_insert upd k v s) j = (if j = k then Some v else sel s j)"
  by (simp add: sm_insert_def)

lemma get_remove: "sel (sm_remove upd k s) j = (if j = k then None else sel s j)"
  by (simp add: sm_remove_def)

lemma swap_swaps:
  "sel (sm_swap sel upd k1 k2 s) j =
     (if j = k2 then sel s k1 else if j = k1 then sel s k2 else sel s j)"
  by (cases "sel s k1"; cases "sel s k2") (auto simp: sm_swap_def Let_def get_insert get_remove)

lemma try_mutate_exists_err:
  assumes "f (sel s k) s = (Inl e, v, s)"
  shows "sm_try_mutate_exists sel upd k f s = (Inl e, s)"
  using assms by (simp add: sm_try_mutate_exists_def)

lemma try_mutate_exists_ok:
  assumes "f (sel s k) s = (Inr r, v, s1)"
  shows "sm_try_mutate_exists sel upd k f s = (Inr r, sm_store upd k v s1)"
  using assms
  by (cases v) (simp_all add: sm_try_mutate_exists_def sm_insert_def sm_remove_def)

lemma take_spec:
  "sm_take sel upd qf k s = (q, s') \<Longrightarrow> q = qf (sel s k) \<and> sel s' = (sel s)(k := None)"
  by (auto simp: sm_take_def sm_remove_def)

lemma store_store: "sm_store upd k v (sm_store upd k v' s) = sm_store upd k v s"
  by (simp add: sm_store_def upd_upd)

lemma store_same: "sel s k = v \<Longrightarrow> sm_store upd k v s = s"
proof -
  assume "sel s k = v"
  then have "(sel s)(k := v) = sel s" by auto
  then show ?thesis using upd_eq [of "\<lambda>m. m(k := v)" s "\<lambda>m. m"] by (simp add: sm_store_def upd_id)
qed

lemma insert_remove: "sel s k = None \<Longrightarrow> sm_remove upd k (sm_insert upd k v s) = s"
  by (simp add: sm_remove_def sm_insert_def store_store store_same)

end

end
