(* ===== verification/Support_Traits.thy ===== *)
theory Support_Traits
  imports Storage_Map "HOL-Library.Word"
begin

text \<open>
  The traits of \<open>frame/support/src/traits.rs\<close> that the currency modules share: withdrawal
  reasons, imbalances and what is built from them (\<open>SignedImbalance\<close>, \<open>SplitTwoWays\<close>, the default
  methods of \<open>Currency\<close>), and the \<open>StorageMapShim\<close>. A trait is a record of its methods; the
  methods the trait itself defines take that record.
\<close>

unbundle bit_operations_syntax

section \<open>Plain enumerations\<close>

datatype ExistenceRequirement = KeepAlive | AllowDeath

datatype BalanceStatus = Status_Free | Status_Reserved

text \<open>\<open>WithdrawReasons\<close> is a bit mask over an \<open>i8\<close>; each \<open>WithdrawReason\<close> is one of its flags.\<close>

datatype WithdrawReason = TransactionPayment | Transfer | Reserve | Fee | Tip

type_synonym WithdrawReasons = "8 word"

fun reason_flag :: "WithdrawReason \<Rightarrow> WithdrawReasons" where
  "reason_flag TransactionPayment = 1"
| "reason_flag Transfer = 2"
| "reason_flag Reserve = 4"
| "reason_flag Fee = 8"
| "reason_flag Tip = 16"

definition reasons_contains :: "WithdrawReasons \<Rightarrow> WithdrawReason \<Rightarrow> bool" where
  "reasons_contains m r = (m AND reason_flag r = reason_flag r)"

definition reasons_is_none :: "WithdrawReasons \<Rightarrow> bool" where
  "reasons_is_none m = (m = 0)"

section \<open>The trait Imbalance\<close>

record ('p, 'n) Imbalance =
  imb_zero :: 'p
  imb_drop_zero :: "'p \<Rightarrow> (unit, 'p) result"
  imb_split :: "'p \<Rightarrow> nat \<Rightarrow> 'p \<times> 'p"
  imb_merge :: "'p \<Rightarrow> 'p \<Rightarrow> 'p"
  imb_subsume :: "'p \<Rightarrow> 'p \<Rightarrow> 'p"
  imb_offset :: "'p \<Rightarrow> 'n \<Rightarrow> ('p, 'n) result"
  imb_peek :: "'p \<Rightarrow> nat"

definition maybe_merge :: "('p, 'n) Imbalance \<Rightarrow> 'p \<Rightarrow> 'p option \<Rightarrow> 'p" where
  "maybe_merge P self other = (case other of Some o' \<Rightarrow> imb_merge P self o' | None \<Rightarrow> self)"

definition maybe_subsume :: "('p, 'n) Imbalance \<Rightarrow> 'p \<Rightarrow> 'p option \<Rightarrow> 'p" where
  "maybe_subsume P self other = (case other of Some o' \<Rightarrow> imb_subsume P self o' | None \<Rightarrow> self)"

datatype ('p, 'n) SignedImbalance = Positive 'p | Negative 'n

definition signed_zero :: "('p, 'n) Imbalance \<Rightarrow> ('p, 'n) SignedImbalance" where
  "signed_zero P = Positive (imb_zero P)"

definition signed_drop_zero ::
  "('p, 'n) Imbalance \<Rightarrow> ('n, 'p) Imbalance \<Rightarrow> ('p, 'n) SignedImbalance \<Rightarrow>
   (unit, ('p, 'n) SignedImbalance) result" where
  "signed_drop_zero P N self =
     (case self of
        Positive x \<Rightarrow> (case imb_drop_zero P x of Inr u \<Rightarrow> Ok u | Inl y \<Rightarrow> Err (Positive y))
      | Negative x \<Rightarrow> (case imb_drop_zero N x of Inr u \<Rightarrow> Ok u | Inl y \<Rightarrow> Err (Negative y)))"

function signed_merge ::
  "('p, 'n) Imbalance \<Rightarrow> ('n, 'p) Imbalance \<Rightarrow>
   ('p, 'n) SignedImbalance \<Rightarrow> ('p, 'n) SignedImbalance \<Rightarrow> ('p, 'n) SignedImbalance" where
  "signed_merge P N (Positive one) (Positive other) = Positive (imb_merge P one other)"
| "signed_merge P N (Negative one) (Negative other) = Negative (imb_merge N one other)"
| "signed_merge P N (Positive one) (Negative other) =
     (if imb_peek P one > imb_peek N other
      then Positive (unwrap_or (imb_offset P one other) (imb_zero P))
      else Negative (unwrap_or (imb_offset N other one) (imb_zero N)))"
| "signed_merge P N (Negative one) (Positive other) = signed_merge P N (Positive other) (Negative one)"
  by pat_completeness auto
termination
  by (relation "measure (\<lambda>(P, N, self, other). case self of Positive _ \<Rightarrow> 0 | Negative _ \<Rightarrow> 1)") auto

section \<open>OnUnbalanced and SplitTwoWays\<close>

text \<open>\<open>TryDrop::try_drop\<close> is \<open>drop_zero\<close> for the imbalances of the currency module.\<close>

definition on_unbalanced ::
  "('i \<Rightarrow> (unit, 'i) result) \<Rightarrow> ('i \<Rightarrow> 's \<Rightarrow> 's) \<Rightarrow> 'i \<Rightarrow> 's \<Rightarrow> 's" where
  "on_unbalanced try_drop on_nonzero_unbalanced amount s =
     (case try_drop amount of Inr _ \<Rightarrow> s | Inl a \<Rightarrow> on_nonzero_unbalanced a s)"

text \<open>\<open>None\<close> is the panic of the division when both parts are zero.\<close>

definition split_two_ways ::
  "nat \<Rightarrow> ('i, 'n) Imbalance \<Rightarrow> nat \<Rightarrow> ('i \<Rightarrow> 's \<Rightarrow> 's) \<Rightarrow> nat \<Rightarrow> ('i \<Rightarrow> 's \<Rightarrow> 's) \<Rightarrow>
   'i \<Rightarrow> 's \<Rightarrow> 's option" where
  "split_two_ways w I part1 target1 part2 target2 amount s =
     (let total = wrapping_add 32 part1 part2 in
      if total = 0 then None
      else
        let amount1 = saturating_mul w (imb_peek I amount) part1 div total in
        case imb_split I amount amount1 of (imb1, imb2) \<Rightarrow>
          Some (target2 imb2 (target1 imb1 s)))"

section \<open>The default methods of Currency\<close>

text \<open>
  The methods below are those \<open>Currency\<close> implements from \<open>deposit_into_existing\<close>,
  \<open>deposit_creating\<close> and \<open>withdraw\<close>. Dropping the outcome of \<open>offset\<close> runs the drop handler of
  whichever imbalance it holds; \<open>drop_neg\<close> and \<open>drop_pos\<close> are these handlers.
\<close>

definition drop_offset ::
  "('a \<Rightarrow> 's \<Rightarrow> 's) \<Rightarrow> ('b \<Rightarrow> 's \<Rightarrow> 's) \<Rightarrow> ('a, 'b) result \<Rightarrow> 's \<Rightarrow> 's" where
  "drop_offset drop_self drop_opp r s = (case r of Inr a \<Rightarrow> drop_self a s | Inl b \<Rightarrow> drop_opp b s)"

definition resolve_into_existing ::
  "('n, 'p) Imbalance \<Rightarrow> ('n \<Rightarrow> 's \<Rightarrow> 's) \<Rightarrow> ('p \<Rightarrow> 's \<Rightarrow> 's) \<Rightarrow>
   ('acc \<Rightarrow> nat \<Rightarrow> 's \<Rightarrow> ('p, 'e) result \<times> 's) \<Rightarrow>
   'acc \<Rightarrow> 'n \<Rightarrow> 's \<Rightarrow> (unit, 'n) result \<times> 's" where
  "resolve_into_existing N drop_neg drop_pos deposit_into_existing who value s =
     (let v = imb_peek N value in
      case deposit_into_existing who v s of
        (Inr opposite, s1) \<Rightarrow> (Ok (), drop_offset drop_neg drop_pos (imb_offset N value opposite) s1)
      | (Inl _, s1) \<Rightarrow> (Err value, s1))"

definition resolve_creating ::
  "('n, 'p) Imbalance \<Rightarrow> ('n \<Rightarrow> 's \<Rightarrow> 's) \<Rightarrow> ('p \<Rightarrow> 's \<Rightarrow> 's) \<Rightarrow>
   ('acc \<Rightarrow> nat \<Rightarrow> 's \<Rightarrow> 'p \<times> 's) \<Rightarrow> 'acc \<Rightarrow> 'n \<Rightarrow> 's \<Rightarrow> 's" where
  "resolve_creating N drop_neg drop_pos deposit_creating who value s =
     (let v = imb_peek N value in
      case deposit_creating who v s of
        (opposite, s1) \<Rightarrow> drop_offset drop_neg drop_pos (imb_offset N value opposite) s1)"

definition settle ::
  "('p, 'n) Imbalance \<Rightarrow> ('p \<Rightarrow> 's \<Rightarrow> 's) \<Rightarrow> ('n \<Rightarrow> 's \<Rightarrow> 's) \<Rightarrow>
   ('acc \<Rightarrow> nat \<Rightarrow> WithdrawReasons \<Rightarrow> ExistenceRequirement \<Rightarrow> 's \<Rightarrow> ('n, 'e) result \<times> 's) \<Rightarrow>
   'acc \<Rightarrow> 'p \<Rightarrow> WithdrawReasons \<Rightarrow> ExistenceRequirement \<Rightarrow> 's \<Rightarrow> (unit, 'p) result \<times> 's" where
  "settle P drop_pos drop_neg withdraw who value reasons liveness s =
     (let v = imb_peek P value in
      case withdraw who v reasons liveness s of
        (Inr opposite, s1) \<Rightarrow> (Ok (), drop_offset drop_pos drop_neg (imb_offset P value opposite) s1)
      | (Inl _, s1) \<Rightarrow> (Err value, s1))"

section \<open>StorageMapShim\<close>

text \<open>
  The shim wraps a storage map (value query with default \<open>d\<close>) and calls \<open>created\<close> and \<open>removed\<close>,
  the \<open>Happened\<close> handlers, around its operations.
\<close>

definition shim_insert ::
  "('s, 'k, 'v) sel \<Rightarrow> ('s, 'k, 'v) upd \<Rightarrow> ('k \<Rightarrow> 's \<Rightarrow> 's) \<Rightarrow> 'k \<Rightarrow> 'v \<Rightarrow> 's \<Rightarrow> 's" where
  "shim_insert sel upd created k t s =
     (let s1 = sm_insert upd k t s in
      if \<not> sm_contains_key sel k s1 then created k s1 else s1)"

definition shim_remove ::
  "('s, 'k, 'v) sel \<Rightarrow> ('s, 'k, 'v) upd \<Rightarrow> ('k \<Rightarrow> 's \<Rightarrow> 's) \<Rightarrow> 'k \<Rightarrow> 's \<Rightarrow> 's" where
  "shim_remove sel upd removed k s =
     (let s1 = (if sm_contains_key sel k s then removed k s else s) in sm_remove upd k s1)"

definition shim_mutate ::
  "('s, 'k, 'v) sel \<Rightarrow> ('s, 'k, 'v) upd \<Rightarrow> 'v \<Rightarrow> ('k \<Rightarrow> 's \<Rightarrow> 's) \<Rightarrow>
   'k \<Rightarrow> ('v \<Rightarrow> 's \<Rightarrow> 'r \<times> 'v \<times> 's) \<Rightarrow> 's \<Rightarrow> 'r \<times> 's" where
  "shim_mutate sel upd d created k f s =
     (case sm_mutate sel upd (case_option d (\<lambda>v. v)) Some k f s of (r, s1) \<Rightarrow>
        (r, if \<not> sm_contains_key sel k s1 then created k s1 else s1))"

definition shim_mutate_exists ::
  "('s, 'k, 'v) sel \<Rightarrow> ('s, 'k, 'v) upd \<Rightarrow> ('k \<Rightarrow> 's \<Rightarrow> 's) \<Rightarrow> ('k \<Rightarrow> 's \<Rightarrow> 's) \<Rightarrow>
   'k \<Rightarrow> ('v option \<Rightarrow> 's \<Rightarrow> 'r \<times> 'v option \<times> 's) \<Rightarrow> 's \<Rightarrow> 'r \<times> 's" where
  "shim_mutate_exists sel upd created removed k f s =
     (case sm_mutate_exists sel upd k
             (\<lambda>maybe_value s. case f maybe_value s of (r, value', s1) \<Rightarrow>
                ((maybe_value \<noteq> None, value' \<noteq> None, r), value', s1)) s of
        ((existed, exists, r), s1) \<Rightarrow>
          (r, if \<not> existed \<and> exists then created k s1
              else if existed \<and> \<not> exists then removed k s1 else s1))"

definition shim_try_mutate_exists ::
  "('s, 'k, 'v) sel \<Rightarrow> ('s, 'k, 'v) upd \<Rightarrow> ('k \<Rightarrow> 's \<Rightarrow> 's) \<Rightarrow> ('k \<Rightarrow> 's \<Rightarrow> 's) \<Rightarrow>
   'k \<Rightarrow> ('v option \<Rightarrow> 's \<Rightarrow> ('r, 'e) result \<times> 'v option \<times> 's) \<Rightarrow> 's \<Rightarrow> ('r, 'e) result \<times> 's" where
  "shim_try_mutate_exists sel upd created removed k f s =
     (case sm_try_mutate_exists sel upd k
             (\<lambda>maybe_value s. case f maybe_value s of
                (Inr v, value', s1) \<Rightarrow> (Ok (maybe_value \<noteq> None, value' \<noteq> None, v), value', s1)
              | (Inl e, value', s1) \<Rightarrow> (Err e, value', s1)) s of
        (Inr (existed, exists, v), s1) \<Rightarrow>
          (Ok v, if \<not> existed \<and> exists then created k s1
                 else if existed \<and> \<not> exists then removed k s1 else s1)
      | (Inl e, s1) \<Rightarrow> (Err e, s1))"

section \<open>The laws of an imbalance pair\<close>

text \<open>
  What a currency promises of its two imbalance types, in the terms of the trait's
  documentation: \<open>split\<close> takes at most the amount asked for and loses nothing, \<open>merge\<close> and
  \<open>subsume\<close> add the values (saturating at the width \<open>w\<close>), \<open>offset\<close> keeps the difference on the
  side that is at least as large. The lemmas are proved once for every such pair.
\<close>

definition signed_value ::
  "('p, 'n) Imbalance \<Rightarrow> ('n, 'p) Imbalance \<Rightarrow> ('p, 'n) SignedImbalance \<Rightarrow> int" where
  "signed_value P N x =
     (case x of Positive p \<Rightarrow> int (imb_peek P p) | Negative n \<Rightarrow> - int (imb_peek N n))"

lemma signed_value_simps [simp]:
  "signed_value P N (Positive p) = int (imb_peek P p)"
  "signed_value P N (Negative n) = - int (imb_peek N n)"
  by (simp_all add: signed_value_def)

locale imbalance_pair =
  fixes w :: nat
    and P :: "('p, 'n) Imbalance"
    and N :: "('n, 'p) Imbalance"
  assumes zero_P: "imb_peek P (imb_zero P) = 0"
    and zero_N: "imb_peek N (imb_zero N) = 0"
    and drop_P: "imb_drop_zero P x = (if imb_peek P x = 0 then Inr () else Inl x)"
    and drop_N: "imb_drop_zero N y = (if imb_peek N y = 0 then Inr () else Inl y)"
    and split_P: "imb_split P x a = (x1, x2) \<Longrightarrow>
          imb_peek P x1 = min (imb_peek P x) a \<and> imb_peek P x1 + imb_peek P x2 = imb_peek P x"
    and merge_P: "imb_peek P (imb_merge P x x') = saturating_add w (imb_peek P x) (imb_peek P x')"
    and merge_N: "imb_peek N (imb_merge N y y') = saturating_add w (imb_peek N y) (imb_peek N y')"
    and subsume_P: "imb_subsume P x x' = imb_merge P x x'"
    and offset_P: "case imb_offset P x y of
          Inr z \<Rightarrow> imb_peek P x = imb_peek N y + imb_peek P z
        | Inl z \<Rightarrow> imb_peek N y = imb_peek P x + imb_peek N z \<and> imb_peek P x < imb_peek N y"
    and offset_N: "case imb_offset N y x of
          Inr z \<Rightarrow> imb_peek N y = imb_peek P x + imb_peek N z
        | Inl z \<Rightarrow> imb_peek P x = imb_peek N y + imb_peek P z \<and> imb_peek N y < imb_peek P x"
begin

lemma merge_opposite:
  "signed_value P N (signed_merge P N (Positive x) (Negative y)) =
     int (imb_peek P x) - int (imb_peek N y)"
proof (cases "imb_peek P x > imb_peek N y")
  case True
  then show ?thesis using offset_P [where x = x and y = y] by (simp split: sum.splits)
next
  case False
  then show ?thesis using offset_N [where x = x and y = y] by (simp split: sum.splits)
qed

text \<open>Merging adds the signed values, unless two of the same sign reach the width.\<close>

lemma signed_merge_value:
  assumes "\<bar>signed_value P N x\<bar> + \<bar>signed_value P N y\<bar> < 2 ^ w"
  shows "signed_value P N (signed_merge P N x y) = signed_value P N x + signed_value P N y"
proof -
  have bound: "saturating_add w a b = a + b" if "int a + int b < 2 ^ w" for a b :: nat
  proof (rule saturating_add_exact)
    have "int (a + b) < int (2 ^ w)" using that by simp
    then show "a + b < 2 ^ w" by (simp only: of_nat_less_iff)
  qed
  show ?thesis
  proof (cases x)
    case px: (Positive p)
    show ?thesis
    proof (cases y)
      case (Positive q)
      then show ?thesis using assms bound px by (simp add: merge_P)
    next
      case (Negative q)
      then show ?thesis using merge_opposite [of p q] px by simp
    qed
  next
    case nx: (Negative p)
    show ?thesis
    proof (cases y)
      case (Positive q)
      then show ?thesis using merge_opposite [of q p] nx by simp
    next
      case (Negative q)
      then show ?thesis using assms bound nx by (simp add: merge_N)
    qed
  qed
qed

lemma signed_drop_zero_iff:
  "signed_drop_zero P N x = Inr u \<longleftrightarrow> signed_value P N x = 0"
  by (cases x) (auto simp: signed_drop_zero_def drop_P drop_N)

text \<open>The two targets of \<open>SplitTwoWays\<close> get the whole amount between them.\<close>

lemma split_two_ways_conserves:
  assumes "split_two_ways w P part1 t1 part2 t2 x s = Some s'"
  obtains x1 x2 where "s' = t2 x2 (t1 x1 s)" "imb_peek P x1 + imb_peek P x2 = imb_peek P x"
    "imb_peek P x1 =
       min (imb_peek P x) (saturating_mul w (imb_peek P x) part1 div wrapping_add 32 part1 part2)"
proof -
  let ?a = "saturating_mul w (imb_peek P x) part1 div wrapping_add 32 part1 part2"
  obtain x1 x2 where split: "imb_split P x ?a = (x1, x2)" by (cases "imb_split P x ?a")
  then have "s' = t2 x2 (t1 x1 s)"
    using assms by (simp add: split_two_ways_def Let_def split: if_splits)
  then show ?thesis using that split_P [OF split] by blast
qed

end

section \<open>The contract of a currency\<close>

text \<open>
  What \<open>Currency\<close> promises to the code that only sees the trait. \<open>books g s\<close> is the provider's
  accounting invariant with imbalances of net value \<open>g\<close> around: each operation moves \<open>g\<close> by the
  imbalance it returns, and dropping that imbalance moves it back. The default methods of the trait
  are proved once to discharge the imbalance they are given.
\<close>

locale currency = imbalance_pair w P N
  for w :: nat and P :: "('p, 'n) Imbalance" and N :: "('n, 'p) Imbalance" +
  fixes books :: "int \<Rightarrow> 's \<Rightarrow> bool"
    and drop_pos :: "'p \<Rightarrow> 's \<Rightarrow> 's"
    and drop_neg :: "'n \<Rightarrow> 's \<Rightarrow> 's"
    and deposit_into_existing :: "'acc \<Rightarrow> nat \<Rightarrow> 's \<Rightarrow> ('p, 'e) result \<times> 's"
    and deposit_creating :: "'acc \<Rightarrow> nat \<Rightarrow> 's \<Rightarrow> 'p \<times> 's"
    and withdraw :: "'acc \<Rightarrow> nat \<Rightarrow> WithdrawReasons \<Rightarrow> ExistenceRequirement \<Rightarrow> 's \<Rightarrow> ('n, 'e) result \<times> 's"
  assumes drop_neg_law: "books g s \<Longrightarrow> int (imb_peek N n) \<le> g \<Longrightarrow> books (g - int (imb_peek N n)) (drop_neg n s)"
    and drop_pos_zero: "books g s \<Longrightarrow> imb_peek P p = 0 \<Longrightarrow> books g (drop_pos p s)"
    and existing_ok: "books g s \<Longrightarrow> deposit_into_existing who v s = (Inr p, s') \<Longrightarrow>
          imb_peek P p = v \<and> books (g - int v) s'"
    and existing_err: "deposit_into_existing who v s = (Inl e, s') \<Longrightarrow> s' = s"
    and creating: "books g s \<Longrightarrow> deposit_creating who v s = (p, s') \<Longrightarrow>
          imb_peek P p \<le> v \<and> books (g - int (imb_peek P p)) s'"
    and withdraw_ok: "books g s \<Longrightarrow> - int v \<le> g \<Longrightarrow> withdraw who v r l s = (Inr n, s') \<Longrightarrow>
          imb_peek N n = v \<and> books (g + int v) s'"
    and withdraw_err: "withdraw who v r l s = (Inl e, s') \<Longrightarrow> s' = s"
begin

lemma resolve_creating_books:
  assumes "books g s" "int (imb_peek N n) \<le> g"
  shows "books (g - int (imb_peek N n)) (resolve_creating N drop_neg drop_pos deposit_creating who n s)"
proof -
  obtain p s1 where d: "deposit_creating who (imb_peek N n) s = (p, s1)" by fastforce
  note c = creating [OF assms(1) d]
  from offset_N [where y = n and x = p] c obtain m where m: "imb_offset N n p = Inr m"
    "imb_peek N n = imb_peek P p + imb_peek N m"
    by (auto split: sum.splits)
  have "books (g - int (imb_peek P p) - int (imb_peek N m)) (drop_neg m s1)"
    using c m assms(2) by (intro drop_neg_law) auto
  then show ?thesis using d m by (simp add: resolve_creating_def drop_offset_def algebra_simps)
qed

lemma resolve_into_existing_books:
  assumes "books g s" "int (imb_peek N n) \<le> g"
    and "resolve_into_existing N drop_neg drop_pos deposit_into_existing who n s = (r, s')"
  shows "r = Inr () \<and> books (g - int (imb_peek N n)) s' \<or> r = Inl n \<and> s' = s"
proof -
  obtain x s1 where d: "deposit_into_existing who (imb_peek N n) s = (x, s1)" by fastforce
  show ?thesis
  proof (cases x)
    case (Inl e)
    then show ?thesis using assms(3) d existing_err by (auto simp: resolve_into_existing_def)
  next
    case (Inr p)
    with d have d': "deposit_into_existing who (imb_peek N n) s = (Inr p, s1)" by simp
    note c = existing_ok [OF assms(1) d']
    from offset_N [where y = n and x = p] c obtain m where m: "imb_offset N n p = Inr m" "imb_peek N m = 0"
      by (auto split: sum.splits)
    have "books (g - int (imb_peek N n) - int (imb_peek N m)) (drop_neg m s1)"
      using c m assms(2) by (intro drop_neg_law) auto
    then show ?thesis using assms(3) d' m by (auto simp: resolve_into_existing_def drop_offset_def)
  qed
qed

lemma settle_books:
  assumes "books g s" "- int (imb_peek P p) \<le> g"
    and "settle P drop_pos drop_neg withdraw who p reasons liveness s = (r, s')"
  shows "r = Inr () \<and> books (g + int (imb_peek P p)) s' \<or> r = Inl p \<and> s' = s"
proof -
  obtain x s1 where d: "withdraw who (imb_peek P p) reasons liveness s = (x, s1)" by fastforce
  show ?thesis
  proof (cases x)
    case (Inl e)
    then show ?thesis using assms(3) d withdraw_err by (auto simp: settle_def)
  next
    case (Inr n)
    with d have d': "withdraw who (imb_peek P p) reasons liveness s = (Inr n, s1)" by simp
    note c = withdraw_ok [OF assms(1,2) d']
    from offset_P [where y = n and x = p] c obtain m where m: "imb_offset P p n = Inr m" "imb_peek P m = 0"
      by (auto split: sum.splits)
    have "books (g + int (imb_peek P p)) (drop_pos m s1)" using c m by (intro drop_pos_zero) auto
    then show ?thesis using assms(3) d' m by (auto simp: settle_def drop_offset_def)
  qed
qed

end

section \<open>The shim's creation handler\<close>

text \<open>
  \<open>insert\<close> and \<open>mutate\<close> test for the key after they have written it, so on a storage item the
  test never holds and \<open>Created\<close> is never called, also for a key that was absent.
\<close>

context storage_item
begin

lemma contains_key_iff: "sm_contains_key sel k s \<longleftrightarrow> sel s k \<noteq> None"
  by (simp add: sm_contains_key_def split: option.split)

lemma shim_insert_eq: "shim_insert sel upd created k t s = sm_insert upd k t s"
  by (simp add: shim_insert_def contains_key_iff get_insert)

lemma shim_mutate_eq:
  "shim_mutate sel upd d created k f s = sm_mutate sel upd (case_option d (\<lambda>v. v)) Some k f s"
  by (simp add: shim_mutate_def sm_mutate_def contains_key_iff get_insert split: prod.splits)

lemma shim_try_mutate_exists_ok:
  assumes "f (sel s k) s = (Inr r, v, s1)"
  shows "shim_try_mutate_exists sel upd created removed k f s =
    (Inr r,
     let s2 = sm_store upd k v s1 in
     if sel s k = None \<and> v \<noteq> None then created k s2
     else if sel s k \<noteq> None \<and> v = None then removed k s2 else s2)"
  using assms
  by (auto simp: shim_try_mutate_exists_def sm_try_mutate_exists_def sm_insert_def sm_remove_def
      Let_def split: option.splits)

end

end
