(* ===== verification/Runtime_Types.thy ===== *)
theory Runtime_Types
  imports Support_Traits
begin

text \<open>
  The types the runtime modules share: origins, dispatch errors, dispatch information, and the
  event and error enumerations of the modelled modules, joined the way the runtime's outer
  \<open>Event\<close> and \<open>DispatchError\<close> join them.
\<close>

type_synonym hash = "256 word"

section \<open>Errors\<close>

datatype SystemError =
    InvalidSpecName
  | SpecVersionNotAllowedToDecrease
  | ImplVersionNotAllowedToDecrease
  | SpecOrImplVersionNeedToIncrease
  | FailedToExtractRuntimeVersion
  | NonDefaultComposite
  | NonZeroRefCount

datatype BalancesError =
    VestingBalance
  | LiquidityRestrictions
  | Overflow
  | InsufficientBalance
  | ExistentialDeposit
  | Error_KeepAlive
  | ExistingVestingSchedule
  | DeadAccount

datatype VestingError = NotVesting | Vesting_ExistingVestingSchedule | AmountLow

datatype TreasuryError =
    InsufficientProposersBalance
  | InvalidProposalIndex
  | ReasonTooBig
  | AlreadyKnown
  | UnknownTip
  | NotFinder
  | StillOpen
  | Premature

text \<open>The \<open>Module\<close> variant carries the module's index and error number; here it carries the error.\<close>

datatype DispatchError =
    Other string
  | CannotLookup
  | BadOrigin
  | Module_System SystemError
  | Module_Balances BalancesError
  | Module_Vesting VestingError
  | Module_Treasury TreasuryError

section \<open>Origins and dispatch information\<close>

datatype 'acc RawOrigin = Root | Signed 'acc | Origin_None

datatype DispatchClass = Normal | Operational

record DispatchInfo =
  weight :: nat
  dispatch_class :: DispatchClass
  pays_fee :: bool

text \<open>The origin of a dispatch is either a \<open>RawOrigin\<close> or one of another module (\<open>None\<close> here).\<close>

type_synonym 'acc Origin = "'acc RawOrigin option"

definition ensure_signed :: "'acc Origin \<Rightarrow> ('acc, DispatchError) result" where
  "ensure_signed o' = (case o' of Some (Signed t) \<Rightarrow> Ok t | _ \<Rightarrow> Err BadOrigin)"

definition ensure_root :: "'acc Origin \<Rightarrow> (unit, DispatchError) result" where
  "ensure_root o' = (case o' of Some Root \<Rightarrow> Ok () | _ \<Rightarrow> Err BadOrigin)"

definition ensure_none :: "'acc Origin \<Rightarrow> (unit, DispatchError) result" where
  "ensure_none o' = (case o' of Some Origin_None \<Rightarrow> Ok () | _ \<Rightarrow> Err BadOrigin)"

lemma ensure_signed_iff: "ensure_signed o' = Inr t \<longleftrightarrow> o' = Some (Signed t)"
  by (auto simp: ensure_signed_def split: option.splits RawOrigin.splits)

lemma ensure_root_iff: "ensure_root o' = Inr u \<longleftrightarrow> o' = Some Root"
  by (auto simp: ensure_root_def split: option.splits RawOrigin.splits)

section \<open>Events\<close>

datatype 'acc SystemEvent =
    ExtrinsicSuccess DispatchInfo
  | ExtrinsicFailed DispatchError DispatchInfo
  | CodeUpdated
  | NewAccount 'acc
  | KilledAccount 'acc

datatype 'acc BalancesEvent =
    Endowed 'acc nat
  | DustLost 'acc nat
  | Event_Transfer 'acc 'acc nat
  | BalanceSet 'acc nat nat
  | Deposit 'acc nat

datatype 'acc VestingEvent = VestingUpdated 'acc nat | VestingCompleted 'acc

datatype 'acc TreasuryEvent =
    Proposed nat
  | Spending nat
  | Awarded nat nat 'acc
  | Rejected nat nat
  | Burnt nat
  | Rollover nat
  | TreasuryDeposit nat
  | NewTip hash
  | TipClosing hash
  | TipClosed hash 'acc nat
  | TipRetracted hash

datatype 'acc RuntimeEvent =
    Event_System "'acc SystemEvent"
  | Event_Balances "'acc BalancesEvent"
  | Event_Vesting "'acc VestingEvent"
  | Event_Treasury "'acc TreasuryEvent"

datatype Phase = ApplyExtrinsic nat | Finalization

record 'acc EventRecord =
  phase :: Phase
  event :: "'acc RuntimeEvent"
  topics :: "hash list"

text \<open>Digest items of \<open>primitives/runtime/src/generic/digest.rs\<close>; engine ids and payloads are bytes,
  a changes trie configuration is its digest interval and levels.\<close>

datatype ChangesTrieSignal = NewConfiguration "(nat \<times> nat) option"

datatype DigestItem =
    ChangesTrieRoot hash
  | PreRuntime "8 word list" "8 word list"
  | Consensus "8 word list" "8 word list"
  | Seal "8 word list" "8 word list"
  | DigestItem_ChangesTrieSignal ChangesTrieSignal
  | Digest_Other "8 word list"

end
