(* ===== verification/Per_Things.thy ===== *)
theory Per_Things
  imports Prelude
begin

text \<open>
  The per-thing types of \<open>primitives/arithmetic/src/per_things.rs\<close>: the macro
  \<open>implement_per_thing\<close> is written once, over the accuracy and the widths of the two integer
  types it is invoked with, and the four invocations are its arguments. A value is its number of
  parts. Every machine operation is reduced to the width of the type it is computed in, so the
  theorems show that no reduction ever takes effect.
\<close>

section \<open>The macro's arguments\<close>

record per_thing_cfg =
  ACCURACY :: nat
  inner_bits :: nat
  upper_bits :: nat

definition Percent :: per_thing_cfg where
  "Percent = \<lparr>ACCURACY = 100, inner_bits = 8, upper_bits = 16\<rparr>"

definition Permill :: per_thing_cfg where
  "Permill = \<lparr>ACCURACY = 1000000, inner_bits = 32, upper_bits = 64\<rparr>"

definition Perbill :: per_thing_cfg where
  "Perbill = \<lparr>ACCURACY = 1000000000, inner_bits = 32, upper_bits = 64\<rparr>"

definition Perquintill :: per_thing_cfg where
  "Perquintill = \<lparr>ACCURACY = 1000000000000000000, inner_bits = 64, upper_bits = 128\<rparr>"

text \<open>What the generated test \<open>macro_expanded_correctly\<close> and the comments ask of an invocation.\<close>

definition per_thing_ok :: "per_thing_cfg \<Rightarrow> bool" where
  "per_thing_ok c \<longleftrightarrow>
     100 \<le> ACCURACY c \<and> ACCURACY c mod 100 = 0 \<and>
     2 * ACCURACY c < 2 ^ inner_bits c \<and>
     2 * ACCURACY c * ACCURACY c < 2 ^ upper_bits c \<and>
     inner_bits c \<le> upper_bits c"

lemma invocations_ok:
  "per_thing_ok Percent" "per_thing_ok Permill" "per_thing_ok Perbill" "per_thing_ok Perquintill"
  by (simp_all add: per_thing_ok_def Percent_def Permill_def Perbill_def Perquintill_def)

section \<open>Operations\<close>

definition pt_zero :: nat where
  "pt_zero = 0"

definition pt_is_zero :: "nat \<Rightarrow> bool" where
  "pt_is_zero self = (self = 0)"

definition pt_one :: "per_thing_cfg \<Rightarrow> nat" where
  "pt_one c = ACCURACY c"

definition pt_from_parts :: "per_thing_cfg \<Rightarrow> nat \<Rightarrow> nat" where
  "pt_from_parts c parts = (if parts > ACCURACY c then ACCURACY c else parts)"

definition pt_from_percent :: "per_thing_cfg \<Rightarrow> nat \<Rightarrow> nat" where
  "pt_from_percent c x = ((if x > 100 then 100 else x) * (ACCURACY c div 100)) mod 2 ^ inner_bits c"

text \<open>
  The argument \<open>p\<close> and \<open>q\<close> are of some type \<open>N\<close> at least as wide as the inner type; \<open>try_into\<close>
  fails, and \<open>expect\<close> panics (\<open>None\<close>), where a reduced value exceeds the inner type.
\<close>

definition try_into_inner :: "per_thing_cfg \<Rightarrow> nat \<Rightarrow> nat option" where
  "try_into_inner c x = (if x < 2 ^ inner_bits c then Some x else None)"

definition pt_from_rational_approximation :: "per_thing_cfg \<Rightarrow> nat \<Rightarrow> nat \<Rightarrow> nat option" where
  "pt_from_rational_approximation c p0 q0 =
     (let q = max q0 1;
          p = min p0 q;
          factor = max (q div ACCURACY c) 1
      in case try_into_inner c (q div factor) of
           None \<Rightarrow> None
         | Some q_reduce \<Rightarrow>
             (case try_into_inner c (p div factor) of
                None \<Rightarrow> None
              | Some p_reduce \<Rightarrow>
                  let part = ((p_reduce * ACCURACY c) mod 2 ^ upper_bits c) div q_reduce
                  in Some (part mod 2 ^ inner_bits c)))"

definition pt_square :: "per_thing_cfg \<Rightarrow> nat \<Rightarrow> nat option" where
  "pt_square c self =
     (let p = (self * self) mod 2 ^ upper_bits c;
          q = (ACCURACY c * ACCURACY c) mod 2 ^ upper_bits c
      in pt_from_rational_approximation c p q)"

definition pt_saturating_add :: "per_thing_cfg \<Rightarrow> nat \<Rightarrow> nat \<Rightarrow> nat" where
  "pt_saturating_add c self rhs = pt_from_parts c (saturating_add (inner_bits c) self rhs)"

definition pt_saturating_sub :: "per_thing_cfg \<Rightarrow> nat \<Rightarrow> nat \<Rightarrow> nat" where
  "pt_saturating_sub c self rhs = pt_from_parts c (saturating_sub self rhs)"

definition pt_saturating_mul :: "per_thing_cfg \<Rightarrow> nat \<Rightarrow> nat \<Rightarrow> nat" where
  "pt_saturating_mul c self rhs =
     (let parts = ((self * rhs) mod 2 ^ upper_bits c) div ACCURACY c
      in pt_from_parts c (parts mod 2 ^ inner_bits c))"

definition pt_div :: "per_thing_cfg \<Rightarrow> nat \<Rightarrow> nat \<Rightarrow> nat option" where
  "pt_div c self rhs = pt_from_rational_approximation c self rhs"

text \<open>\<open>impl Mul<N>\<close>: \<open>n\<close> is the width of \<open>N\<close>.\<close>

definition pt_mul :: "per_thing_cfg \<Rightarrow> nat \<Rightarrow> nat \<Rightarrow> nat \<Rightarrow> nat" where
  "pt_mul c n self b =
     (let maximum = ACCURACY c;
          rem = b mod maximum;
          rem_sized = min rem (u_max (inner_bits c));
          rem_multiplied_upper = (rem_sized * self) mod 2 ^ upper_bits c;
          divided = (rem_multiplied_upper div maximum) mod 2 ^ inner_bits c;
          rem_multiplied_divided =
            (if rem_multiplied_upper mod maximum > maximum div 2
             then (divided + 1) mod 2 ^ inner_bits c else divided)
      in ((b div maximum) * self mod 2 ^ n + rem_multiplied_divided) mod 2 ^ n)"

section \<open>Reference definitions\<close>

text \<open>The rational \<open>self / ACCURACY\<close> of \<open>b\<close>, rounded to the nearest integer, ties downwards.\<close>

definition round_of :: "per_thing_cfg \<Rightarrow> nat \<Rightarrow> nat \<Rightarrow> nat" where
  "round_of c self b =
     (self * b) div ACCURACY c + (if (self * b) mod ACCURACY c > ACCURACY c div 2 then 1 else 0)"

section \<open>Properties\<close>

lemma per_thing_okD:
  assumes "per_thing_ok c"
  shows "0 < ACCURACY c" "2 * ACCURACY c < 2 ^ inner_bits c"
    "2 * ACCURACY c * ACCURACY c < 2 ^ upper_bits c" "ACCURACY c < 2 ^ inner_bits c"
    "ACCURACY c * ACCURACY c < 2 ^ upper_bits c"
  using assms by (auto simp: per_thing_ok_def)

lemma round_of_le:
  assumes "per_thing_ok c" "self \<le> ACCURACY c"
  shows "round_of c self b \<le> b"
proof (cases "(self * b) mod ACCURACY c = 0")
  case True
  have "(self * b) div ACCURACY c \<le> (ACCURACY c * b) div ACCURACY c"
    using assms by (intro div_le_mono mult_right_mono) auto
  with True per_thing_okD(1) [OF assms(1)] show ?thesis by (simp add: round_of_def)
next
  case False
  have pos: "0 < ACCURACY c" by (rule per_thing_okD(1) [OF assms(1)])
  have "self * b \<le> b * ACCURACY c" using assms by simp
  moreover have "self * b \<noteq> b * ACCURACY c" using False by (metis mod_mult_self2_is_0)
  ultimately have "self * b < b * ACCURACY c" by linarith
  then have "(self * b) div ACCURACY c < b" using pos by (simp add: less_mult_imp_div_less)
  then show ?thesis by (simp add: round_of_def)
qed

text \<open>Splitting the multiplicand at the accuracy does not change quotient or remainder.\<close>

lemma split_product:
  fixes a b m :: nat
  assumes "0 < m"
  shows "(a * b) div m = (b div m) * a + ((b mod m) * a) div m"
    and "(a * b) mod m = ((b mod m) * a) mod m"
proof -
  have "a * b = (b div m * m + b mod m) * a" by (subst div_mult_mod_eq) (rule mult.commute)
  also have "\<dots> = (b mod m) * a + (b div m * a) * m" by (simp only: add_mult_distrib) (simp add: ac_simps)
  finally have eq: "a * b = (b mod m) * a + (b div m * a) * m" .
  show "(a * b) div m = (b div m) * a + ((b mod m) * a) div m"
    using assms by (subst eq) simp
  show "(a * b) mod m = ((b mod m) * a) mod m"
    by (simp add: mod_mult_right_eq mult.commute)
qed

lemma pt_mul_exact:
  assumes ok: "per_thing_ok c" and self: "self \<le> ACCURACY c" and b: "b < 2 ^ n"
  shows "pt_mul c n self b = round_of c self b"
proof -
  let ?m = "ACCURACY c"
  note pos = per_thing_okD [OF ok]
  have rem: "b mod ?m < ?m" using pos by simp
  then have "(b mod ?m) * self \<le> ?m * ?m" using self by (intro mult_mono) auto
  then have up: "(b mod ?m) * self < 2 ^ upper_bits c" using pos by linarith
  have sized: "min (b mod ?m) (u_max (inner_bits c)) = b mod ?m"
    using rem pos(4) by (simp add: u_max_def)
  have "((b mod ?m) * self) div ?m \<le> (?m * ?m) div ?m"
    using \<open>(b mod ?m) * self \<le> ?m * ?m\<close> by (rule div_le_mono)
  then have dle: "((b mod ?m) * self) div ?m \<le> ?m" using pos by simp
  then have din: "((b mod ?m) * self) div ?m + 1 < 2 ^ inner_bits c" using pos by linarith
  have round: "round_of c self b =
      (b div ?m) * self + (((b mod ?m) * self) div ?m +
        (if ((b mod ?m) * self) mod ?m > ?m div 2 then 1 else 0))"
    by (simp add: round_of_def split_product [OF pos(1), of self b])
  have le: "round_of c self b \<le> b" by (rule round_of_le [OF ok self])
  have "(b div ?m) * self \<le> round_of c self b" unfolding round by (rule le_add1)
  then have part: "(b div ?m) * self < 2 ^ n" using le b by (rule order_le_less_trans [OF order_trans])
  let ?x = "((b mod ?m) * self) div ?m"
  have "pt_mul c n self b = ((b div ?m) * self +
      (if ((b mod ?m) * self) mod ?m > ?m div 2 then ?x + 1 else ?x)) mod 2 ^ n"
    unfolding pt_mul_def Let_def sized mod_less [OF up] mod_less [OF part]
    by (simp only: mod_less [OF add_lessD1 [OF din]] mod_less [OF din])
  also have "\<dots> = round_of c self b mod 2 ^ n" unfolding round by (simp only: if_distrib add_0_right cong: if_cong)
  finally show ?thesis using le b by simp
qed

text \<open>
  C15. Multiplying an integer \<open>b\<close> of a width \<open>n\<close> that holds the inner type by a per-thing gives
  exactly \<open>b\<close> times the fraction rounded to the nearest integer, at most \<open>b\<close> itself: none of the
  intermediate conversions and products overflows.
\<close>

theorem pt_mul_rounds:
  assumes ok: "per_thing_ok c" and self: "self \<le> ACCURACY c" and b: "b < 2 ^ n"
  shows "pt_mul c n self b = round_of c self b \<and> round_of c self b \<le> b"
  using pt_mul_exact [OF assms] round_of_le [OF ok self] by blast

theorem pt_mul_rounds_witness:
  "per_thing_ok Perbill \<and> pt_mul Perbill 32 (pt_from_percent Perbill 75) 1000000001 = 750000001"
proof -
  have "pt_mul Perbill 32 750000000 1000000001 = round_of Perbill 750000000 1000000001"
    using pt_mul_rounds [OF invocations_ok(3), of 750000000 1000000001 32]
    by (simp add: Perbill_def)
  then show ?thesis
    using invocations_ok(3) by (simp add: pt_from_percent_def round_of_def Perbill_def)
qed

lemma factor_bound:
  fixes q m :: nat
  assumes "0 < m"
  shows "q div max (q div m) 1 < 2 * m"
proof (cases "q div m = 0")
  case True
  then show ?thesis using assms by (simp add: div_eq_0_iff)
next
  case False
  then have "q < (q div m + 1) * m" using assms by (simp add: dividend_less_div_times)
  also have "\<dots> \<le> (2 * m) * (q div m)" using False by (simp add: algebra_simps)
  finally have "q div (q div m) < 2 * m" using False by (simp add: less_mult_imp_div_less)
  moreover have "max (q div m) 1 = q div m" using False by simp
  ultimately show ?thesis by simp
qed

text \<open>The division the approximation performs once both sides are reduced.\<close>

lemma from_rational_approximation_eq:
  assumes ok: "per_thing_ok c" and f_def: "f = max (max q 1 div ACCURACY c) 1"
  shows "pt_from_rational_approximation c p q =
    Some ((min p (max q 1) div f * ACCURACY c) div (max q 1 div f))"
    and "(min p (max q 1) div f * ACCURACY c) div (max q 1 div f) \<le> ACCURACY c"
proof -
  let ?m = "ACCURACY c" and ?q = "max q 1"
  note pos = per_thing_okD [OF ok]
  have qr: "?q div f < 2 * ?m" unfolding f_def by (rule factor_bound [OF pos(1)])
  have pq: "min p ?q div f \<le> ?q div f" by (rule div_le_mono) simp
  have prod: "min p ?q div f * ?m < 2 ^ upper_bits c"
  proof -
    have "min p ?q div f * ?m \<le> (2 * ?m) * ?m" using pq qr by (intro mult_right_mono) auto
    then show ?thesis using pos(3) by linarith
  qed
  have le: "(min p ?q div f * ?m) div (?q div f) \<le> ?m"
  proof -
    have "(min p ?q div f * ?m) div (?q div f) \<le> (?q div f * ?m) div (?q div f)"
      using pq by (intro div_le_mono mult_right_mono) auto
    also have "\<dots> \<le> ?m" by (simp add: div_le_mono)
    finally show ?thesis .
  qed
  show "(min p ?q div f * ?m) div (?q div f) \<le> ?m" by (rule le)
  have "?q div f < 2 ^ inner_bits c" "min p ?q div f < 2 ^ inner_bits c"
    using qr pq pos(2) by linarith+
  then show "pt_from_rational_approximation c p q = Some ((min p ?q div f * ?m) div (?q div f))"
    unfolding pt_from_rational_approximation_def Let_def f_def [symmetric]
    using prod le pos(4) by (simp add: try_into_inner_def)
qed

text \<open>
  C16. \<open>from_rational_approximation\<close> never panics and never leaves the unit interval; it is all of
  it where \<open>p\<close> reaches \<open>q\<close>, and it is the exact quotient, rounded down, where \<open>q\<close> is below twice
  the accuracy.
\<close>

theorem from_rational_approximation_total:
  assumes ok: "per_thing_ok c"
  shows "\<exists>r. pt_from_rational_approximation c p q = Some r \<and> r \<le> ACCURACY c \<and>
      (q \<le> p \<longrightarrow> p \<noteq> 0 \<longrightarrow> r = ACCURACY c) \<and>
      (p \<le> q \<longrightarrow> 0 < q \<longrightarrow> q < 2 * ACCURACY c \<longrightarrow> r = (p * ACCURACY c) div q)"
proof -
  let ?m = "ACCURACY c" and ?q = "max q 1"
  let ?f = "max (?q div ?m) 1"
  let ?r = "(min p ?q div ?f * ?m) div (?q div ?f)"
  note pos = per_thing_okD [OF ok]
  have nz: "0 < ?q div ?f"
  proof -
    have "?f \<le> ?q" using pos(1) by (simp add: max_def)
    then show ?thesis by (simp add: div_greater_zero_iff)
  qed
  have full: "?r = ?m" if "q \<le> p" "p \<noteq> 0"
  proof -
    have "min p ?q = ?q" using that by (simp add: min_def max_def)
    then show ?thesis using nz by (simp only: nonzero_mult_div_cancel_left neq0_conv)
  qed
  have exact: "?r = (p * ?m) div q" if "p \<le> q" "0 < q" "q < 2 * ?m"
  proof -
    have "q div ?m < 2" using that pos(1) by (simp add: less_mult_imp_div_less)
    moreover have q: "?q = q" and p: "min p ?q = p" using that by auto
    ultimately have "?f = 1" by (simp add: max_def)
    then show ?thesis using p q by simp
  qed
  show ?thesis
  proof (intro exI conjI impI)
    show "pt_from_rational_approximation c p q = Some ?r"
      by (rule from_rational_approximation_eq(1) [OF ok refl])
    show "?r \<le> ?m" by (rule from_rational_approximation_eq(2) [OF ok refl])
  qed (rule full exact; assumption)+
qed

theorem from_rational_approximation_total_witness:
  "per_thing_ok Percent \<and> pt_from_rational_approximation Percent 1 3 = Some 33"
  using from_rational_approximation_total [OF invocations_ok(1), of 1 3] invocations_ok(1)
  by (simp add: Percent_def)

lemma pt_from_parts_le: "pt_from_parts c x \<le> ACCURACY c"
  by (simp add: pt_from_parts_def)

lemma pt_saturating_mul_exact:
  assumes ok: "per_thing_ok c" and "a \<le> ACCURACY c" "b \<le> ACCURACY c"
  shows "pt_saturating_mul c a b = (a * b) div ACCURACY c"
proof -
  note pos = per_thing_okD [OF ok]
  have "a * b \<le> ACCURACY c * ACCURACY c" using assms by (intro mult_mono) auto
  then have up: "a * b < 2 ^ upper_bits c" and "(a * b) div ACCURACY c \<le> ACCURACY c"
    using pos div_le_mono [of "a * b" "ACCURACY c * ACCURACY c" "ACCURACY c"] by auto
  then show ?thesis using pos(4) by (simp add: pt_saturating_mul_def pt_from_parts_def)
qed

text \<open>
  The saturating operations keep a per-thing within the unit interval, and inside it they are
  the exact sum, difference and product (rounded down) of the fractions.
\<close>

lemma pt_saturating_ops:
  assumes ok: "per_thing_ok c" and "a \<le> ACCURACY c" "b \<le> ACCURACY c"
  shows "pt_saturating_add c a b = min (a + b) (ACCURACY c) \<and>
    pt_saturating_sub c a b = a - b \<and>
    pt_saturating_mul c a b = (a * b) div ACCURACY c \<and>
    pt_saturating_mul c a b \<le> min a b"
proof (intro conjI)
  note pos = per_thing_okD [OF ok]
  have "a + b < 2 ^ inner_bits c" using assms pos(2) by linarith
  then show "pt_saturating_add c a b = min (a + b) (ACCURACY c)"
    by (simp add: pt_saturating_add_def pt_from_parts_def min_def)
  show "pt_saturating_sub c a b = a - b"
    using assms(2) by (auto simp: pt_saturating_sub_def pt_from_parts_def saturating_sub_def)
  show eq: "pt_saturating_mul c a b = (a * b) div ACCURACY c"
    by (rule pt_saturating_mul_exact [OF assms])
  have "(a * b) div ACCURACY c \<le> (a * ACCURACY c) div ACCURACY c"
    and "(a * b) div ACCURACY c \<le> (ACCURACY c * b) div ACCURACY c"
    using assms by (intro div_le_mono mult_mono; simp)+
  then show "pt_saturating_mul c a b \<le> min a b" using pos(1) eq by simp
qed

end
