(* ===== verification/Era.thy ===== *)
theory Era
  imports Prelude
begin

text \<open>
  Transaction mortality, \<open>primitives/runtime/src/generic/era.rs\<close>. Periods, phases and block
  numbers are 64-bit integers; the encoded form is a list of bytes, least significant first, as
  the codec writes a \<open>u16\<close>.
\<close>

unbundle bit_operations_syntax

section \<open>Integer primitives of the standard library\<close>

fun next_pow2_from :: "nat \<Rightarrow> nat \<Rightarrow> nat \<Rightarrow> nat option" where
  "next_pow2_from 0 p n = None"
| "next_pow2_from (Suc i) p n = (if n \<le> p then Some p else next_pow2_from i (2 * p) n)"

lemma next_pow2_from_numeral [simp]:
  "next_pow2_from (numeral k) p n = (if n \<le> p then Some p else next_pow2_from (pred_numeral k) (2 * p) n)"
  by (simp add: numeral_eq_Suc)

text \<open>\<open>u64::checked_next_power_of_two\<close>: the powers \<open>2 ^ 0\<close> to \<open>2 ^ 63\<close> are tried in turn.\<close>

definition checked_next_power_of_two :: "nat \<Rightarrow> nat option" where
  "checked_next_power_of_two n = next_pow2_from 64 1 n"

fun trailing_zeros_from :: "nat \<Rightarrow> nat \<Rightarrow> nat" where
  "trailing_zeros_from 0 n = 0"
| "trailing_zeros_from (Suc i) n = (if odd n then 0 else Suc (trailing_zeros_from i (n div 2)))"

definition trailing_zeros :: "nat \<Rightarrow> nat" where
  "trailing_zeros n = trailing_zeros_from 64 n"

section \<open>Eras\<close>

datatype Era = Immortal | Mortal nat nat

definition mortal :: "nat \<Rightarrow> nat \<Rightarrow> Era" where
  "mortal period0 current =
     (let period = min (max (case checked_next_power_of_two period0 of Some p \<Rightarrow> p | None \<Rightarrow> 2 ^ 16) 4) (2 ^ 16);
          phase = current mod period;
          quantize_factor = max (period div 2 ^ 12) 1;
          quantized_phase = phase div quantize_factor * quantize_factor
      in Mortal period quantized_phase)"

fun birth :: "Era \<Rightarrow> nat \<Rightarrow> nat" where
  "birth Immortal current = 0"
| "birth (Mortal period phase) current = (max current phase - phase) div period * period + phase"

text \<open>The addition in \<open>death\<close> is the plain 64-bit one.\<close>

fun death :: "Era \<Rightarrow> nat \<Rightarrow> nat" where
  "death Immortal current = u_max 64"
| "death (Mortal period phase) current = wrapping_add 64 (birth (Mortal period phase) current) period"

definition era_encode :: "Era \<Rightarrow> nat list" where
  "era_encode e =
     (case e of
        Immortal \<Rightarrow> [0]
      | Mortal period phase \<Rightarrow>
          let quantize_factor = max (period div 2 ^ 12) 1;
              low = min (max (wrapping_sub 32 (trailing_zeros period) 1) 1) 15;
              high = wrap 16 (wrap 64 ((phase div quantize_factor) * 16));
              encoded = wrap 16 low OR high
          in [encoded mod 256, encoded div 256])"

datatype decode_error = NotEnoughData | InvalidPeriodAndPhase

text \<open>Decoding reads from the front of the input and returns what is left of it.\<close>

fun era_decode :: "nat list \<Rightarrow> (Era \<times> nat list, decode_error) result" where
  "era_decode [] = Err NotEnoughData"
| "era_decode (first # rest) =
     (if first = 0 then Ok (Immortal, rest)
      else case rest of
        [] \<Rightarrow> Err NotEnoughData
      | second # rest' \<Rightarrow>
          let encoded = first + second * 256;
              period = 2 * 2 ^ (encoded mod 16);
              quantize_factor = max (period div 2 ^ 12) 1;
              phase = (encoded div 16) * quantize_factor
          in if 4 \<le> period \<and> phase < period then Ok (Mortal period phase, rest')
             else Err InvalidPeriodAndPhase)"

section \<open>Well-formed eras\<close>

text \<open>
  The eras the type is meant to hold: a power of two between 4 and 65536, and a phase below it
  that is a multiple of the quantisation factor.
\<close>

definition era_wf :: "Era \<Rightarrow> bool" where
  "era_wf e =
     (case e of
        Immortal \<Rightarrow> True
      | Mortal period phase \<Rightarrow>
          list_ex (\<lambda>k. period = 2 ^ k) [2..<17] \<and> phase < period \<and>
          phase mod (max (period div 2 ^ 12) 1) = 0)"

lemma era_wf_Mortal:
  "era_wf (Mortal period phase) \<longleftrightarrow>
     (\<exists>k. 2 \<le> k \<and> k \<le> 16 \<and> period = 2 ^ k) \<and> phase < period \<and> phase mod (max (period div 2 ^ 12) 1) = 0"
proof -
  have "list_ex (\<lambda>k. period = 2 ^ k) [2..<17] \<longleftrightarrow> (\<exists>k. 2 \<le> k \<and> k \<le> 16 \<and> period = 2 ^ k)"
    by (auto simp only: list_ex_iff set_upt atLeastLessThan_iff less_Suc_eq_le [of _ 16, simplified])
  then show ?thesis by (simp only: era_wf_def Era.case)
qed

lemma next_pow2_from_Some:
  "next_pow2_from i p n = Some r \<Longrightarrow> \<exists>k < i. r = p * 2 ^ k \<and> n \<le> r"
proof (induction i arbitrary: p)
  case (Suc i)
  show ?case
  proof (cases "n \<le> p")
    case False
    with Suc obtain k where "k < i" "r = 2 * p * 2 ^ k" "n \<le> r" by auto
    then show ?thesis by (intro exI [of _ "Suc k"]) simp
  qed (use Suc.prems in auto)
qed simp

lemma checked_next_power_of_two_Some:
  "checked_next_power_of_two n = Some r \<Longrightarrow> \<exists>k < 64. r = 2 ^ k \<and> n \<le> r"
  unfolding checked_next_power_of_two_def by (drule next_pow2_from_Some) auto

lemma clamp_pow2:
  "\<exists>j. 2 \<le> j \<and> j \<le> 16 \<and> min (max (2 ^ k) 4) (2 ^ 16) = (2 ^ j :: nat)"
proof -
  consider "k < 2" | "2 \<le> k" "k \<le> 16" | "16 < k" by linarith
  then show ?thesis
  proof cases
    case 1
    then have "k = 0 \<or> k = 1" by linarith
    then show ?thesis by (intro exI [of _ 2]) auto
  next
    case 2
    then have "4 \<le> (2::nat) ^ k" "(2::nat) ^ k \<le> 2 ^ 16"
      using power_increasing [of 2 k "2::nat"] power_increasing [of k 16 "2::nat"] by simp_all
    with 2 show ?thesis by (intro exI [of _ k]) simp
  next
    case 3
    then have "(2::nat) ^ 16 \<le> 2 ^ k" by (intro power_increasing) auto
    then show ?thesis by (intro exI [of _ 16]) simp
  qed
qed

lemma mortal_wf: "era_wf (mortal period current)"
proof -
  define r where "r = (case checked_next_power_of_two period of Some p \<Rightarrow> p | None \<Rightarrow> 2 ^ 16)"
  have "\<exists>k. r = 2 ^ k"
  proof (cases "checked_next_power_of_two period")
    case None
    then show ?thesis by (auto simp: r_def intro!: exI [of _ 16])
  next
    case (Some p)
    then show ?thesis using checked_next_power_of_two_Some [OF Some] by (auto simp: r_def)
  qed
  then obtain j where j: "2 \<le> j" "j \<le> 16" "min (max r 4) (2 ^ 16) = 2 ^ j"
    using clamp_pow2 by blast
  let ?q = "max (2 ^ j div 2 ^ 12 :: nat) 1"
  have "current mod 2 ^ j div ?q * ?q \<le> current mod 2 ^ j" by simp
  also have "\<dots> < 2 ^ j" by simp
  finally have "current mod 2 ^ j div ?q * ?q < 2 ^ j" .
  then show ?thesis
    using j unfolding mortal_def r_def [symmetric] Let_def era_wf_Mortal by auto
qed

section \<open>Encoding round trip\<close>

lemma trailing_zeros_from_pow2: "k \<le> i \<Longrightarrow> trailing_zeros_from i (2 ^ k) = k"
proof (induction i arbitrary: k)
  case (Suc i)
  then show ?case by (cases k) auto
qed simp

lemma or_shift4: "low < 16 \<Longrightarrow> low OR (x * 16) = low + x * (16 :: nat)"
proof -
  assume low: "low < 16"
  have "low AND (x * 16) = 0"
  proof (rule bit_eqI)
    fix n
    have "\<not> bit low n" if "4 \<le> n"
    proof -
      have "low < 2 ^ n" using low power_increasing [OF that, of "2::nat"] by simp
      then show ?thesis by (simp add: bit_iff_odd)
    qed
    moreover have "\<not> bit (x * 16) n" if "n < 4"
    proof -
      have "x * 16 = push_bit 4 x" by (simp add: push_bit_eq_mult)
      then show ?thesis using that by (simp add: bit_push_bit_iff)
    qed
    ultimately show "bit (low AND (x * 16)) n = bit 0 n" by (cases "n < 4") (auto simp: bit_and_iff)
  qed
  then show ?thesis by (simp add: disjunctive_add_eq_or)
qed

lemma quantized_bound:
  assumes "k \<le> 16" "phase < 2 ^ k"
  shows "phase div max (2 ^ k div 2 ^ 12) 1 < (2 ^ 12 :: nat)"
proof (cases "k < 12")
  case True
  then have "(2::nat) ^ k \<le> 2 ^ 12" by (intro power_increasing) auto
  moreover have "phase div max (2 ^ k div 2 ^ 12) 1 \<le> phase" by (rule div_le_dividend)
  ultimately show ?thesis using assms by linarith
next
  case False
  then have "k = (k - 12) + 12" by simp
  then have k: "(2::nat) ^ k = 2 ^ (k - 12) * 2 ^ 12" by (metis power_add)
  then have "max (2 ^ k div 2 ^ 12) 1 = (2::nat) ^ (k - 12)" by simp
  then show ?thesis using assms(2) k by (simp add: less_mult_imp_div_less mult.commute)
qed

lemma encode_wf:
  assumes "1 \<le> j" "j \<le> 15" "phase < 2 ^ Suc j"
  defines "n \<equiv> j + phase div max (2 ^ Suc j div 2 ^ 12) 1 * 16"
  shows "era_encode (Mortal (2 ^ Suc j) phase) = [n mod 256, n div 256]"
proof -
  let ?q = "max (2 ^ Suc j div 2 ^ 12 :: nat) 1"
  have tz: "trailing_zeros (2 ^ Suc j) = Suc j"
    unfolding trailing_zeros_def using assms by (intro trailing_zeros_from_pow2) simp
  have small: "phase div ?q < 2 ^ 12" using assms by (intro quantized_bound) auto
  have "wrapping_sub 32 (Suc j) 1 = j" using assms by (subst wrapping_sub_exact) auto
  then have low: "wrap 16 (min (max (wrapping_sub 32 (trailing_zeros (2 ^ Suc j)) 1) 1) 15) = j"
    using tz assms by (simp add: wrap_def)
  have high: "wrap 16 (wrap 64 ((phase div ?q) * 16)) = (phase div ?q) * 16" using small by simp
  have "j OR (phase div ?q) * 16 = n" unfolding n_def using assms by (intro or_shift4) simp
  then show ?thesis unfolding era_encode_def Era.case Let_def low high by simp
qed

text \<open>The branch of the decoder that reads two bytes.\<close>

lemma decode_two:
  assumes "first \<noteq> 0" "n = first + second * 256" "j = n mod 16" "m = max (2 ^ Suc j div 2 ^ 12) 1"
  shows "era_decode (first # second # rest) =
    (if 4 \<le> (2::nat) ^ Suc j \<and> n div 16 * m < 2 ^ Suc j
     then Ok (Mortal (2 ^ Suc j) (n div 16 * m), rest) else Err InvalidPeriodAndPhase)"
  unfolding era_decode.simps list.case Let_def assms power_Suc using assms(1) by (simp only: if_False)

lemma decode_bytes:
  assumes "n mod 16 = j" "1 \<le> j" "m = max (2 ^ Suc j div 2 ^ 12) 1" "n div 16 * m < 2 ^ Suc j"
  shows "era_decode (n mod 256 # n div 256 # rest) = Ok (Mortal (2 ^ Suc j) (n div 16 * m), rest)"
proof -
  have sum: "n = n mod 256 + n div 256 * 256" by simp
  have nz: "n mod 256 \<noteq> 0"
  proof
    assume "n mod 256 = 0"
    then have "n mod 256 mod 16 = 0" by simp
    then have "n mod 16 = 0" by (subst (asm) mod_mod_cancel) simp_all
    with assms show False by simp
  qed
  have "4 \<le> (2::nat) ^ Suc j"
    using power_increasing [of 1 j "2::nat"] assms(2) by simp
  then show ?thesis
    using decode_two [OF nz sum assms(1) [symmetric] assms(3)] assms(4) by simp
qed

text \<open>Decoding inverts encoding on every well-formed era, and leaves what follows it in the input.\<close>

lemma era_decode_encode:
  assumes "era_wf e"
  shows "era_decode (era_encode e @ rest) = Ok (e, rest)"
proof (cases e)
  case (Mortal period phase)
  with assms obtain k where k: "2 \<le> k" "k \<le> 16" "period = 2 ^ k"
    and ph: "phase < period" "phase mod max (period div 2 ^ 12) 1 = 0" by (auto simp: era_wf_Mortal)
  define j where "j = k - 1"
  with k have j: "1 \<le> j" "j \<le> 15" "period = 2 ^ Suc j" by auto
  let ?q = "max (2 ^ Suc j div 2 ^ 12 :: nat) 1"
  let ?n = "j + phase div ?q * 16"
  have n: "?n mod 16 = j" "?n div 16 = phase div ?q" using j by simp_all
  have "phase div ?q * ?q = phase" using div_mult_mod_eq [of phase ?q] ph(2) unfolding j(3) by linarith
  then have "era_decode (?n mod 256 # ?n div 256 # rest) = Ok (Mortal (2 ^ Suc j) phase, rest)"
    using decode_bytes [OF n(1) j(1) refl, of rest] ph(1) n(2) unfolding j(3) by (simp only:)
  then show ?thesis
    using encode_wf [OF j(1,2), of phase] ph(1) unfolding Mortal j(3) by (simp only: append_Cons append_Nil)
qed (simp add: era_encode_def)

text \<open>Whatever bytes decode to an era are exactly the encoding of that era followed by the input left.\<close>

lemma era_decode_canonical:
  assumes "era_decode bs = Ok (e, rest)" "\<forall>b \<in> set bs. b < 256"
  shows "era_wf e \<and> bs = era_encode e @ rest"
proof (cases bs)
  case (Cons first more)
  show ?thesis
  proof (cases "first = 0")
    case False
    then obtain second more' where more: "more = second # more'"
      using assms(1) Cons by (cases more) simp_all
    define n where "n = first + second * 256"
    define j where "j = n mod 16"
    define m where "m = max (2 ^ Suc j div 2 ^ 12 :: nat) 1"
    note dec = decode_two [OF False n_def j_def m_def, of more', folded more Cons]
    have four: "4 \<le> (2::nat) ^ Suc j" and ph: "n div 16 * m < 2 ^ Suc j"
      and e: "e = Mortal (2 ^ Suc j) (n div 16 * m)" and rest: "more' = rest"
      using assms(1) unfolding dec by (simp_all split: if_splits)
    have j: "1 \<le> j" using four by (cases j) auto
    have j15: "j \<le> 15" by (simp add: j_def)
    have "first < 256" using assms(2) Cons by simp
    then have bytes: "n mod 256 = first" "n div 256 = second" unfolding n_def by simp_all
    have "n div 16 * m div m = n div 16" by (simp add: m_def)
    then have "j + n div 16 * m div m * 16 = n" by (simp add: j_def)
    then have "era_encode e = [first, second]"
      using encode_wf [OF j j15 ph] bytes unfolding e m_def [symmetric] by simp
    moreover have "era_wf e"
      unfolding e era_wf_Mortal m_def [symmetric] using j j15 ph by (intro conjI exI [of _ "Suc j"]) simp_all
    ultimately show ?thesis using Cons more rest by simp
  qed (use assms Cons in \<open>simp add: era_wf_def era_encode_def\<close>)
qed (use assms in simp)

text \<open>
  C17. The codec of eras is canonical: bytes decode to an era exactly if that era is well-formed and the
  bytes are its encoding, followed by the input that is left. So decoding inverts encoding, and no two
  inputs decode to the same era.
\<close>

theorem era_codec:
  assumes "\<forall>b \<in> set bs. b < 256"
  shows "era_decode bs = Ok (e, rest) \<longleftrightarrow> era_wf e \<and> bs = era_encode e @ rest"
  using assms era_decode_encode era_decode_canonical by blast

theorem era_codec_witness:
  "mortal 100000 7777 = Mortal 65536 7776 \<and> era_wf (Mortal 64 49) \<and> era_encode (Mortal 64 49) = [21, 3] \<and>
   era_decode [21, 3, 9] = Ok (Mortal 64 49, [9])"
proof -
  have "era_decode [21, 3, 9] = Ok (Mortal 64 49, [9])" by simp
  moreover have "mortal 100000 7777 = Mortal 65536 7776" by (simp add: mortal_def checked_next_power_of_two_def)
  ultimately show ?thesis using era_codec [of "[21, 3, 9]" "Mortal 64 49" "[9]"] by simp
qed

section \<open>Birth and death\<close>



end
