(* ===== verification/System_Module.thy ===== *)
theory System_Module
  imports Runtime_Types Per_Things Era
begin

text \<open>
  The system module, \<open>frame/system/src/lib.rs\<close>: accounts with nonce and reference count, the
  event record of a block, block initialisation and finalisation, and the signed extensions that
  check weight, length, nonce and mortality. The module is generic in the account id and in the
  account data; the default of the latter is the argument \<open>d\<close> of the operations that need it. As
  in the node's runtime, \<open>OnNewAccount\<close> and \<open>OnKilledAccount\<close> do nothing. The block number and
  the transaction index are 32-bit integers, as in the node's primitives.
\<close>

section \<open>State\<close>

record 'data AccountInfo =
  nonce :: nat
  refcount :: nat
  data :: 'data

record ('acc, 'data) sys =
  Account :: "'acc \<rightharpoonup> 'data AccountInfo"
  ExtrinsicCount :: "nat option"
  AllExtrinsicsWeight :: "nat option"
  AllExtrinsicsLen :: "nat option"
  BlockHash :: "nat \<rightharpoonup> hash"
  ExtrinsicData :: "nat \<rightharpoonup> 8 word list"
  Number :: nat
  ParentHash :: hash
  ExtrinsicsRoot :: hash
  Digest :: "DigestItem list"
  Events :: "'acc EventRecord list"
  EventCount :: nat
  EventTopics :: "hash \<rightharpoonup> (nat \<times> nat) list"
  ExtrinsicIndex :: "nat option"

text \<open>The constants of the module's configuration trait.\<close>

record system_trait =
  BlockHashCount :: nat
  MaximumBlockWeight :: nat
  MaximumBlockLength :: nat
  AvailableBlockRatio :: nat

definition unwrap_or_default :: "nat option \<Rightarrow> nat" where
  "unwrap_or_default x = (case x of None \<Rightarrow> 0 | Some n \<Rightarrow> n)"

section \<open>Events\<close>

definition extrinsic_index :: "('acc, 'data, 'z) sys_scheme \<Rightarrow> nat option" where
  "extrinsic_index s = ExtrinsicIndex s"

text \<open>
  Appending to \<open>Events\<close> and \<open>EventTopics\<close> fails only on undecodable storage, which the typed state
  excludes; the early return at a full event counter is kept.
\<close>

definition deposit_event_indexed ::
  "hash list \<Rightarrow> 'acc RuntimeEvent \<Rightarrow> ('acc, 'data, 'z) sys_scheme \<Rightarrow> ('acc, 'data, 'z) sys_scheme" where
  "deposit_event_indexed tps ev s =
     (let ph = (case extrinsic_index s of None \<Rightarrow> Finalization | Some c \<Rightarrow> ApplyExtrinsic c);
          rec = \<lparr>phase = ph, event = ev, topics = tps\<rparr>;
          old_event_count = EventCount s
      in case checked_add 32 old_event_count 1 of
           None \<Rightarrow> s
         | Some new_event_count \<Rightarrow>
             let s1 = s\<lparr>EventCount := new_event_count\<rparr>;
                 s2 = s1\<lparr>Events := Events s1 @ [rec]\<rparr>;
                 block_no = Number s2
             in fold (\<lambda>topic s. s\<lparr>EventTopics := (EventTopics s)(topic \<mapsto>
                    (case EventTopics s topic of None \<Rightarrow> [] | Some l \<Rightarrow> l) @ [(block_no, old_event_count)])\<rparr>)
                  tps s2)"

definition deposit_event ::
  "'acc RuntimeEvent \<Rightarrow> ('acc, 'data, 'z) sys_scheme \<Rightarrow> ('acc, 'data, 'z) sys_scheme" where
  "deposit_event ev s = deposit_event_indexed [] ev s"

section \<open>Accounts\<close>

definition default_account :: "'data \<Rightarrow> 'data AccountInfo" where
  "default_account d = \<lparr>nonce = 0, refcount = 0, data = d\<rparr>"

definition account_query :: "'data \<Rightarrow> 'data AccountInfo option \<Rightarrow> 'data AccountInfo" where
  "account_query d v = (case v of None \<Rightarrow> default_account d | Some a \<Rightarrow> a)"

definition account_get :: "'data \<Rightarrow> 'acc \<Rightarrow> ('acc, 'data, 'z) sys_scheme \<Rightarrow> 'data AccountInfo" where
  "account_get d who s = sm_get Account (account_query d) who s"

text \<open>\<open>Account::mutate\<close> with a closure that only changes the account itself.\<close>

definition account_mutate ::
  "'data \<Rightarrow> 'acc \<Rightarrow> ('data AccountInfo \<Rightarrow> 'data AccountInfo) \<Rightarrow>
   ('acc, 'data, 'z) sys_scheme \<Rightarrow> ('acc, 'data, 'z) sys_scheme" where
  "account_mutate d who f s =
     snd (sm_mutate Account Account_update (account_query d) Some who (\<lambda>a s. ((), f a, s)) s)"

definition inc_ref ::
  "'data \<Rightarrow> 'acc \<Rightarrow> ('acc, 'data, 'z) sys_scheme \<Rightarrow> ('acc, 'data, 'z) sys_scheme" where
  "inc_ref d who s = account_mutate d who (\<lambda>a. a\<lparr>refcount := saturating_add 8 (refcount a) 1\<rparr>) s"

definition dec_ref ::
  "'data \<Rightarrow> 'acc \<Rightarrow> ('acc, 'data, 'z) sys_scheme \<Rightarrow> ('acc, 'data, 'z) sys_scheme" where
  "dec_ref d who s = account_mutate d who (\<lambda>a. a\<lparr>refcount := saturating_sub (refcount a) 1\<rparr>) s"

definition refs :: "'data \<Rightarrow> 'acc \<Rightarrow> ('acc, 'data, 'z) sys_scheme \<Rightarrow> nat" where
  "refs d who s = refcount (account_get d who s)"

definition allow_death :: "'data \<Rightarrow> 'acc \<Rightarrow> ('acc, 'data, 'z) sys_scheme \<Rightarrow> bool" where
  "allow_death d who s = (refcount (account_get d who s) = 0)"

definition account_nonce :: "'data \<Rightarrow> 'acc \<Rightarrow> ('acc, 'data, 'z) sys_scheme \<Rightarrow> nat" where
  "account_nonce d who s = nonce (account_get d who s)"

definition inc_account_nonce ::
  "'data \<Rightarrow> 'acc \<Rightarrow> ('acc, 'data, 'z) sys_scheme \<Rightarrow> ('acc, 'data, 'z) sys_scheme" where
  "inc_account_nonce d who s = account_mutate d who (\<lambda>a. a\<lparr>nonce := wrapping_add 32 (nonce a) 1\<rparr>) s"

definition on_created_account ::
  "'acc \<Rightarrow> ('acc, 'data, 'z) sys_scheme \<Rightarrow> ('acc, 'data, 'z) sys_scheme" where
  "on_created_account who s = deposit_event (Event_System (NewAccount who)) s"

definition on_killed_account ::
  "'acc \<Rightarrow> ('acc, 'data, 'z) sys_scheme \<Rightarrow> ('acc, 'data, 'z) sys_scheme" where
  "on_killed_account who s = deposit_event (Event_System (KilledAccount who)) s"

definition kill_account ::
  "'data \<Rightarrow> 'acc \<Rightarrow> ('acc, 'data, 'z) sys_scheme \<Rightarrow> ('acc, 'data, 'z) sys_scheme" where
  "kill_account d who s =
     (if sm_contains_key Account who s
      then (case sm_take Account Account_update (account_query d) who s of
              (account, s1) \<Rightarrow> on_killed_account who s1)
      else s)"

definition suicide ::
  "'data \<Rightarrow> 'acc Origin \<Rightarrow> ('acc, 'data, 'z) sys_scheme \<Rightarrow>
   (unit, DispatchError) result \<times> ('acc, 'data, 'z) sys_scheme" where
  "suicide d origin s =
     (case ensure_signed origin of
        Inl e \<Rightarrow> (Err e, s)
      | Inr who \<Rightarrow>
          let account = account_get d who s in
          if refcount account \<noteq> 0 then (Err (Module_System NonZeroRefCount), s)
          else if data account \<noteq> d then (Err (Module_System NonDefaultComposite), s)
          else (Ok (), sm_remove Account_update who s))"

subsection \<open>The module as a StoredMap\<close>

definition split_inner :: "'t option \<Rightarrow> ('t \<Rightarrow> 'r \<times> 's) \<Rightarrow> 'r option \<times> 's option" where
  "split_inner opt splitter =
     (case opt of
        Some inner \<Rightarrow> (case splitter inner of (r, s) \<Rightarrow> (Some r, Some s))
      | None \<Rightarrow> (None, None))"

definition stored_get :: "'data \<Rightarrow> 'acc \<Rightarrow> ('acc, 'data, 'z) sys_scheme \<Rightarrow> 'data" where
  "stored_get d k s = data (account_get d k s)"

definition stored_is_explicit :: "'acc \<Rightarrow> ('acc, 'data, 'z) sys_scheme \<Rightarrow> bool" where
  "stored_is_explicit k s = sm_contains_key Account k s"

definition stored_insert ::
  "'data \<Rightarrow> 'acc \<Rightarrow> 'data \<Rightarrow> ('acc, 'data, 'z) sys_scheme \<Rightarrow> ('acc, 'data, 'z) sys_scheme" where
  "stored_insert d k dat s =
     (let existed = sm_contains_key Account k s;
          s1 = account_mutate d k (\<lambda>a. a\<lparr>data := dat\<rparr>) s
      in if \<not> existed then on_created_account k s1 else s1)"

definition stored_remove ::
  "'data \<Rightarrow> 'acc \<Rightarrow> ('acc, 'data, 'z) sys_scheme \<Rightarrow> ('acc, 'data, 'z) sys_scheme" where
  "stored_remove d k s = kill_account d k s"

definition stored_mutate ::
  "'data \<Rightarrow> 'acc \<Rightarrow> ('data \<Rightarrow> ('acc, 'data, 'z) sys_scheme \<Rightarrow> 'r \<times> 'data \<times> ('acc, 'data, 'z) sys_scheme) \<Rightarrow>
   ('acc, 'data, 'z) sys_scheme \<Rightarrow> 'r \<times> ('acc, 'data, 'z) sys_scheme" where
  "stored_mutate d k f s =
     (let existed = sm_contains_key Account k s in
      case sm_mutate Account Account_update (account_query d) Some k
             (\<lambda>a s. case f (data a) s of (r, dat, s1) \<Rightarrow> (r, a\<lparr>data := dat\<rparr>, s1)) s of
        (r, s1) \<Rightarrow> (r, if \<not> existed then on_created_account k s1 else s1))"

definition stored_try_mutate_exists ::
  "'acc \<Rightarrow>
   ('data option \<Rightarrow> ('acc, 'data, 'z) sys_scheme \<Rightarrow>
      ('r, 'e) result \<times> 'data option \<times> ('acc, 'data, 'z) sys_scheme) \<Rightarrow>
   ('acc, 'data, 'z) sys_scheme \<Rightarrow> ('r, 'e) result \<times> ('acc, 'data, 'z) sys_scheme" where
  "stored_try_mutate_exists k f s =
     (case sm_try_mutate_exists Account Account_update k
             (\<lambda>maybe_value s.
                let existed = maybe_value \<noteq> None in
                case split_inner maybe_value (\<lambda>account. ((nonce account, refcount account), data account)) of
                  (maybe_prefix, maybe_data) \<Rightarrow>
                    (case f maybe_data s of
                       (Inl e, _, s1) \<Rightarrow> (Err e, None, s1)
                     | (Inr result, maybe_data', s1) \<Rightarrow>
                         let value' = map_option (\<lambda>dat.
                               case (case maybe_prefix of None \<Rightarrow> (0, 0) | Some p \<Rightarrow> p) of
                                 (n, r) \<Rightarrow> \<lparr>nonce = n, refcount = r, data = dat\<rparr>) maybe_data'
                         in (Ok (existed, value' \<noteq> None, result), value', s1))) s of
        (Inl e, s1) \<Rightarrow> (Err e, s1)
      | (Inr (existed, exists, v), s1) \<Rightarrow>
          (Ok v, if \<not> existed \<and> exists then on_created_account k s1
                 else if existed \<and> \<not> exists then on_killed_account k s1 else s1))"

text \<open>An infallible closure: the error branch of \<open>expect("Infallible; qed")\<close> has no value to take.\<close>

definition stored_mutate_exists ::
  "'acc \<Rightarrow> ('data option \<Rightarrow> ('acc, 'data, 'z) sys_scheme \<Rightarrow> 'r \<times> 'data option \<times> ('acc, 'data, 'z) sys_scheme) \<Rightarrow>
   ('acc, 'data, 'z) sys_scheme \<Rightarrow> 'r option \<times> ('acc, 'data, 'z) sys_scheme" where
  "stored_mutate_exists k f s =
     (case stored_try_mutate_exists k (\<lambda>x s. case f x s of (r, x', s1) \<Rightarrow> (Inr r :: ('r, unit) result, x', s1)) s of
        (r, s1) \<Rightarrow> (case r of Inl _ \<Rightarrow> None | Inr v \<Rightarrow> Some v, s1))"

definition system_is_dead_account :: "'acc \<Rightarrow> ('acc, 'data, 'z) sys_scheme \<Rightarrow> bool" where
  "system_is_dead_account who s = (\<not> sm_contains_key Account who s)"

section \<open>Block execution\<close>

definition extrinsic_count :: "('acc, 'data, 'z) sys_scheme \<Rightarrow> nat" where
  "extrinsic_count s = unwrap_or_default (ExtrinsicCount s)"

definition all_extrinsics_weight :: "('acc, 'data, 'z) sys_scheme \<Rightarrow> nat" where
  "all_extrinsics_weight s = unwrap_or_default (AllExtrinsicsWeight s)"

definition all_extrinsics_len :: "('acc, 'data, 'z) sys_scheme \<Rightarrow> nat" where
  "all_extrinsics_len s = unwrap_or_default (AllExtrinsicsLen s)"

definition register_extra_weight_unchecked ::
  "system_trait \<Rightarrow> nat \<Rightarrow> ('acc, 'data, 'z) sys_scheme \<Rightarrow> ('acc, 'data, 'z) sys_scheme" where
  "register_extra_weight_unchecked T w s =
     (let current_weight = unwrap_or_default (AllExtrinsicsWeight s);
          next_weight = min (saturating_add 32 current_weight w) (MaximumBlockWeight T)
      in s\<lparr>AllExtrinsicsWeight := Some next_weight\<rparr>)"

datatype InitKind = Inspection | Full

definition initialize ::
  "nat \<Rightarrow> hash \<Rightarrow> hash \<Rightarrow> DigestItem list \<Rightarrow> InitKind \<Rightarrow>
   ('acc, 'data, 'z) sys_scheme \<Rightarrow> ('acc, 'data, 'z) sys_scheme" where
  "initialize number parent_hash txs_root digest kind s =
     (let s1 = s\<lparr>ExtrinsicIndex := Some 0, Number := number, Digest := digest, ParentHash := parent_hash\<rparr>;
          s2 = s1\<lparr>BlockHash := (BlockHash s1)(wrapping_sub 32 number 1 \<mapsto> parent_hash), ExtrinsicsRoot := txs_root\<rparr>
      in case kind of
           Full \<Rightarrow> s2\<lparr>Events := [], EventCount := 0, EventTopics := Map.empty\<rparr>
         | Inspection \<Rightarrow> s2)"

record header =
  h_number :: nat
  h_extrinsics_root :: hash
  h_state_root :: hash
  h_parent_hash :: hash
  h_digest :: "DigestItem list"

text \<open>
  The storage root and the changes-trie root are computed by the host over the state at that
  point; they are the arguments \<open>storage_root\<close> and \<open>changes_root\<close>.
\<close>

definition finalize ::
  "system_trait \<Rightarrow> (('acc, 'data, 'z) sys_scheme \<Rightarrow> hash) \<Rightarrow> (hash \<Rightarrow> ('acc, 'data, 'z) sys_scheme \<Rightarrow> hash option) \<Rightarrow>
   ('acc, 'data, 'z) sys_scheme \<Rightarrow> header \<times> ('acc, 'data, 'z) sys_scheme" where
  "finalize T storage_root changes_root s =
     (let number = Number s;
          parent_hash = ParentHash s;
          digest = Digest s;
          extrinsics_root = ExtrinsicsRoot s;
          s1 = s\<lparr>ExtrinsicCount := None, AllExtrinsicsWeight := None, AllExtrinsicsLen := None,
                 Number := 0, ParentHash := 0, Digest := [], ExtrinsicsRoot := 0\<rparr>;
          block_hash_count = BlockHashCount T;
          s2 = (if number > block_hash_count
                then let to_remove = number - block_hash_count - 1
                     in if to_remove \<noteq> 0 then s1\<lparr>BlockHash := (BlockHash s1)(to_remove := None)\<rparr> else s1
                else s1);
          digest' = (case changes_root parent_hash s2 of
                       Some r \<Rightarrow> digest @ [ChangesTrieRoot r]
                     | None \<Rightarrow> digest)
      in (\<lparr>h_number = number, h_extrinsics_root = extrinsics_root, h_state_root = storage_root s2,
           h_parent_hash = parent_hash, h_digest = digest'\<rparr>, s2))"

definition deposit_log ::
  "DigestItem \<Rightarrow> ('acc, 'data, 'z) sys_scheme \<Rightarrow> ('acc, 'data, 'z) sys_scheme" where
  "deposit_log item s = s\<lparr>Digest := Digest s @ [item]\<rparr>"

definition note_extrinsic ::
  "8 word list \<Rightarrow> ('acc, 'data, 'z) sys_scheme \<Rightarrow> ('acc, 'data, 'z) sys_scheme" where
  "note_extrinsic encoded_xt s =
     s\<lparr>ExtrinsicData := (ExtrinsicData s)(unwrap_or_default (extrinsic_index s) \<mapsto> encoded_xt)\<rparr>"

definition note_applied_extrinsic ::
  "(unit, DispatchError) result \<Rightarrow> DispatchInfo \<Rightarrow>
   ('acc, 'data, 'z) sys_scheme \<Rightarrow> ('acc, 'data, 'z) sys_scheme" where
  "note_applied_extrinsic r info s =
     (let s1 = deposit_event (Event_System
                 (case r of Inr _ \<Rightarrow> ExtrinsicSuccess info | Inl err \<Rightarrow> ExtrinsicFailed err info)) s;
          next_extrinsic_index = wrapping_add 32 (unwrap_or_default (extrinsic_index s1)) 1
      in s1\<lparr>ExtrinsicIndex := Some next_extrinsic_index\<rparr>)"

definition note_finished_extrinsics ::
  "('acc, 'data, 'z) sys_scheme \<Rightarrow> ('acc, 'data, 'z) sys_scheme" where
  "note_finished_extrinsics s =
     (let idx = unwrap_or_default (ExtrinsicIndex s)
      in s\<lparr>ExtrinsicIndex := None, ExtrinsicCount := Some idx\<rparr>)"

text \<open>The trie root over the collected extrinsics is the argument \<open>extrinsics_data_root\<close>.\<close>

definition derive_extrinsics ::
  "(8 word list list \<Rightarrow> hash) \<Rightarrow> ('acc, 'data, 'z) sys_scheme \<Rightarrow> ('acc, 'data, 'z) sys_scheme" where
  "derive_extrinsics extrinsics_data_root s =
     (let idxs = [0..<unwrap_or_default (ExtrinsicCount s)];
          extrinsics = map (\<lambda>i. case ExtrinsicData s i of None \<Rightarrow> [] | Some x \<Rightarrow> x) idxs
      in s\<lparr>ExtrinsicData := fold (\<lambda>i m. m(i := None)) idxs (ExtrinsicData s),
           ExtrinsicsRoot := extrinsics_data_root extrinsics\<rparr>)"

section \<open>Signed extensions\<close>

datatype InvalidTransaction =
    Call
  | Payment
  | Future
  | Stale
  | BadProof
  | AncientBirthBlock
  | ExhaustsResources
  | Custom "8 word"

text \<open>Tags are the encodings of an account and a nonce; here they are that pair.\<close>

record 'acc ValidTransaction =
  vt_priority :: nat
  vt_requires :: "('acc \<times> nat) list"
  vt_provides :: "('acc \<times> nat) list"
  vt_longevity :: nat
  vt_propagate :: bool

definition default_valid_transaction :: "'acc ValidTransaction" where
  "default_valid_transaction =
     \<lparr>vt_priority = 0, vt_requires = [], vt_provides = [], vt_longevity = u_max 64, vt_propagate = True\<rparr>"

subsection \<open>CheckWeight\<close>

definition get_dispatch_limit_ratio :: "system_trait \<Rightarrow> DispatchClass \<Rightarrow> nat" where
  "get_dispatch_limit_ratio T cls =
     (case cls of Operational \<Rightarrow> pt_one Perbill | Normal \<Rightarrow> AvailableBlockRatio T)"

definition check_weight ::
  "system_trait \<Rightarrow> DispatchInfo \<Rightarrow> ('acc, 'data, 'z) sys_scheme \<Rightarrow> (nat, InvalidTransaction) result" where
  "check_weight T info s =
     (let current_weight = all_extrinsics_weight s;
          maximum_weight = MaximumBlockWeight T;
          limit = pt_mul Perbill 32 (get_dispatch_limit_ratio T (dispatch_class info)) maximum_weight;
          added_weight = min (weight info) limit;
          next_weight = saturating_add 32 current_weight added_weight
      in if next_weight > limit then Err ExhaustsResources else Ok next_weight)"

definition check_block_length ::
  "system_trait \<Rightarrow> DispatchInfo \<Rightarrow> nat \<Rightarrow> ('acc, 'data, 'z) sys_scheme \<Rightarrow> (nat, InvalidTransaction) result" where
  "check_block_length T info len s =
     (let current_len = all_extrinsics_len s;
          maximum_len = MaximumBlockLength T;
          limit = pt_mul Perbill 32 (get_dispatch_limit_ratio T (dispatch_class info)) maximum_len;
          added_len = wrap 32 len;
          next_len = saturating_add 32 current_len added_len
      in if next_len > limit then Err ExhaustsResources else Ok next_len)"

definition get_priority :: "DispatchInfo \<Rightarrow> nat" where
  "get_priority info = (case dispatch_class info of Normal \<Rightarrow> weight info | Operational \<Rightarrow> u_max 64)"

definition do_pre_dispatch ::
  "system_trait \<Rightarrow> DispatchInfo \<Rightarrow> nat \<Rightarrow> ('acc, 'data, 'z) sys_scheme \<Rightarrow>
   (unit, InvalidTransaction) result \<times> ('acc, 'data, 'z) sys_scheme" where
  "do_pre_dispatch T info len s =
     (case check_block_length T info len s of
        Inl e \<Rightarrow> (Err e, s)
      | Inr next_len \<Rightarrow>
          (case check_weight T info s of
             Inl e \<Rightarrow> (Err e, s)
           | Inr next_weight \<Rightarrow>
               (Ok (), s\<lparr>AllExtrinsicsLen := Some next_len, AllExtrinsicsWeight := Some next_weight\<rparr>)))"

definition do_validate ::
  "system_trait \<Rightarrow> DispatchInfo \<Rightarrow> nat \<Rightarrow> ('acc, 'data, 'z) sys_scheme \<Rightarrow>
   ('acc ValidTransaction, InvalidTransaction) result" where
  "do_validate T info len s =
     and_then (check_block_length T info len s) (\<lambda>_.
     and_then (check_weight T info s) (\<lambda>_.
     Ok (default_valid_transaction\<lparr>vt_priority := get_priority info\<rparr>)))"

subsection \<open>CheckNonce\<close>

definition nonce_pre_dispatch ::
  "'data \<Rightarrow> nat \<Rightarrow> 'acc \<Rightarrow> ('acc, 'data, 'z) sys_scheme \<Rightarrow>
   (unit, InvalidTransaction) result \<times> ('acc, 'data, 'z) sys_scheme" where
  "nonce_pre_dispatch d n who s =
     (let account = account_get d who s in
      if n \<noteq> nonce account
      then (Err (if n < nonce account then Stale else Future), s)
      else (Ok (), sm_insert Account_update who (account\<lparr>nonce := wrapping_add 32 (nonce account) 1\<rparr>) s))"

definition nonce_validate ::
  "'data \<Rightarrow> nat \<Rightarrow> 'acc \<Rightarrow> DispatchInfo \<Rightarrow> ('acc, 'data, 'z) sys_scheme \<Rightarrow>
   ('acc ValidTransaction, InvalidTransaction) result" where
  "nonce_validate d n who info s =
     (let account = account_get d who s in
      if n < nonce account then Err Stale
      else Ok \<lparr>vt_priority = weight info,
               vt_requires = (if nonce account < n then [(who, n - 1)] else []),
               vt_provides = [(who, n)],
               vt_longevity = u_max 64,
               vt_propagate = True\<rparr>)"

subsection \<open>CheckEra\<close>

definition era_validate :: "Era \<Rightarrow> ('acc, 'data, 'z) sys_scheme \<Rightarrow> 'acc ValidTransaction" where
  "era_validate era s =
     (let current_u64 = Number s;
          valid_till = death era current_u64
      in default_valid_transaction\<lparr>vt_longevity := saturating_sub valid_till current_u64\<rparr>)"

text \<open>\<open>saturated_into\<close> clamps the birth to the 32-bit block number.\<close>

definition era_additional_signed ::
  "Era \<Rightarrow> ('acc, 'data, 'z) sys_scheme \<Rightarrow> (hash, InvalidTransaction) result" where
  "era_additional_signed era s =
     (let n = min (birth era (Number s)) (u_max 32)
      in case BlockHash s n of None \<Rightarrow> Err AncientBirthBlock | Some h \<Rightarrow> Ok h)"

section \<open>What the operations leave alone\<close>

interpretation acct: storage_item Account Account_update
  by unfold_locales auto

lemma store_account: "sm_store Account_update k v s = s\<lparr>Account := (Account s)(k := v)\<rparr>"
  by (cases s) (simp add: sm_store_def)

lemma fold_topics_frame:
  "Account (fold (\<lambda>topic s. s\<lparr>EventTopics := F topic s\<rparr>) ts s) = Account s"
  "Number (fold (\<lambda>topic s. s\<lparr>EventTopics := F topic s\<rparr>) ts s) = Number s"
  "sys.more (fold (\<lambda>topic s. s\<lparr>EventTopics := F topic s\<rparr>) ts s) = sys.more s"
  by (induction ts arbitrary: s) simp_all

lemma deposit_event_frame [simp, frame_simps]:
  "Account (deposit_event ev s) = Account s"
  "Number (deposit_event ev s) = Number s"
  "sys.more (deposit_event ev s) = sys.more s"
  "AllExtrinsicsWeight (deposit_event ev s) = AllExtrinsicsWeight s"
  "AllExtrinsicsLen (deposit_event ev s) = AllExtrinsicsLen s"
  "BlockHash (deposit_event ev s) = BlockHash s"
  by (auto simp: deposit_event_def deposit_event_indexed_def Let_def split: option.splits)

lemma created_killed_frame [simp, frame_simps]:
  "Account (on_created_account who s) = Account s"
  "Account (on_killed_account who s) = Account s"
  "sys.more (on_created_account who s) = sys.more s"
  "sys.more (on_killed_account who s) = sys.more s"
  "Number (on_created_account who s) = Number s"
  "Number (on_killed_account who s) = Number s"
  by (simp_all add: on_created_account_def on_killed_account_def)

section \<open>The contract of StoredMap\<close>

text \<open>
  What a client of \<open>StoredMap\<close> relies on: the map it reads, and that \<open>try_mutate_exists\<close> hands the
  closure the stored value, writes the closure's result over whatever the closure did to the rest
  of the state, and leaves the state as the closure left it on an error.
\<close>

locale stored_map =
  fixes stored :: "'s \<Rightarrow> 'k \<rightharpoonup> 'd"
    and get :: "'k \<Rightarrow> 's \<Rightarrow> 'd"
    and is_explicit :: "'k \<Rightarrow> 's \<Rightarrow> bool"
    and try_mutate_exists ::
      "'k \<Rightarrow> ('d option \<Rightarrow> 's \<Rightarrow> ('r, 'e) result \<times> 'd option \<times> 's) \<Rightarrow> 's \<Rightarrow> ('r, 'e) result \<times> 's"
    and dflt :: 'd
  assumes get_law: "get k s = (case stored s k of None \<Rightarrow> dflt | Some x \<Rightarrow> x)"
    and explicit_law: "is_explicit k s \<longleftrightarrow> stored s k \<noteq> None"
    and try_err: "f (stored s k) s = (Inl e, v, s1) \<Longrightarrow> try_mutate_exists k f s = (Inl e, s1)"
    and try_ok: "f (stored s k) s = (Inr r, v, s1) \<Longrightarrow>
          \<exists>s2. try_mutate_exists k f s = (Inr r, s2) \<and> stored s2 = (stored s1)(k := v)"
begin

text \<open>A closure that does not touch other entries: only the entry at the key can change.\<close>

lemma try_frame:
  assumes "try_mutate_exists k f s = (res, s2)" "j \<noteq> k"
    and "\<And>v r s1. f (stored s k) s = (r, v, s1) \<Longrightarrow> stored s1 j = stored s j"
  shows "stored s2 j = stored s j"
proof -
  obtain r v s1 where f: "f (stored s k) s = (r, v, s1)" by (cases "f (stored s k) s") auto
  show ?thesis
  proof (cases r)
    case (Inl e)
    then show ?thesis using try_err f assms(1) assms(3) [OF f] by simp
  next
    case (Inr x)
    then show ?thesis using try_ok f assms(1,2) assms(3) [OF f] by fastforce
  qed
qed

lemma get_after:
  assumes "f (stored s k) s = (Inr r, v, s1)" "try_mutate_exists k f s = (res, s2)"
  shows "res = Inr r" "get k s2 = (case v of None \<Rightarrow> dflt | Some x \<Rightarrow> x)"
    "is_explicit k s2 \<longleftrightarrow> v \<noteq> None"
  using try_ok [where f = f, OF assms(1)] assms(2) by (auto simp: get_law explicit_law)

end

definition stored_data :: "('acc, 'data, 'z) sys_scheme \<Rightarrow> 'acc \<rightharpoonup> 'data" where
  "stored_data s k = map_option data (Account s k)"

text \<open>The prefix of an entry, kept by a mutation of the data and zero for a new entry.\<close>

definition with_prefix :: "'data AccountInfo option \<Rightarrow> 'data \<Rightarrow> 'data AccountInfo" where
  "with_prefix old dat =
     (case old of
        None \<Rightarrow> \<lparr>nonce = 0, refcount = 0, data = dat\<rparr>
      | Some a \<Rightarrow> \<lparr>nonce = nonce a, refcount = refcount a, data = dat\<rparr>)"

lemma data_with_prefix [simp]: "data (with_prefix old dat) = dat"
  by (simp add: with_prefix_def split: option.split)

text \<open>The event a mutation raises: creation, removal or none.\<close>

definition lifecycle ::
  "'acc \<Rightarrow> bool \<Rightarrow> bool \<Rightarrow> ('acc, 'data, 'z) sys_scheme \<Rightarrow> ('acc, 'data, 'z) sys_scheme" where
  "lifecycle k existed exists s =
     (if \<not> existed \<and> exists then on_created_account k s
      else if existed \<and> \<not> exists then on_killed_account k s else s)"

lemma lifecycle_frame [simp, frame_simps]:
  "Account (lifecycle k a b s) = Account s"
  "sys.more (lifecycle k a b s) = sys.more s"
  "Number (lifecycle k a b s) = Number s"
  by (simp_all add: lifecycle_def)

lemma stored_try_err:
  assumes "f (stored_data s k) s = (Inl e, v, s1)"
  shows "stored_try_mutate_exists k f s = (Inl e, s1)"
  using assms
  by (auto simp: stored_try_mutate_exists_def sm_try_mutate_exists_def split_inner_def stored_data_def
      Let_def split: option.splits)

lemma stored_try_ok:
  assumes "f (stored_data s k) s = (Inr r, v, s1)"
  shows "stored_try_mutate_exists k f s =
    (Inr r, lifecycle k (Account s k \<noteq> None) (v \<noteq> None)
       (s1\<lparr>Account := (Account s1)(k := map_option (with_prefix (Account s k)) v)\<rparr>))"
  using assms
  by (cases "Account s k"; cases v)
     (simp_all add: stored_try_mutate_exists_def sm_try_mutate_exists_def split_inner_def stored_data_def
      sm_insert_def sm_remove_def store_account with_prefix_def lifecycle_def Let_def)

lemma stored_get_law: "stored_get d k s = (case stored_data s k of None \<Rightarrow> d | Some x \<Rightarrow> x)"
  by (simp add: stored_get_def account_get_def sm_get_def account_query_def default_account_def
      stored_data_def split: option.split)

lemma stored_explicit_law: "stored_is_explicit k s \<longleftrightarrow> stored_data s k \<noteq> None"
  by (simp add: stored_is_explicit_def sm_contains_key_def stored_data_def split: option.split)

lemma stored_data_write:
  "stored_data (lifecycle k a b (s\<lparr>Account := (Account s)(k := map_option (with_prefix old) v)\<rparr>)) =
     (stored_data s)(k := v)"
  by (auto simp: stored_data_def fun_eq_iff option.map_comp o_def option.map_ident)

interpretation sysmap: stored_map stored_data "stored_get d" stored_is_explicit stored_try_mutate_exists d
  for d
  by unfold_locales
     (rule stored_get_law stored_explicit_law stored_try_err, assumption?
      | drule stored_try_ok, simp add: stored_data_write)+

section \<open>Replay protection\<close>

text \<open>
  C10. A nonce is good for one transaction: \<open>pre_dispatch\<close> accepts exactly the account's nonce,
  advances it and touches no other account, and the same nonce is stale from then on.
\<close>

theorem nonce_no_replay:
  assumes "nonce_pre_dispatch d n who s = (Ok u, s')" "n + 1 < 2 ^ 32"
  shows "n = account_nonce d who s \<and> account_nonce d who s' = n + 1 \<and>
    nonce_pre_dispatch d n who s' = (Err Stale, s') \<and>
    (\<forall>other. other \<noteq> who \<longrightarrow> Account s' other = Account s other)"
proof -
  have n: "n = nonce (account_get d who s)"
    and s': "s' = sm_insert Account_update who ((account_get d who s)\<lparr>nonce := wrapping_add 32 n 1\<rparr>) s"
    using assms(1) by (auto simp: nonce_pre_dispatch_def Let_def split: if_splits)
  have "wrapping_add 32 n 1 = n + 1" using assms(2) by (rule wrapping_add_exact)
  then have new: "account_get d who s' = (account_get d who s)\<lparr>nonce := n + 1\<rparr>"
    using s' acct.get_insert [of who "(account_get d who s)\<lparr>nonce := n + 1\<rparr>" s who]
    by (simp add: account_get_def sm_get_def account_query_def)
  have others: "\<forall>other. other \<noteq> who \<longrightarrow> Account s' other = Account s other"
    using s' by (simp add: acct.get_insert)
  show ?thesis using n new others by (simp add: account_nonce_def nonce_pre_dispatch_def)
qed

theorem nonce_no_replay_witness:
  "\<exists>s s' :: (nat, nat) sys. nonce_pre_dispatch 0 3 7 s = (Ok (), s') \<and> nonce_pre_dispatch 0 3 7 s' = (Err Stale, s')"
proof -
  define s :: "(nat, nat) sys" where
    "s = \<lparr>Account = [7 \<mapsto> \<lparr>nonce = 3, refcount = 0, data = 0\<rparr>], ExtrinsicCount = None,
        AllExtrinsicsWeight = None, AllExtrinsicsLen = None, BlockHash = Map.empty,
        ExtrinsicData = Map.empty, Number = 1, ParentHash = 0, ExtrinsicsRoot = 0, Digest = [],
        Events = [], EventCount = 0, EventTopics = Map.empty, ExtrinsicIndex = None\<rparr>"
  obtain s' where s': "nonce_pre_dispatch 0 3 7 s = (Ok (), s')"
    by (simp add: nonce_pre_dispatch_def account_get_def sm_get_def account_query_def s_def Let_def)
  from nonce_no_replay [OF s'] s' show ?thesis by auto
qed

section \<open>Block resource limits\<close>

definition system_trait_ok :: "system_trait \<Rightarrow> bool" where
  "system_trait_ok T \<longleftrightarrow> AvailableBlockRatio T \<le> ACCURACY Perbill \<and>
     MaximumBlockWeight T < 2 ^ 32 - 1 \<and> MaximumBlockLength T < 2 ^ 32 - 1 \<and> 0 < BlockHashCount T"

lemma limit_rounds:
  assumes "system_trait_ok T" "x < 2 ^ 32"
  shows "pt_mul Perbill 32 (get_dispatch_limit_ratio T cls) x = round_of Perbill (get_dispatch_limit_ratio T cls) x"
    and "round_of Perbill (get_dispatch_limit_ratio T cls) x \<le> x"
proof -
  have ratio: "get_dispatch_limit_ratio T cls \<le> ACCURACY Perbill"
    using assms(1) by (cases cls) (auto simp: get_dispatch_limit_ratio_def system_trait_ok_def pt_one_def)
  show "pt_mul Perbill 32 (get_dispatch_limit_ratio T cls) x = round_of Perbill (get_dispatch_limit_ratio T cls) x"
    by (rule pt_mul_exact [OF invocations_ok(3) ratio assms(2)])
  show "round_of Perbill (get_dispatch_limit_ratio T cls) x \<le> x"
    by (rule round_of_le [OF invocations_ok(3) ratio])
qed

lemma saturating_le_exact:
  assumes "saturating_add w a b \<le> l" "l < 2 ^ w - 1"
  shows "saturating_add w a b = a + b"
  using assms by (auto simp: saturating_add_def u_max_def min_def split: if_splits)

definition block_limit :: "system_trait \<Rightarrow> DispatchInfo \<Rightarrow> nat \<Rightarrow> nat" where
  "block_limit T info x = round_of Perbill (get_dispatch_limit_ratio T (dispatch_class info)) x"

lemma check_weight_ok:
  assumes T: "system_trait_ok T" and ok: "check_weight T info s = Ok w"
  shows "w = all_extrinsics_weight s + min (weight info) (block_limit T info (MaximumBlockWeight T))"
    and "w \<le> block_limit T info (MaximumBlockWeight T)"
proof -
  have max: "MaximumBlockWeight T < 2 ^ 32 - 1" using T by (simp add: system_trait_ok_def)
  then have "MaximumBlockWeight T < 2 ^ 32" by simp
  note lim = limit_rounds [OF T this, of "dispatch_class info", folded block_limit_def]
  have w: "w = saturating_add 32 (all_extrinsics_weight s) (min (weight info) (block_limit T info (MaximumBlockWeight T)))"
    and le: "w \<le> block_limit T info (MaximumBlockWeight T)"
    using ok unfolding check_weight_def Let_def lim(1) by (auto split: if_splits)
  show "w \<le> block_limit T info (MaximumBlockWeight T)" by (rule le)
  have "block_limit T info (MaximumBlockWeight T) < 2 ^ 32 - 1" using lim(2) max by (rule le_less_trans)
  then show "w = all_extrinsics_weight s + min (weight info) (block_limit T info (MaximumBlockWeight T))"
    using saturating_le_exact le w by blast
qed

lemma check_block_length_ok:
  assumes T: "system_trait_ok T" and len: "len < 2 ^ 32" and ok: "check_block_length T info len s = Ok l"
  shows "l = all_extrinsics_len s + len" and "l \<le> block_limit T info (MaximumBlockLength T)"
proof -
  have max: "MaximumBlockLength T < 2 ^ 32 - 1" using T by (simp add: system_trait_ok_def)
  then have "MaximumBlockLength T < 2 ^ 32" by simp
  note lim = limit_rounds [OF T this, of "dispatch_class info", folded block_limit_def]
  have l: "l = saturating_add 32 (all_extrinsics_len s) len"
    and le: "l \<le> block_limit T info (MaximumBlockLength T)"
    using ok unfolding check_block_length_def Let_def lim(1) wrap_exact [OF len] by (auto split: if_splits)
  show "l \<le> block_limit T info (MaximumBlockLength T)" by (rule le)
  have "block_limit T info (MaximumBlockLength T) < 2 ^ 32 - 1" using lim(2) max by (rule le_less_trans)
  then show "l = all_extrinsics_len s + len" using saturating_le_exact le l by blast
qed


text \<open>A state with nothing in it, for the examples.\<close>

definition empty_sys :: "('acc, 'data) sys" where
  "empty_sys = \<lparr>Account = Map.empty, ExtrinsicCount = None,
     AllExtrinsicsWeight = None, AllExtrinsicsLen = None, BlockHash = Map.empty,
     ExtrinsicData = Map.empty, Number = 1, ParentHash = 0, ExtrinsicsRoot = 0, Digest = [],
     Events = [], EventCount = 0, EventTopics = Map.empty, ExtrinsicIndex = None\<rparr>"

definition node_system_trait :: system_trait where
  "node_system_trait = \<lparr>BlockHashCount = 250, MaximumBlockWeight = 1000000000,
     MaximumBlockLength = 5242880, AvailableBlockRatio = 750000000\<rparr>"

lemma node_system_trait_ok: "system_trait_ok node_system_trait"
  by (simp add: system_trait_ok_def node_system_trait_def Perbill_def)


section \<open>The window of block hashes\<close>

text \<open>The numbers whose hash is kept once block \<open>n\<close> is finalised: genesis and the last \<open>c\<close> blocks.\<close>

definition hash_window :: "nat \<Rightarrow> nat \<Rightarrow> nat set" where
  "hash_window c n = insert 0 {k. k < n \<and> n \<le> k + c}"



end
