(* ===== verification/Balances.thy ===== *)
theory Balances
  imports System_Module
begin

text \<open>
  The balances module, \<open>frame/balances/src/lib.rs\<close>: account data, locks, the two imbalance types
  with their drop handlers, and the module's \<open>Currency\<close>, \<open>ReservableCurrency\<close> and
  \<open>LockableCurrency\<close> operations and dispatchable calls. The configuration is the node's: balances
  are 128-bit, \<open>AccountStore\<close> is the system module and \<open>DustRemoval\<close> drops the imbalance. The
  existential deposit is the argument \<open>ed\<close>.
\<close>

section \<open>Data\<close>

datatype Reasons = Reasons_Fee | Reasons_Misc | Reasons_All

definition reasons_from :: "WithdrawReasons \<Rightarrow> Reasons" where
  "reasons_from r =
     (if r = reason_flag TransactionPayment then Reasons_Fee
      else if reasons_contains r TransactionPayment then Reasons_All
      else Reasons_Misc)"

definition reasons_bitor :: "Reasons \<Rightarrow> Reasons \<Rightarrow> Reasons" where
  "reasons_bitor self other = (if self = other then self else Reasons_All)"

text \<open>A lock identifier is an array of eight bytes.\<close>

type_synonym LockIdentifier = "8 word list"

record BalanceLock =
  lock_id :: LockIdentifier
  lock_amount :: nat
  lock_reasons :: Reasons

record AccountData =
  free :: nat
  reserved :: nat
  misc_frozen :: nat
  fee_frozen :: nat

definition default_data :: AccountData where
  "default_data = \<lparr>free = 0, reserved = 0, misc_frozen = 0, fee_frozen = 0\<rparr>"

definition frozen :: "AccountData \<Rightarrow> Reasons \<Rightarrow> nat" where
  "frozen a reasons =
     (case reasons of
        Reasons_All \<Rightarrow> max (misc_frozen a) (fee_frozen a)
      | Reasons_Misc \<Rightarrow> misc_frozen a
      | Reasons_Fee \<Rightarrow> fee_frozen a)"

definition usable :: "AccountData \<Rightarrow> Reasons \<Rightarrow> nat" where
  "usable a reasons = saturating_sub (free a) (frozen a reasons)"

definition total :: "AccountData \<Rightarrow> nat" where
  "total a = saturating_add 128 (free a) (reserved a)"

record 'acc bal = "('acc, AccountData) sys" +
  TotalIssuance :: nat
  Locks :: "'acc \<rightharpoonup> BalanceLock list"

section \<open>Imbalances\<close>

datatype PositiveImbalance = PositiveImbalance (pos_amount: nat)

datatype NegativeImbalance = NegativeImbalance (neg_amount: nat)

definition pos_zero :: PositiveImbalance where
  "pos_zero = PositiveImbalance 0"

definition pos_drop_zero :: "PositiveImbalance \<Rightarrow> (unit, PositiveImbalance) result" where
  "pos_drop_zero self = (if pos_amount self = 0 then Ok () else Err self)"

definition pos_split :: "PositiveImbalance \<Rightarrow> nat \<Rightarrow> PositiveImbalance \<times> PositiveImbalance" where
  "pos_split self amount =
     (let first = min (pos_amount self) amount;
          second = pos_amount self - first
      in (PositiveImbalance first, PositiveImbalance second))"

definition pos_merge :: "PositiveImbalance \<Rightarrow> PositiveImbalance \<Rightarrow> PositiveImbalance" where
  "pos_merge self other = PositiveImbalance (saturating_add 128 (pos_amount self) (pos_amount other))"

definition pos_subsume :: "PositiveImbalance \<Rightarrow> PositiveImbalance \<Rightarrow> PositiveImbalance" where
  "pos_subsume self other = PositiveImbalance (saturating_add 128 (pos_amount self) (pos_amount other))"

definition pos_offset ::
  "PositiveImbalance \<Rightarrow> NegativeImbalance \<Rightarrow> (PositiveImbalance, NegativeImbalance) result" where
  "pos_offset self other =
     (let a = pos_amount self; b = neg_amount other in
      if a \<ge> b then Ok (PositiveImbalance (a - b)) else Err (NegativeImbalance (b - a)))"

definition neg_zero :: NegativeImbalance where
  "neg_zero = NegativeImbalance 0"

definition neg_drop_zero :: "NegativeImbalance \<Rightarrow> (unit, NegativeImbalance) result" where
  "neg_drop_zero self = (if neg_amount self = 0 then Ok () else Err self)"

definition neg_split :: "NegativeImbalance \<Rightarrow> nat \<Rightarrow> NegativeImbalance \<times> NegativeImbalance" where
  "neg_split self amount =
     (let first = min (neg_amount self) amount;
          second = neg_amount self - first
      in (NegativeImbalance first, NegativeImbalance second))"

definition neg_merge :: "NegativeImbalance \<Rightarrow> NegativeImbalance \<Rightarrow> NegativeImbalance" where
  "neg_merge self other = NegativeImbalance (saturating_add 128 (neg_amount self) (neg_amount other))"

definition neg_subsume :: "NegativeImbalance \<Rightarrow> NegativeImbalance \<Rightarrow> NegativeImbalance" where
  "neg_subsume self other = NegativeImbalance (saturating_add 128 (neg_amount self) (neg_amount other))"

definition neg_offset ::
  "NegativeImbalance \<Rightarrow> PositiveImbalance \<Rightarrow> (NegativeImbalance, PositiveImbalance) result" where
  "neg_offset self other =
     (let a = neg_amount self; b = pos_amount other in
      if a \<ge> b then Ok (NegativeImbalance (a - b)) else Err (PositiveImbalance (b - a)))"

text \<open>The two types as instances of the trait.\<close>

definition pos_imb :: "(PositiveImbalance, NegativeImbalance) Imbalance" where
  "pos_imb = \<lparr>imb_zero = pos_zero, imb_drop_zero = pos_drop_zero, imb_split = pos_split,
     imb_merge = pos_merge, imb_subsume = pos_subsume, imb_offset = pos_offset, imb_peek = pos_amount\<rparr>"

definition neg_imb :: "(NegativeImbalance, PositiveImbalance) Imbalance" where
  "neg_imb = \<lparr>imb_zero = neg_zero, imb_drop_zero = neg_drop_zero, imb_split = neg_split,
     imb_merge = neg_merge, imb_subsume = neg_subsume, imb_offset = neg_offset, imb_peek = neg_amount\<rparr>"

text \<open>The drop handlers, which square up the total issuance.\<close>

definition drop_positive :: "PositiveImbalance \<Rightarrow> ('acc, 'z) bal_scheme \<Rightarrow> ('acc, 'z) bal_scheme" where
  "drop_positive p s = s\<lparr>TotalIssuance := saturating_add 128 (TotalIssuance s) (pos_amount p)\<rparr>"

definition drop_negative :: "NegativeImbalance \<Rightarrow> ('acc, 'z) bal_scheme \<Rightarrow> ('acc, 'z) bal_scheme" where
  "drop_negative n s = s\<lparr>TotalIssuance := saturating_sub (TotalIssuance s) (neg_amount n)\<rparr>"

definition drop_signed ::
  "(PositiveImbalance, NegativeImbalance) SignedImbalance \<Rightarrow> ('acc, 'z) bal_scheme \<Rightarrow> ('acc, 'z) bal_scheme" where
  "drop_signed x s = (case x of Positive p \<Rightarrow> drop_positive p s | Negative n \<Rightarrow> drop_negative n s)"

section \<open>Mutating an account\<close>

definition account :: "'acc \<Rightarrow> ('acc, 'z) bal_scheme \<Rightarrow> AccountData" where
  "account who s = stored_get default_data who s"

definition free_balance :: "'acc \<Rightarrow> ('acc, 'z) bal_scheme \<Rightarrow> nat" where
  "free_balance who s = free (account who s)"

definition usable_balance :: "'acc \<Rightarrow> ('acc, 'z) bal_scheme \<Rightarrow> nat" where
  "usable_balance who s = usable (account who s) Reasons_Misc"

definition usable_balance_for_fees :: "'acc \<Rightarrow> ('acc, 'z) bal_scheme \<Rightarrow> nat" where
  "usable_balance_for_fees who s = usable (account who s) Reasons_Fee"

definition reserved_balance :: "'acc \<Rightarrow> ('acc, 'z) bal_scheme \<Rightarrow> nat" where
  "reserved_balance who s = reserved (account who s)"

definition balances_event :: "'acc BalancesEvent \<Rightarrow> ('acc, 'z) bal_scheme \<Rightarrow> ('acc, 'z) bal_scheme" where
  "balances_event ev s = deposit_event (Event_Balances ev) s"

definition post_mutation ::
  "nat \<Rightarrow> 'acc \<Rightarrow> AccountData \<Rightarrow> ('acc, 'z) bal_scheme \<Rightarrow> AccountData option \<times> ('acc, 'z) bal_scheme" where
  "post_mutation ed who new s =
     (let t = total new in
      if t < ed
      then (None,
            if t \<noteq> 0
            then balances_event (DustLost who t)
                   (on_unbalanced neg_drop_zero drop_negative (NegativeImbalance t) s)
            else s)
      else (Some new, s))"

text \<open>
  The closure gets the account and the rest of the state and returns its result, the account it
  leaves behind and the state.
\<close>

definition try_mutate_account ::
  "nat \<Rightarrow> 'acc \<Rightarrow>
   (AccountData \<Rightarrow> ('acc, 'z) bal_scheme \<Rightarrow> ('r, 'e) result \<times> AccountData \<times> ('acc, 'z) bal_scheme) \<Rightarrow>
   ('acc, 'z) bal_scheme \<Rightarrow> ('r, 'e) result \<times> ('acc, 'z) bal_scheme" where
  "try_mutate_account ed who f s =
     (case stored_try_mutate_exists who
             (\<lambda>maybe_account s.
                let acc = (case maybe_account of None \<Rightarrow> default_data | Some a \<Rightarrow> a);
                    was_zero = (total acc = 0)
                in case f acc s of
                     (Inl e, _, s1) \<Rightarrow> (Err e, None, s1)
                   | (Inr result, acc', s1) \<Rightarrow>
                       let maybe_endowed = (if was_zero then Some (free acc') else None) in
                       case post_mutation ed who acc' s1 of
                         (maybe_account', s2) \<Rightarrow> (Ok (maybe_endowed, result), maybe_account', s2)) s of
        (Inl e, s1) \<Rightarrow> (Err e, s1)
      | (Inr (maybe_endowed, result), s1) \<Rightarrow>
          (Ok result, case maybe_endowed of
                        Some endowed \<Rightarrow> balances_event (Endowed who endowed) s1
                      | None \<Rightarrow> s1))"

text \<open>
  The closure of \<open>mutate_account\<close> cannot fail; the error type has no value there, and the arm for it
  is never taken.
\<close>

definition mutate_account ::
  "nat \<Rightarrow> 'acc \<Rightarrow>
   (AccountData \<Rightarrow> ('acc, 'z) bal_scheme \<Rightarrow> 'r \<times> AccountData \<times> ('acc, 'z) bal_scheme) \<Rightarrow>
   ('acc, 'z) bal_scheme \<Rightarrow> 'r \<times> ('acc, 'z) bal_scheme" where
  "mutate_account ed who f s =
     (case try_mutate_account ed who
             (\<lambda>a s. case f a s of (r, a', s1) \<Rightarrow> (Inr r :: ('r, 'r) result, a', s1)) s of
        (Inr r, s1) \<Rightarrow> (r, s1)
      | (Inl e, s1) \<Rightarrow> (e, s1))"

section \<open>Currency\<close>

definition total_balance :: "'acc \<Rightarrow> ('acc, 'z) bal_scheme \<Rightarrow> nat" where
  "total_balance who s = total (account who s)"

definition can_slash :: "'acc \<Rightarrow> nat \<Rightarrow> ('acc, 'z) bal_scheme \<Rightarrow> bool" where
  "can_slash who value s = (if value = 0 then True else free_balance who s \<ge> value)"

definition burn :: "nat \<Rightarrow> ('acc, 'z) bal_scheme \<Rightarrow> PositiveImbalance \<times> ('acc, 'z) bal_scheme" where
  "burn amount s =
     (if amount = 0 then (pos_zero, s)
      else let issued = TotalIssuance s in
           case checked_sub issued amount of
             Some v \<Rightarrow> (PositiveImbalance amount, s\<lparr>TotalIssuance := v\<rparr>)
           | None \<Rightarrow> (PositiveImbalance issued, s\<lparr>TotalIssuance := 0\<rparr>))"

definition issue :: "nat \<Rightarrow> ('acc, 'z) bal_scheme \<Rightarrow> NegativeImbalance \<times> ('acc, 'z) bal_scheme" where
  "issue amount s =
     (if amount = 0 then (neg_zero, s)
      else let issued = TotalIssuance s in
           case checked_add 128 issued amount of
             Some v \<Rightarrow> (NegativeImbalance amount, s\<lparr>TotalIssuance := v\<rparr>)
           | None \<Rightarrow> (NegativeImbalance (u_max 128 - issued), s\<lparr>TotalIssuance := u_max 128\<rparr>))"

definition ensure_can_withdraw ::
  "'acc \<Rightarrow> nat \<Rightarrow> WithdrawReasons \<Rightarrow> nat \<Rightarrow> ('acc, 'z) bal_scheme \<Rightarrow> (unit, DispatchError) result" where
  "ensure_can_withdraw who amount reasons new_balance s =
     (if amount = 0 then Ok ()
      else let min_balance = frozen (account who s) (reasons_from reasons) in
           ensure (new_balance \<ge> min_balance) (Module_Balances LiquidityRestrictions))"

text \<open>
  The inner closure of \<open>transfer\<close> also writes the destination's account, which it captures; it
  returns that account on success.
\<close>

definition transfer_debit ::
  "nat \<Rightarrow> 'acc \<Rightarrow> nat \<Rightarrow> ExistenceRequirement \<Rightarrow> AccountData \<Rightarrow> AccountData \<Rightarrow>
   ('acc, 'z) bal_scheme \<Rightarrow> (AccountData, DispatchError) result \<times> AccountData \<times> ('acc, 'z) bal_scheme" where
  "transfer_debit ed transactor value existence_requirement to_account from_account s =
     (case checked_sub (free from_account) value of
        None \<Rightarrow> (Err (Module_Balances InsufficientBalance), from_account, s)
      | Some from_free \<Rightarrow>
          let from1 = from_account\<lparr>free := from_free\<rparr> in
          case checked_add 128 (free to_account) value of
            None \<Rightarrow> (Err (Module_Balances Overflow), from1, s)
          | Some to_free \<Rightarrow>
              let to1 = to_account\<lparr>free := to_free\<rparr>;
                  allow = (existence_requirement = AllowDeath);
                  allow' = (allow \<and> allow_death default_data transactor s);
                  check = and_then (ensure (total to1 \<ge> ed) (Module_Balances ExistentialDeposit)) (\<lambda>_.
                            and_then (ensure_can_withdraw transactor value (reason_flag Transfer) (free from1) s) (\<lambda>_.
                              ensure (allow' \<or> free from1 \<ge> ed) (Module_Balances Error_KeepAlive)))
              in (case check of
                    Inl e \<Rightarrow> (Err e, from1, s)
                  | Inr _ \<Rightarrow> (Ok to1, from1, s)))"

definition transfer ::
  "nat \<Rightarrow> 'acc \<Rightarrow> 'acc \<Rightarrow> nat \<Rightarrow> ExistenceRequirement \<Rightarrow> ('acc, 'z) bal_scheme \<Rightarrow>
   (unit, DispatchError) result \<times> ('acc, 'z) bal_scheme" where
  "transfer ed transactor dest value existence_requirement s =
     (if value = 0 \<or> transactor = dest then (Ok (), s)
      else case try_mutate_account ed dest
                  (\<lambda>to_account s.
                     case try_mutate_account ed transactor
                            (transfer_debit ed transactor value existence_requirement to_account) s of
                       (Inl e, s1) \<Rightarrow> (Err e, to_account, s1)
                     | (Inr to1, s1) \<Rightarrow> (Ok (), to1, s1)) s of
             (Inl e, s1) \<Rightarrow> (Err e, s1)
           | (Inr _, s1) \<Rightarrow> (Ok (), balances_event (Event_Transfer transactor dest value) s1))"

definition slash ::
  "nat \<Rightarrow> 'acc \<Rightarrow> nat \<Rightarrow> ('acc, 'z) bal_scheme \<Rightarrow> (NegativeImbalance \<times> nat) \<times> ('acc, 'z) bal_scheme" where
  "slash ed who value s =
     (if value = 0 then ((neg_zero, 0), s)
      else mutate_account ed who (\<lambda>a s.
        let free_slash = min (free a) value;
            a1 = a\<lparr>free := free a - free_slash\<rparr>;
            remaining_slash = value - free_slash
        in if remaining_slash \<noteq> 0
           then let reserved_slash = min (reserved a1) remaining_slash;
                    a2 = a1\<lparr>reserved := reserved a1 - reserved_slash\<rparr>
                in ((NegativeImbalance (wrapping_add 128 free_slash reserved_slash),
                     remaining_slash - reserved_slash), a2, s)
           else ((NegativeImbalance value, 0), a1, s)) s)"

definition deposit_into_existing ::
  "nat \<Rightarrow> 'acc \<Rightarrow> nat \<Rightarrow> ('acc, 'z) bal_scheme \<Rightarrow>
   (PositiveImbalance, DispatchError) result \<times> ('acc, 'z) bal_scheme" where
  "deposit_into_existing ed who value s =
     (if value = 0 then (Ok pos_zero, s)
      else try_mutate_account ed who (\<lambda>a s.
        if total a = 0 then (Err (Module_Balances DeadAccount), a, s)
        else case checked_add 128 (free a) value of
               None \<Rightarrow> (Err (Module_Balances Overflow), a, s)
             | Some f \<Rightarrow> (Ok (PositiveImbalance value), a\<lparr>free := f\<rparr>, s)) s)"

definition deposit_creating ::
  "nat \<Rightarrow> 'acc \<Rightarrow> nat \<Rightarrow> ('acc, 'z) bal_scheme \<Rightarrow> PositiveImbalance \<times> ('acc, 'z) bal_scheme" where
  "deposit_creating ed who value s =
     (if value = 0 then (pos_zero, s)
      else case try_mutate_account ed who (\<lambda>a s.
                  if \<not> (value \<ge> ed \<or> total a \<noteq> 0) then (Err pos_zero, a, s)
                  else case checked_add 128 (free a) value of
                         None \<Rightarrow> (Err pos_zero, a, s)
                       | Some f \<Rightarrow> (Ok (PositiveImbalance value), a\<lparr>free := f\<rparr>, s)) s of
             (Inr p, s1) \<Rightarrow> (p, s1)
           | (Inl x, s1) \<Rightarrow> (x, s1))"

definition withdraw ::
  "nat \<Rightarrow> 'acc \<Rightarrow> nat \<Rightarrow> WithdrawReasons \<Rightarrow> ExistenceRequirement \<Rightarrow> ('acc, 'z) bal_scheme \<Rightarrow>
   (NegativeImbalance, DispatchError) result \<times> ('acc, 'z) bal_scheme" where
  "withdraw ed who value reasons liveness s =
     (if value = 0 then (Ok neg_zero, s)
      else try_mutate_account ed who (\<lambda>a s.
        case checked_sub (free a) value of
          None \<Rightarrow> (Err (Module_Balances InsufficientBalance), a, s)
        | Some new_free_account \<Rightarrow>
            let would_be_dead = (wrapping_add 128 new_free_account (reserved a) < ed);
                would_kill = (would_be_dead \<and> wrapping_add 128 (free a) (reserved a) \<ge> ed)
            in (case and_then (ensure (liveness = AllowDeath \<or> \<not> would_kill) (Module_Balances Error_KeepAlive))
                       (\<lambda>_. ensure_can_withdraw who value reasons new_free_account s) of
                  Inl e \<Rightarrow> (Err e, a, s)
                | Inr _ \<Rightarrow> (Ok (NegativeImbalance value), a\<lparr>free := new_free_account\<rparr>, s))) s)"

definition make_free_balance_be ::
  "nat \<Rightarrow> 'acc \<Rightarrow> nat \<Rightarrow> ('acc, 'z) bal_scheme \<Rightarrow>
   (PositiveImbalance, NegativeImbalance) SignedImbalance \<times> ('acc, 'z) bal_scheme" where
  "make_free_balance_be ed who value s =
     (case try_mutate_account ed who (\<lambda>a s.
             if \<not> (wrapping_add 128 value (reserved a) \<ge> ed \<or> total a \<noteq> 0) then (Err (), a, s)
             else let imbalance = (if free a \<le> value
                                   then Positive (PositiveImbalance (value - free a))
                                   else Negative (NegativeImbalance (free a - value)))
                  in (Ok imbalance, a\<lparr>free := value\<rparr>, s)) s of
        (r, s1) \<Rightarrow> (unwrap_or r (Positive pos_zero), s1))"

section \<open>ReservableCurrency\<close>

definition can_reserve :: "'acc \<Rightarrow> nat \<Rightarrow> ('acc, 'z) bal_scheme \<Rightarrow> bool" where
  "can_reserve who value s =
     (if value = 0 then True
      else case checked_sub (free (account who s)) value of
             None \<Rightarrow> False
           | Some new_balance \<Rightarrow> is_ok (ensure_can_withdraw who value (reason_flag Reserve) new_balance s))"

definition reserve ::
  "nat \<Rightarrow> 'acc \<Rightarrow> nat \<Rightarrow> ('acc, 'z) bal_scheme \<Rightarrow> (unit, DispatchError) result \<times> ('acc, 'z) bal_scheme" where
  "reserve ed who value s =
     (if value = 0 then (Ok (), s)
      else try_mutate_account ed who (\<lambda>a s.
        case checked_sub (free a) value of
          None \<Rightarrow> (Err (Module_Balances InsufficientBalance), a, s)
        | Some f \<Rightarrow>
            let a1 = a\<lparr>free := f\<rparr> in
            case checked_add 128 (reserved a1) value of
              None \<Rightarrow> (Err (Module_Balances Overflow), a1, s)
            | Some r \<Rightarrow>
                let a2 = a1\<lparr>reserved := r\<rparr> in
                (ensure_can_withdraw who value (reason_flag Reserve) (free a2) s, a2, s)) s)"

definition unreserve :: "nat \<Rightarrow> 'acc \<Rightarrow> nat \<Rightarrow> ('acc, 'z) bal_scheme \<Rightarrow> nat \<times> ('acc, 'z) bal_scheme" where
  "unreserve ed who value s =
     (if value = 0 then (0, s)
      else mutate_account ed who (\<lambda>a s.
        let actual = min (reserved a) value;
            a1 = a\<lparr>reserved := reserved a - actual\<rparr>;
            a2 = a1\<lparr>free := saturating_add 128 (free a1) actual\<rparr>
        in (value - actual, a2, s)) s)"

definition slash_reserved ::
  "nat \<Rightarrow> 'acc \<Rightarrow> nat \<Rightarrow> ('acc, 'z) bal_scheme \<Rightarrow> (NegativeImbalance \<times> nat) \<times> ('acc, 'z) bal_scheme" where
  "slash_reserved ed who value s =
     (if value = 0 then ((neg_zero, 0), s)
      else mutate_account ed who (\<lambda>a s.
        let actual = min (reserved a) value
        in ((NegativeImbalance actual, value - actual), a\<lparr>reserved := reserved a - actual\<rparr>, s)) s)"

definition repatriate_debit ::
  "nat \<Rightarrow> BalanceStatus \<Rightarrow> AccountData \<Rightarrow> AccountData \<Rightarrow> ('acc, 'z) bal_scheme \<Rightarrow>
   (nat \<times> AccountData, DispatchError) result \<times> AccountData \<times> ('acc, 'z) bal_scheme" where
  "repatriate_debit value status to_account from_account s =
     (let actual = min (reserved from_account) value;
          to1 = (case status of
                   Status_Free \<Rightarrow> map_option (\<lambda>x. to_account\<lparr>free := x\<rparr>) (checked_add 128 (free to_account) actual)
                 | Status_Reserved \<Rightarrow>
                     map_option (\<lambda>x. to_account\<lparr>reserved := x\<rparr>) (checked_add 128 (reserved to_account) actual))
      in case to1 of
           None \<Rightarrow> (Err (Module_Balances Overflow), from_account, s)
         | Some t \<Rightarrow> (Ok (value - actual, t), from_account\<lparr>reserved := reserved from_account - actual\<rparr>, s))"

definition repatriate_reserved ::
  "nat \<Rightarrow> 'acc \<Rightarrow> 'acc \<Rightarrow> nat \<Rightarrow> BalanceStatus \<Rightarrow> ('acc, 'z) bal_scheme \<Rightarrow>
   (nat, DispatchError) result \<times> ('acc, 'z) bal_scheme" where
  "repatriate_reserved ed slashed beneficiary value status s =
     (if value = 0 then (Ok 0, s)
      else if slashed = beneficiary
      then (case status of
              Status_Free \<Rightarrow> (case unreserve ed slashed value s of (r, s1) \<Rightarrow> (Ok r, s1))
            | Status_Reserved \<Rightarrow> (Ok (saturating_sub value (reserved_balance slashed s)), s))
      else try_mutate_account ed beneficiary (\<lambda>to_account s.
             if total to_account = 0 then (Err (Module_Balances DeadAccount), to_account, s)
             else case try_mutate_account ed slashed (repatriate_debit value status to_account) s of
                    (Inl e, s1) \<Rightarrow> (Err e, to_account, s1)
                  | (Inr (r, to1), s1) \<Rightarrow> (Ok r, to1, s1)) s)"

section \<open>LockableCurrency\<close>

definition locks :: "'acc \<Rightarrow> ('acc, 'z) bal_scheme \<Rightarrow> BalanceLock list" where
  "locks who s = sm_get Locks (case_option [] (\<lambda>l. l)) who s"

text \<open>The loop of \<open>update_locks\<close> over the locks.\<close>

definition freeze_by :: "BalanceLock \<Rightarrow> AccountData \<Rightarrow> AccountData" where
  "freeze_by l b =
     (let b1 = (if lock_reasons l = Reasons_All \<or> lock_reasons l = Reasons_Misc
                then b\<lparr>misc_frozen := max (misc_frozen b) (lock_amount l)\<rparr> else b)
      in if lock_reasons l = Reasons_All \<or> lock_reasons l = Reasons_Fee
         then b1\<lparr>fee_frozen := max (fee_frozen b1) (lock_amount l)\<rparr> else b1)"

definition update_locks ::
  "nat \<Rightarrow> 'acc \<Rightarrow> BalanceLock list \<Rightarrow> ('acc, 'z) bal_scheme \<Rightarrow> ('acc, 'z) bal_scheme" where
  "update_locks ed who ls s =
     (let s1 = snd (mutate_account ed who
                 (\<lambda>b s. ((), fold freeze_by ls (b\<lparr>misc_frozen := 0, fee_frozen := 0\<rparr>), s)) s);
          existed = sm_contains_key Locks who s1
      in if ls = []
         then let s2 = sm_remove Locks_update who s1
              in if existed then dec_ref default_data who s2 else s2
         else let s2 = sm_insert Locks_update who ls s1
              in if \<not> existed then inc_ref default_data who s2 else s2)"

text \<open>
  The \<open>filter_map\<close> of \<open>set_lock\<close> and \<open>extend_lock\<close>: the first lock with the identifier takes what
  \<open>g\<close> makes of it and the new lock, a further one would be dropped; what is left of the new lock is
  returned.
\<close>

fun replace_lock ::
  "LockIdentifier \<Rightarrow> (BalanceLock \<Rightarrow> BalanceLock \<Rightarrow> BalanceLock) \<Rightarrow> BalanceLock option \<Rightarrow>
   BalanceLock list \<Rightarrow> BalanceLock list \<times> BalanceLock option" where
  "replace_lock i g new_lock [] = ([], new_lock)"
| "replace_lock i g new_lock (l # ls) =
     (if lock_id l = i
      then (case new_lock of
              Some nl \<Rightarrow> (case replace_lock i g None ls of (ls', rest) \<Rightarrow> (g l nl # ls', rest))
            | None \<Rightarrow> replace_lock i g None ls)
      else (case replace_lock i g new_lock ls of (ls', rest) \<Rightarrow> (l # ls', rest)))"

definition push_rest :: "BalanceLock list \<times> BalanceLock option \<Rightarrow> BalanceLock list" where
  "push_rest x = (case x of (ls, Some lock) \<Rightarrow> ls @ [lock] | (ls, None) \<Rightarrow> ls)"

definition set_lock ::
  "nat \<Rightarrow> LockIdentifier \<Rightarrow> 'acc \<Rightarrow> nat \<Rightarrow> WithdrawReasons \<Rightarrow> ('acc, 'z) bal_scheme \<Rightarrow> ('acc, 'z) bal_scheme" where
  "set_lock ed i who amount reasons s =
     (if amount = 0 \<or> reasons_is_none reasons then s
      else let new_lock = \<lparr>lock_id = i, lock_amount = amount, lock_reasons = reasons_from reasons\<rparr>
           in update_locks ed who (push_rest (replace_lock i (\<lambda>l nl. nl) (Some new_lock) (locks who s))) s)"

definition extend_lock ::
  "nat \<Rightarrow> LockIdentifier \<Rightarrow> 'acc \<Rightarrow> nat \<Rightarrow> WithdrawReasons \<Rightarrow> ('acc, 'z) bal_scheme \<Rightarrow> ('acc, 'z) bal_scheme" where
  "extend_lock ed i who amount reasons s =
     (if amount = 0 \<or> reasons_is_none reasons then s
      else let new_lock = \<lparr>lock_id = i, lock_amount = amount, lock_reasons = reasons_from reasons\<rparr>;
               join = (\<lambda>l nl. \<lparr>lock_id = lock_id l,
                         lock_amount = max (lock_amount l) (lock_amount nl),
                         lock_reasons = reasons_bitor (lock_reasons l) (lock_reasons nl)\<rparr>)
           in update_locks ed who (push_rest (replace_lock i join (Some new_lock) (locks who s))) s)"

definition remove_lock :: "nat \<Rightarrow> LockIdentifier \<Rightarrow> 'acc \<Rightarrow> ('acc, 'z) bal_scheme \<Rightarrow> ('acc, 'z) bal_scheme" where
  "remove_lock ed i who s = update_locks ed who (filter (\<lambda>l. lock_id l \<noteq> i) (locks who s)) s"

definition is_dead_account :: "'acc \<Rightarrow> ('acc, 'z) bal_scheme \<Rightarrow> bool" where
  "is_dead_account who s = (\<not> stored_is_explicit who s)"

section \<open>Dispatchable calls and genesis\<close>

text \<open>
  An address is resolved by the runtime's \<open>Lookup\<close>, a parameter here; a failed lookup is the
  dispatch error \<open>CannotLookup\<close>.
\<close>

definition lookup_or :: "('src \<Rightarrow> 'acc option) \<Rightarrow> 'src \<Rightarrow> ('acc, DispatchError) result" where
  "lookup_or lookup x = ok_or (lookup x) CannotLookup"

definition call_transfer ::
  "nat \<Rightarrow> ('src \<Rightarrow> 'acc option) \<Rightarrow> 'acc Origin \<Rightarrow> 'src \<Rightarrow> nat \<Rightarrow> ('acc, 'z) bal_scheme \<Rightarrow>
   (unit, DispatchError) result \<times> ('acc, 'z) bal_scheme" where
  "call_transfer ed lookup origin dest value s =
     (case and_then (ensure_signed origin) (\<lambda>t. and_then (lookup_or lookup dest) (\<lambda>d. Ok (t, d))) of
        Inl e \<Rightarrow> (Err e, s)
      | Inr (transactor, d) \<Rightarrow> transfer ed transactor d value AllowDeath s)"

definition call_transfer_keep_alive ::
  "nat \<Rightarrow> ('src \<Rightarrow> 'acc option) \<Rightarrow> 'acc Origin \<Rightarrow> 'src \<Rightarrow> nat \<Rightarrow> ('acc, 'z) bal_scheme \<Rightarrow>
   (unit, DispatchError) result \<times> ('acc, 'z) bal_scheme" where
  "call_transfer_keep_alive ed lookup origin dest value s =
     (case and_then (ensure_signed origin) (\<lambda>t. and_then (lookup_or lookup dest) (\<lambda>d. Ok (t, d))) of
        Inl e \<Rightarrow> (Err e, s)
      | Inr (transactor, d) \<Rightarrow> transfer ed transactor d value KeepAlive s)"

definition call_force_transfer ::
  "nat \<Rightarrow> ('src \<Rightarrow> 'acc option) \<Rightarrow> 'acc Origin \<Rightarrow> 'src \<Rightarrow> 'src \<Rightarrow> nat \<Rightarrow> ('acc, 'z) bal_scheme \<Rightarrow>
   (unit, DispatchError) result \<times> ('acc, 'z) bal_scheme" where
  "call_force_transfer ed lookup origin source dest value s =
     (case and_then (ensure_root origin) (\<lambda>_.
             and_then (lookup_or lookup source) (\<lambda>f. and_then (lookup_or lookup dest) (\<lambda>d. Ok (f, d)))) of
        Inl e \<Rightarrow> (Err e, s)
      | Inr (f, d) \<Rightarrow> transfer ed f d value AllowDeath s)"

text \<open>The two corrections of the issuance that \<open>set_balance\<close> makes for one part of the account.\<close>

definition square_up :: "nat \<Rightarrow> nat \<Rightarrow> ('acc, 'z) bal_scheme \<Rightarrow> ('acc, 'z) bal_scheme" where
  "square_up new old s =
     (if new > old then drop_positive (PositiveImbalance (new - old)) s
      else if new < old then drop_negative (NegativeImbalance (old - new)) s
      else s)"

definition call_set_balance ::
  "nat \<Rightarrow> ('src \<Rightarrow> 'acc option) \<Rightarrow> 'acc Origin \<Rightarrow> 'src \<Rightarrow> nat \<Rightarrow> nat \<Rightarrow> ('acc, 'z) bal_scheme \<Rightarrow>
   (unit, DispatchError) result \<times> ('acc, 'z) bal_scheme" where
  "call_set_balance ed lookup origin who new_free new_reserved s =
     (case and_then (ensure_root origin) (\<lambda>_. lookup_or lookup who) of
        Inl e \<Rightarrow> (Err e, s)
      | Inr w \<Rightarrow>
          let wipeout = (wrapping_add 128 new_free new_reserved < ed);
              nf = (if wipeout then 0 else new_free);
              nr = (if wipeout then 0 else new_reserved)
          in case mutate_account ed w (\<lambda>a s.
                    let s1 = square_up nf (free a) s;
                        s2 = square_up nr (reserved a) s1;
                        a1 = a\<lparr>free := nf, reserved := nr\<rparr>
                    in ((free a1, reserved a1), a1, s2)) s of
               ((f, r), s1) \<Rightarrow> (Ok (), balances_event (BalanceSet w f r) s1))"

text \<open>Building the genesis state; \<open>None\<close> is a failed assertion.\<close>

definition balances_genesis ::
  "nat \<Rightarrow> ('acc \<times> nat) list \<Rightarrow> ('acc, 'z) bal_scheme \<Rightarrow> ('acc, 'z) bal_scheme option" where
  "balances_genesis ed balances s =
     (let s1 = s\<lparr>TotalIssuance := foldl (\<lambda>acc x. wrapping_add 128 acc (snd x)) 0 balances\<rparr> in
      if ed > 0 \<and> list_all (\<lambda>x. snd x \<ge> ed) balances
      then Some (foldl (\<lambda>s x. stored_insert default_data (fst x) (default_data\<lparr>free := snd x\<rparr>) s) s1 balances)
      else None)"

section \<open>The effect of a mutation\<close>

interpretation imb: imbalance_pair 128 pos_imb neg_imb
proof unfold_locales
qed (auto simp: pos_imb_def neg_imb_def pos_zero_def neg_zero_def pos_drop_zero_def neg_drop_zero_def
     pos_split_def neg_split_def pos_merge_def neg_merge_def pos_subsume_def neg_subsume_def
     pos_offset_def neg_offset_def Let_def split: if_splits)

interpretation locks_item: storage_item Locks Locks_update
  by unfold_locales auto

lemma bal_frame [simp, frame_simps]:
  "TotalIssuance (deposit_event ev s) = TotalIssuance s"
  "Locks (deposit_event ev s) = Locks s"
  "TotalIssuance (balances_event ev' s) = TotalIssuance s"
  "Locks (balances_event ev' s) = Locks s"
  "Account (balances_event ev' s) = Account s"
  "TotalIssuance (lifecycle k a b s) = TotalIssuance s"
  "Locks (lifecycle k a b s) = Locks s"
  "TotalIssuance (drop_negative n s) = TotalIssuance s - neg_amount n"
  "Locks (drop_negative n s) = Locks s"
  "Account (drop_negative n s) = Account s"
  "Locks (drop_positive p s) = Locks s"
  "Account (drop_positive p s) = Account s"
  "bal.more (deposit_event ev s) = bal.more s"
  "bal.more (balances_event ev' s) = bal.more s"
  "bal.more (lifecycle k a b s) = bal.more s"
  "bal.more (drop_negative n s) = bal.more s"
  "bal.more (drop_positive p s) = bal.more s"
  "Number (deposit_event ev s) = Number s"
  "Number (balances_event ev' s) = Number s"
  "Number (lifecycle k a b s) = Number s"
  "Number (drop_negative n s) = Number s"
  "Number (drop_positive p s) = Number s"
  by (simp_all add: deposit_event_def deposit_event_indexed_def balances_event_def lifecycle_def on_created_account_def on_killed_account_def
      drop_negative_def drop_positive_def saturating_sub_def Let_def split: option.split)


text \<open>What becomes of an account after a mutation, and what the mutation burns of it.\<close>

definition kept :: "nat \<Rightarrow> AccountData \<Rightarrow> AccountData option" where
  "kept ed a = (if total a < ed then None else Some a)"

definition dust :: "nat \<Rightarrow> AccountData \<Rightarrow> nat" where
  "dust ed a = (if total a < ed then total a else 0)"

text \<open>
  The state \<open>s2\<close> is what a mutation of \<open>who\<close> started in \<open>s\<close> makes of the state \<open>s1\<close> its closure left,
  with \<open>a\<close> the new account.
\<close>

definition mutated ::
  "nat \<Rightarrow> 'acc \<Rightarrow> ('acc, 'z) bal_scheme \<Rightarrow> AccountData \<Rightarrow> ('acc, 'z) bal_scheme \<Rightarrow> ('acc, 'z) bal_scheme \<Rightarrow> bool" where
  "mutated ed who s a s1 s2 \<longleftrightarrow>
     Account s2 = (Account s1)(who := map_option (with_prefix (Account s who)) (kept ed a)) \<and>
     TotalIssuance s2 = TotalIssuance s1 - dust ed a \<and>
     Locks s2 = Locks s1 \<and> Number s2 = Number s1 \<and> bal.more s2 = bal.more s1"

lemma account_stored: "account who s = (case stored_data s who of None \<Rightarrow> default_data | Some a \<Rightarrow> a)"
  by (simp add: account_def stored_get_law)

lemma post_mutation_effect:
  assumes "post_mutation ed who a s = (v, s')"
  shows "v = kept ed a" "Account s' = Account s" "TotalIssuance s' = TotalIssuance s - dust ed a"
    "Locks s' = Locks s" "Number s' = Number s" "bal.more s' = bal.more s"
  using assms
  by (auto simp: post_mutation_def kept_def dust_def on_unbalanced_def neg_drop_zero_def Let_def split: if_splits)

lemma try_mutate_account_err:
  assumes "f (account who s) s = (Inl e, a', s1)"
  shows "try_mutate_account ed who f s = (Inl e, s1)"
  using assms unfolding try_mutate_account_def
  by (subst stored_try_err) (auto simp: account_stored Let_def)

lemma try_mutate_account_ok:
  assumes "f (account who s) s = (Inr r, a', s1)"
  obtains s2 where "try_mutate_account ed who f s = (Inr r, s2)" "mutated ed who s a' s1 s2"
proof -
  obtain v s' where pm: "post_mutation ed who a' s1 = (v, s')" by fastforce
  note eff = post_mutation_effect [OF pm]
  let ?w = "if total (account who s) = 0 then Some (free a') else None"
  let ?s2 = "lifecycle who (Account s who \<noteq> None) (v \<noteq> None)
     (s'\<lparr>Account := (Account s')(who := map_option (with_prefix (Account s who)) v)\<rparr>)"
  let ?s3 = "case ?w of Some e \<Rightarrow> balances_event (Endowed who e) ?s2 | None \<Rightarrow> ?s2"
  have "try_mutate_account ed who f s = (Inr r, ?s3)"
    unfolding try_mutate_account_def
    by (subst stored_try_ok) (use assms pm in \<open>auto simp: account_stored Let_def\<close>)
  moreover have "mutated ed who s a' s1 ?s3"
    using eff by (simp add: mutated_def)
  ultimately show ?thesis by (rule that)
qed

lemma mutate_account_ok:
  fixes f :: "AccountData \<Rightarrow> ('acc, 'z) bal_scheme \<Rightarrow> 'r \<times> AccountData \<times> ('acc, 'z) bal_scheme"
  assumes "f (account who s) s = (r, a', s1)"
  obtains s2 where "mutate_account ed who f s = (r, s2)" "mutated ed who s a' s1 s2"
proof -
  let ?f = "\<lambda>a s. case f a s of (r, a', s1) \<Rightarrow> (Inr r :: ('r, 'r) result, a', s1)"
  have "?f (account who s) s = (Inr r, a', s1)" using assms by simp
  from try_mutate_account_ok [where f = ?f, OF this]
  obtain s2 where "try_mutate_account ed who ?f s = (Inr r, s2)" "mutated ed who s a' s1 s2" by blast
  then show ?thesis by (intro that [of s2]) (simp_all add: mutate_account_def)
qed

lemma mutated_stored:
  assumes "mutated ed who s a s1 s2"
  shows "stored_data s2 = (stored_data s1)(who := kept ed a)"
  using assms by (auto simp: mutated_def stored_data_def fun_eq_iff option.map_comp o_def option.map_ident)

lemma mutated_account:
  assumes "mutated ed who s a s1 s2"
  shows "account k s2 = (if k = who then case_option default_data (\<lambda>a. a) (kept ed a) else account k s1)"
  by (simp add: account_stored mutated_stored [OF assms])


lemma try_mutate_account_cases:
  assumes "try_mutate_account ed who f s = (res, s')"
  obtains (err) e a' where "f (account who s) s = (Inl e, a', s')" "res = Inl e"
  | (ok) r a' s1 where "f (account who s) s = (Inr r, a', s1)" "res = Inr r" "mutated ed who s a' s1 s'"
proof -
  obtain x a' s1 where f: "f (account who s) s = (x, a', s1)" by (cases "f (account who s) s")
  show ?thesis
  proof (cases x)
    case (Inl e)
    with try_mutate_account_err [where f = f and ed = ed] f assms err show ?thesis by auto
  next
    case (Inr r)
    with f have "f (account who s) s = (Inr r, a', s1)" by simp
    moreover from try_mutate_account_ok [where f = f and ed = ed, OF this] assms
    have "res = Inr r" "mutated ed who s a' s1 s'" by auto
    ultimately show ?thesis by (rule ok)
  qed
qed

section \<open>The operations by cases\<close>

text \<open>
  For each operation: an error leaves the state as it was, and a success mutates the accounts as
  stated. These are the facts the rest of the development uses.
\<close>


lemma withdraw_cases:
  assumes "withdraw ed who v reasons liveness s = (res, s')" "v \<noteq> 0"
  obtains (err) e where "res = Inl e" "s' = s"
  | (ok) "res = Inr (NegativeImbalance v)" "v \<le> free (account who s)"
      "frozen (account who s) (reasons_from reasons) \<le> free (account who s) - v"
      "liveness = AllowDeath \<or>
        \<not> (wrapping_add 128 (free (account who s) - v) (reserved (account who s)) < ed \<and>
           ed \<le> wrapping_add 128 (free (account who s)) (reserved (account who s)))"
      "mutated ed who s ((account who s)\<lparr>free := free (account who s) - v\<rparr>) s s'"
  using assms(1) unfolding withdraw_def if_not_P [OF assms(2)]
  by (rule try_mutate_account_cases)
     (use assms(2) err ok in \<open>auto simp: ensure_can_withdraw_def Let_def
        split: option.splits sum.splits\<close>)

lemma reserve_cases:
  assumes "reserve ed who v s = (res, s')" "v \<noteq> 0"
  obtains (err) e where "res = Inl e" "s' = s"
  | (ok) "res = Inr ()" "v \<le> free (account who s)" "reserved (account who s) + v < 2 ^ 128"
      "frozen (account who s) (reasons_from (reason_flag Reserve)) \<le> free (account who s) - v"
      "mutated ed who s ((account who s)\<lparr>free := free (account who s) - v,
         reserved := reserved (account who s) + v\<rparr>) s s'"
  using assms(1) unfolding reserve_def if_not_P [OF assms(2)]
  by (rule try_mutate_account_cases)
     (use assms(2) err ok in \<open>auto simp: ensure_can_withdraw_def Let_def
        split: option.splits\<close>)

lemma deposit_into_existing_cases:
  assumes "deposit_into_existing ed who v s = (res, s')" "v \<noteq> 0"
  obtains (err) e where "res = Inl e" "s' = s"
  | (ok) "res = Inr (PositiveImbalance v)" "total (account who s) \<noteq> 0"
      "free (account who s) + v < 2 ^ 128"
      "mutated ed who s ((account who s)\<lparr>free := free (account who s) + v\<rparr>) s s'"
  using assms(1) unfolding deposit_into_existing_def if_not_P [OF assms(2)]
  by (rule try_mutate_account_cases)
     (use err ok in \<open>auto split: option.splits if_splits\<close>)

lemma deposit_creating_cases:
  assumes "deposit_creating ed who v s = (p, s')" "v \<noteq> 0"
  obtains (none) "p = pos_zero" "s' = s"
  | (ok) "p = PositiveImbalance v" "ed \<le> v \<or> total (account who s) \<noteq> 0"
      "free (account who s) + v < 2 ^ 128"
      "mutated ed who s ((account who s)\<lparr>free := free (account who s) + v\<rparr>) s s'"
proof -
  let ?f = "\<lambda>a s. if \<not> (v \<ge> ed \<or> total a \<noteq> 0) then (Err pos_zero, a, s)
                  else case checked_add 128 (free a) v of
                         None \<Rightarrow> (Err pos_zero, a, s)
                       | Some f \<Rightarrow> (Ok (PositiveImbalance v), a\<lparr>free := f\<rparr>, s)"
  obtain res where t: "try_mutate_account ed who ?f s = (res, s')" and p: "p = (case res of Inr x \<Rightarrow> x | Inl x \<Rightarrow> x)"
    using assms by (auto simp: deposit_creating_def split: prod.splits sum.splits)
  from t show ?thesis
    by (rule try_mutate_account_cases) (use p none ok in \<open>auto split: option.splits if_splits\<close>)
qed

lemma make_free_balance_be_cases:
  assumes "make_free_balance_be ed who v s = (x, s')"
  obtains (none) "x = Positive pos_zero" "s' = s"
  | (ok) "x = (if free (account who s) \<le> v then Positive (PositiveImbalance (v - free (account who s)))
               else Negative (NegativeImbalance (free (account who s) - v)))"
      "ed \<le> wrapping_add 128 v (reserved (account who s)) \<or> total (account who s) \<noteq> 0"
      "mutated ed who s ((account who s)\<lparr>free := v\<rparr>) s s'"
proof -
  let ?f = "\<lambda>a s. if \<not> (wrapping_add 128 v (reserved a) \<ge> ed \<or> total a \<noteq> 0) then (Err (), a, s)
             else let imbalance = (if free a \<le> v
                                   then Positive (PositiveImbalance (v - free a))
                                   else Negative (NegativeImbalance (free a - v)))
                  in (Ok imbalance, a\<lparr>free := v\<rparr>, s)"
  obtain res where t: "try_mutate_account ed who ?f s = (res, s')" and x: "x = unwrap_or res (Positive pos_zero)"
    using assms by (auto simp: make_free_balance_be_def split: prod.splits)
  from t show ?thesis
    by (rule try_mutate_account_cases) (use x none ok in \<open>auto simp: Let_def split: if_splits\<close>)
qed

lemma mutate_account_cases:
  assumes "mutate_account ed who f s = (r, s')"
  obtains a' s1 where "f (account who s) s = (r, a', s1)" "mutated ed who s a' s1 s'"
proof -
  obtain x a' s1 where f: "f (account who s) s = (x, a', s1)" by (cases "f (account who s) s")
  from mutate_account_ok [where f = f and ed = ed, OF f] assms
  have "x = r" "mutated ed who s a' s1 s'" by auto
  with f show ?thesis by (intro that) auto
qed

lemma slash_cases:
  assumes "slash ed who v s = ((n, rest), s')" "v \<noteq> 0" "v < 2 ^ 128"
  shows "n = NegativeImbalance (min v (free (account who s) + reserved (account who s)))"
    and "rest = v - (free (account who s) + reserved (account who s))"
    and "mutated ed who s ((account who s)\<lparr>free := free (account who s) - v,
           reserved := reserved (account who s) - (v - free (account who s))\<rparr>) s s'"
proof -
  let ?a = "account who s"
  have wrap: "wrapping_add 128 (min (free ?a) v) (min (reserved ?a) (v - min (free ?a) v)) =
      min (free ?a) v + min (reserved ?a) (v - min (free ?a) v)"
    using assms(3) by (intro wrapping_add_exact, elim order.strict_trans1 [rotated]) (simp add: min_def; arith)
  have upd: "?a\<lparr>free := x\<rparr> = ?a\<lparr>free := x, reserved := reserved ?a\<rparr>" for x by simp
  obtain a' s1 where f: "(let free_slash = min (free ?a) v; a1 = ?a\<lparr>free := free ?a - free_slash\<rparr>;
            remaining_slash = v - free_slash
        in if remaining_slash \<noteq> 0
           then let reserved_slash = min (reserved a1) remaining_slash;
                    a2 = a1\<lparr>reserved := reserved a1 - reserved_slash\<rparr>
                in ((NegativeImbalance (wrapping_add 128 free_slash reserved_slash),
                     remaining_slash - reserved_slash), a2, s)
           else ((NegativeImbalance v, 0), a1, s)) = ((n, rest), a', s1)"
    and m: "mutated ed who s a' s1 s'"
    using assms(1,2) by (auto simp: slash_def elim: mutate_account_cases)
  show "n = NegativeImbalance (min v (free ?a + reserved ?a))" "rest = v - (free ?a + reserved ?a)"
    using f wrap by (auto simp: Let_def min_def split: if_splits)
  have "a' = ?a\<lparr>free := free ?a - v, reserved := reserved ?a - (v - free ?a)\<rparr>" "s1 = s"
    using f upd by (auto simp: Let_def min_def split: if_splits)
  with m show "mutated ed who s (?a\<lparr>free := free ?a - v, reserved := reserved ?a - (v - free ?a)\<rparr>) s s'"
    by simp
qed

lemma slash_reserved_cases:
  assumes "slash_reserved ed who v s = ((n, rest), s')" "v \<noteq> 0"
  shows "n = NegativeImbalance (min (reserved (account who s)) v)"
    and "rest = v - reserved (account who s)"
    and "mutated ed who s ((account who s)\<lparr>reserved := reserved (account who s) - v\<rparr>) s s'"
proof -
  have *: "reserved a - min (reserved a) v = reserved a - v" for a by (simp add: min_def)
  show "n = NegativeImbalance (min (reserved (account who s)) v)"
    and "rest = v - reserved (account who s)"
    and "mutated ed who s ((account who s)\<lparr>reserved := reserved (account who s) - v\<rparr>) s s'"
    using assms by (auto simp: slash_reserved_def Let_def * elim!: mutate_account_cases)
qed

lemma unreserve_cases:
  assumes "unreserve ed who v s = (rest, s')" "v \<noteq> 0"
  shows "rest = v - reserved (account who s)"
    and "mutated ed who s ((account who s)\<lparr>reserved := reserved (account who s) - v,
           free := saturating_add 128 (free (account who s)) (min (reserved (account who s)) v)\<rparr>) s s'"
proof -
  have *: "reserved a - min (reserved a) v = reserved a - v" for a by (simp add: min_def)
  show "rest = v - reserved (account who s)"
    and "mutated ed who s ((account who s)\<lparr>reserved := reserved (account who s) - v,
           free := saturating_add 128 (free (account who s)) (min (reserved (account who s)) v)\<rparr>) s s'"
    using assms by (auto simp: unreserve_def Let_def * elim!: mutate_account_cases)
qed

lemma account_other:
  "mutated ed who s a s1 s2 \<Longrightarrow> k \<noteq> who \<Longrightarrow> account k s2 = account k s1"
  by (simp add: mutated_account)

text \<open>A transfer mutates the sender first and the destination after it.\<close>

lemma transfer_cases:
  assumes "transfer ed src dst v req s = (res, s')" "v \<noteq> 0" "src \<noteq> dst"
  obtains (err) e where "res = Inl e" "s' = s"
  | (ok) s1 s2 where "res = Inr ()" "v \<le> free (account src s)" "free (account dst s) + v < 2 ^ 128"
      "ed \<le> total ((account dst s)\<lparr>free := free (account dst s) + v\<rparr>)"
      "frozen (account src s) (reasons_from (reason_flag Transfer)) \<le> free (account src s) - v"
      "req = AllowDeath \<and> allow_death default_data src s \<or> ed \<le> free (account src s) - v"
      "mutated ed src s ((account src s)\<lparr>free := free (account src s) - v\<rparr>) s s1"
      "mutated ed dst s ((account dst s)\<lparr>free := free (account dst s) + v\<rparr>) s1 s2"
      "s' = balances_event (Event_Transfer src dst v) s2"
proof -
  let ?f = "\<lambda>to_account s. case try_mutate_account ed src (transfer_debit ed src v req to_account) s of
                       (Inl e, s1) \<Rightarrow> (Err e, to_account, s1)
                     | (Inr to1, s1) \<Rightarrow> (Ok (), to1, s1)"
  obtain r s2 where t: "try_mutate_account ed dst ?f s = (r, s2)"
    and s': "(res, s') = (case r of Inl e \<Rightarrow> (Err e, s2) | Inr _ \<Rightarrow> (Ok (), balances_event (Event_Transfer src dst v) s2))"
    using assms by (auto simp: transfer_def split: prod.splits sum.splits)
  obtain r1 s1 where i: "try_mutate_account ed src (transfer_debit ed src v req (account dst s)) s = (r1, s1)"
    by fastforce
  note debit = transfer_debit_def ensure_can_withdraw_def Let_def
  from t show ?thesis
  proof (cases rule: try_mutate_account_cases)
    case (err e a')
    then have r1: "r1 = Inl e" "s2 = s1" using i by (auto split: sum.splits)
    from i r1 have "s1 = s"
      by (cases rule: try_mutate_account_cases) (auto simp: debit split: option.splits sum.splits if_splits)
    then show ?thesis using that(1) s' err r1 by simp
  next
    case (ok u a' s1')
    then have r1: "r1 = Inr a'" "s1' = s1" using i by (auto split: sum.splits)
    from i show ?thesis
    proof (cases rule: try_mutate_account_cases)
      case (err e a'')
      then show ?thesis using r1 by simp
    next
      case (ok r' a'' s0)
      then show ?thesis
        using that(2) [of s1 s2] s' r1 \<open>mutated ed dst s a' s1' s2\<close> \<open>r = Inr u\<close> assms(2)
        by (auto simp: debit split: option.splits sum.splits if_splits)
    qed
  qed
qed


text \<open>What a beneficiary gets of a repatriated amount.\<close>

definition credited :: "BalanceStatus \<Rightarrow> nat \<Rightarrow> AccountData \<Rightarrow> AccountData" where
  "credited status x a =
     (case status of Status_Free \<Rightarrow> a\<lparr>free := free a + x\<rparr> | Status_Reserved \<Rightarrow> a\<lparr>reserved := reserved a + x\<rparr>)"

lemma repatriate_cases:
  assumes "repatriate_reserved ed src dst v status s = (res, s')" "v \<noteq> 0" "src \<noteq> dst"
  obtains (err) e where "res = Inl e" "s' = s"
  | (ok) s1 where "res = Inr (v - reserved (account src s))" "total (account dst s) \<noteq> 0"
      "free (credited status (min (reserved (account src s)) v) (account dst s)) < 2 ^ 128 \<or> status = Status_Reserved"
      "reserved (credited status (min (reserved (account src s)) v) (account dst s)) < 2 ^ 128 \<or> status = Status_Free"
      "mutated ed src s ((account src s)\<lparr>reserved := reserved (account src s) - v\<rparr>) s s1"
      "mutated ed dst s (credited status (min (reserved (account src s)) v) (account dst s)) s1 s'"
proof -
  let ?x = "min (reserved (account src s)) v"
  have x: "v - ?x = v - reserved (account src s)" "reserved (account src s) - ?x = reserved (account src s) - v"
    by (simp_all add: min_def)
  let ?f = "\<lambda>to_account s. if total to_account = 0 then (Err (Module_Balances DeadAccount), to_account, s)
             else case try_mutate_account ed src (repatriate_debit v status to_account) s of
                    (Inl e, s1) \<Rightarrow> (Err e, to_account, s1)
                  | (Inr (r, to1), s1) \<Rightarrow> (Ok r, to1, s1)"
  have t: "try_mutate_account ed dst ?f s = (res, s')"
    using assms by (simp add: repatriate_reserved_def)
  obtain r1 s1 where i: "try_mutate_account ed src (repatriate_debit v status (account dst s)) s = (r1, s1)"
    by fastforce
  note debit = repatriate_debit_def Let_def credited_def
  from t show ?thesis
  proof (cases rule: try_mutate_account_cases)
    case (err e a')
    show ?thesis
    proof (cases "total (account dst s) = 0")
      case True
      with err that(1) show ?thesis by simp
    next
      case False
      with err i have r1: "r1 = Inl e" "s' = s1" by (auto split: sum.splits)
      from i r1 have "s1 = s"
        by (cases rule: try_mutate_account_cases) (auto simp: debit split: option.splits BalanceStatus.splits)
      then show ?thesis using that(1) err r1 by simp
    qed
  next
    case (ok r a' s1')
    then have r1: "r1 = Inr (r, a')" "s1' = s1" and nz: "total (account dst s) \<noteq> 0"
      using i by (auto split: sum.splits if_splits)
    from i show ?thesis
    proof (cases rule: try_mutate_account_cases)
      case (err e a'')
      then show ?thesis using r1 by simp
    next
      case inner: (ok r' a'' s0)
      then show ?thesis
        using that(2) [of s1] r1 ok nz x
        by (auto simp: debit split: option.splits BalanceStatus.splits)
    qed
  qed
qed

lemma freeze_frame [simp]:
  "free (fold freeze_by ls b) = free b" "reserved (fold freeze_by ls b) = reserved b"
  by (induction ls arbitrary: b) (simp_all add: freeze_by_def Let_def)

lemma account_mutate_eq:
  "account_mutate d who f s = s\<lparr>Account := (Account s)(who \<mapsto> f (account_get d who s))\<rparr>"
  by (simp add: account_mutate_def sm_mutate_def account_get_def sm_get_def sm_insert_def store_account)

lemma store_locks: "sm_store Locks_update k v s = s\<lparr>Locks := (Locks s)(k := v)\<rparr>"
  by (cases s) (simp add: sm_store_def)

text \<open>The reference counts are the only part of the account table that follows the locks.\<close>

lemma ref_effect:
  assumes "s' = inc_ref default_data who s \<or> s' = dec_ref default_data who s"
  shows "stored_data s' = (stored_data s)(who \<mapsto> account who s)"
    "TotalIssuance s' = TotalIssuance s" "Locks s' = Locks s" "bal.more s' = bal.more s"
    "finite (dom (Account s')) \<longleftrightarrow> finite (dom (Account s))"
  using assms
  by (auto simp: inc_ref_def dec_ref_def account_mutate_eq stored_data_def account_def stored_get_def)

text \<open>
  After \<open>update_locks\<close> the account is as frozen as the locks say (unless it is reaped), the locks are
  stored, and the entry is at most touched by the reference count.
\<close>

lemma update_locks_effect:
  obtains s1 where
    "mutated ed who s (fold freeze_by ls ((account who s)\<lparr>misc_frozen := 0, fee_frozen := 0\<rparr>)) s s1"
    "stored_data (update_locks ed who ls s) = stored_data s1 \<or>
     stored_data (update_locks ed who ls s) = (stored_data s1)(who \<mapsto> account who s1)"
    "TotalIssuance (update_locks ed who ls s) = TotalIssuance s1"
    "Locks (update_locks ed who ls s) = (Locks s)(who := (if ls = [] then None else Some ls))"
    "finite (dom (Account (update_locks ed who ls s))) \<longleftrightarrow> finite (dom (Account s1))"
    "bal.more (update_locks ed who ls s) = bal.more s"
proof -
  let ?f = "\<lambda>b s. ((), fold freeze_by ls (b\<lparr>misc_frozen := 0, fee_frozen := 0\<rparr>), s)"
  obtain s1 where m: "mutate_account ed who ?f s = ((), s1)"
    and mu: "mutated ed who s (fold freeze_by ls ((account who s)\<lparr>misc_frozen := 0, fee_frozen := 0\<rparr>)) s s1"
    by (rule mutate_account_ok [where f = ?f and who = who and s = s]) auto
  define s2 where "s2 = s1\<lparr>Locks := (Locks s)(who := (if ls = [] then None else Some ls))\<rparr>"
  have s2: "stored_data s2 = stored_data s1" "account who s2 = account who s1"
    "TotalIssuance s2 = TotalIssuance s1" "Locks s2 = (Locks s)(who := (if ls = [] then None else Some ls))"
    "Account s2 = Account s1" "bal.more s2 = bal.more s"
    using mu by (simp_all add: s2_def stored_data_def fun_eq_iff account_def stored_get_def account_get_def
        sm_get_def mutated_def)
  have "Locks s1 = Locks s" using mu by (simp add: mutated_def)
  then have "update_locks ed who ls s =
      (if ls = [] then if sm_contains_key Locks who s1 then dec_ref default_data who s2 else s2
       else if sm_contains_key Locks who s1 then s2 else inc_ref default_data who s2)"
    using m by (simp add: update_locks_def sm_insert_def sm_remove_def store_locks s2_def)
  then consider "update_locks ed who ls s = s2" | "update_locks ed who ls s = inc_ref default_data who s2"
    | "update_locks ed who ls s = dec_ref default_data who s2"
    by (auto split: if_splits)
  then show ?thesis
    by cases (use ref_effect [of _ who s2] s2 in \<open>auto intro!: that [OF mu]\<close>)
qed

end
