(* ===== verification/Issuance.thy ===== *)
theory Issuance
  imports Balances "HOL-Library.Multiset"
begin

text \<open>
  The books of the balances module: the total issuance is what all accounts hold plus the value of
  the imbalances still around. Each operation is shown to keep the books, the module is shown to
  be a \<open>currency\<close> in the sense of the trait's contract, and a step relation runs the operations in
  any order with any number of outstanding imbalances.
\<close>

section \<open>The accounting invariant\<close>

definition tot :: "AccountData \<Rightarrow> nat" where
  "tot a = free a + reserved a"

text \<open>What all accounts hold together.\<close>

definition issued :: "('acc, 'z) bal_scheme \<Rightarrow> nat" where
  "issued s = msum tot (stored_data s)"

text \<open>
  \<open>issuance ed g s\<close>: every account is empty or holds the existential deposit, and the total issuance
  exceeds what the accounts hold by \<open>g\<close>, the net value of the imbalances that are still around.
\<close>

definition issuance :: "nat \<Rightarrow> int \<Rightarrow> ('acc, 'z) bal_scheme \<Rightarrow> bool" where
  "issuance ed g s \<longleftrightarrow>
     finite (dom (Account s)) \<and>
     (\<forall>k. tot (account k s) = 0 \<or> ed \<le> tot (account k s)) \<and>
     TotalIssuance s < 2 ^ 128 \<and>
     int (TotalIssuance s) = int (issued s) + g"

lemma tot_default [simp]: "tot default_data = 0"
  by (simp add: tot_def default_data_def)

lemma dom_stored [simp]: "dom (stored_data s) = dom (Account s)"
  by (auto simp: stored_data_def dom_def)

lemma tot_at0: "tot (account k s) = at0 tot (stored_data s) k"
  by (simp add: account_stored at0_def split: option.split)

lemma total_small: "total a < ed \<Longrightarrow> ed < 2 ^ 128 \<Longrightarrow> total a = tot a"
  unfolding total_def tot_def saturating_add_def u_max_def by (simp add: min_def split: if_splits)

lemma dust_le_tot: "ed < 2 ^ 128 \<Longrightarrow> dust ed a \<le> tot a"
  using total_small [of a ed] by (simp add: dust_def)

lemma total_eq_0 [simp]: "total a = 0 \<longleftrightarrow> tot a = 0"
  by (simp add: total_def tot_def)

lemma total_exact: "tot a < 2 ^ 128 \<Longrightarrow> total a = tot a"
  by (simp add: total_def tot_def)

lemma less_total_iff: "ed < 2 ^ 128 \<Longrightarrow> total a < ed \<longleftrightarrow> tot a < ed"
  unfolding total_def tot_def saturating_add_def u_max_def by (auto simp: min_def)

lemma tot_le_issued: "finite (dom (Account s)) \<Longrightarrow> tot (account k s) \<le> issued s"
  unfolding issued_def tot_at0 by (rule at0_le_msum) simp

lemma same_accounts:
  assumes "Account s' = Account s"
  shows "stored_data s' = stored_data s" "account k s' = account k s" "issued s' = issued s"
proof -
  show sd: "stored_data s' = stored_data s" using assms by (simp add: stored_data_def fun_eq_iff)
  then show "account k s' = account k s" "issued s' = issued s" by (simp_all add: account_stored issued_def)
qed

lemma drop_positive_total:
  "TotalIssuance (drop_positive p s) = saturating_add 128 (TotalIssuance s) (pos_amount p)"
  by (simp add: drop_positive_def)

text \<open>The one accounting lemma: a mutation moves the gap by what the account loses.\<close>

lemma mutated_issuance:
  assumes m: "mutated ed who s a s1 s2"
    and ed: "ed < 2 ^ 128"
    and s1: "issuance ed g s1" "account who s1 = account who s"
    and dust: "dust ed a \<le> TotalIssuance s1"
  shows "issuance ed (g + int (tot (account who s)) - int (tot a)) s2"
proof -
  have fin: "finite (dom (stored_data s1))" using s1 by (simp add: issuance_def)
  have st: "stored_data s2 = (stored_data s1)(who := kept ed a)" using m by (rule mutated_stored)
  have "issued s2 + tot (account who s) = issued s1 + (case kept ed a of None \<Rightarrow> 0 | Some b \<Rightarrow> tot b)"
    using msum_upd [OF fin, of tot who "kept ed a"] s1(2) st by (simp add: issued_def flip: tot_at0)
  moreover have "(case kept ed a of None \<Rightarrow> 0 | Some b \<Rightarrow> tot b) + dust ed a = tot a"
    using total_small [OF _ ed, of a] by (simp add: kept_def dust_def)
  ultimately have "issued s2 + tot (account who s) + dust ed a = issued s1 + tot a" by linarith
  moreover have ti: "TotalIssuance s2 + dust ed a = TotalIssuance s1"
    using m dust by (simp add: mutated_def)
  ultimately have "int (TotalIssuance s2) = int (issued s2) + (g + int (tot (account who s)) - int (tot a))"
    using s1(1) by (simp add: issuance_def)
  moreover have "tot (account k s2) = 0 \<or> ed \<le> tot (account k s2)" for k
    using s1(1) mutated_account [OF m, of k] less_total_iff [OF ed, of a]
    by (auto simp: issuance_def kept_def split: if_splits)
  moreover have "finite (dom (Account s2))" using fin st by (simp flip: dom_stored)
  ultimately show ?thesis using s1(1) ti by (simp add: issuance_def)
qed

text \<open>Nothing is burnt of an account that gains.\<close>

lemma mutated_gain:
  assumes "mutated ed who s a s1 s2" "ed < 2 ^ 128" "issuance ed g s1" "account who s1 = account who s"
    and "ed \<le> tot a"
  shows "issuance ed (g + int (tot (account who s)) - int (tot a)) s2"
  using less_total_iff [OF assms(2), of a] assms(5)
  by (intro mutated_issuance [OF assms(1-4)]) (auto simp: dust_def)

text \<open>An account that loses cannot burn more than was issued, as long as the issuance covers it.\<close>

lemma mutated_loss:
  assumes m: "mutated ed who s a s1 s2" "ed < 2 ^ 128" "issuance ed g s1" "account who s1 = account who s"
    and a: "tot a + l \<le> tot (account who s)" "- int l \<le> g"
  shows "issuance ed (g + int (tot (account who s)) - int (tot a)) s2"
proof (rule mutated_issuance [OF m])
  have "dust ed a \<le> tot a" using m(2) by (rule dust_le_tot)
  moreover have "tot (account who s) \<le> issued s1"
    using tot_le_issued [of s1 who] m(3,4) by (simp add: issuance_def)
  moreover have "int (TotalIssuance s1) = int (issued s1) + g" using m(3) by (simp add: issuance_def)
  ultimately show "dust ed a \<le> TotalIssuance s1" using a by linarith
qed


section \<open>What each operation does to the books\<close>

lemma issuance_ED: "issuance ed g s \<Longrightarrow> total (account k s) \<noteq> 0 \<Longrightarrow> ed \<le> tot (account k s)"
  unfolding issuance_def total_eq_0 by (elim conjE allE [of _ k]) simp

lemma issuance_tot_bound: "issuance ed g s \<Longrightarrow> 0 \<le> g \<Longrightarrow> tot (account k s) < 2 ^ 128"
  using tot_le_issued [of s k] unfolding issuance_def by linarith

lemma withdraw_issuance:
  assumes "issuance ed g s" "ed < 2 ^ 128" "- int v \<le> g"
    and "withdraw ed who v reasons liveness s = (Inr n, s')"
  shows "neg_amount n = v \<and> issuance ed (g + int v) s'"
proof (cases "v = 0")
  case True
  then show ?thesis using assms by (auto simp: withdraw_def neg_zero_def)
next
  case False
  from assms(4) False show ?thesis
  proof (cases rule: withdraw_cases)
    case ok
    let ?b = "(account who s)\<lparr>free := free (account who s) - v\<rparr>"
    have t: "tot (account who s) = tot ?b + v" using ok(2) by (simp add: tot_def)
    have "issuance ed (g + int (tot (account who s)) - int (tot ?b)) s'"
      using ok(5) assms(1-3) t by (intro mutated_loss [where l = v]) simp_all
    then show ?thesis using ok(1) t by simp
  qed simp
qed

lemma withdraw_error: "withdraw ed who v reasons liveness s = (Inl e, s') \<Longrightarrow> s' = s"
  by (cases "v = 0") (simp add: withdraw_def, erule withdraw_cases, auto)

lemma deposit_into_existing_issuance:
  assumes "issuance ed g s" "ed < 2 ^ 128" "deposit_into_existing ed who v s = (Inr p, s')"
  shows "pos_amount p = v \<and> issuance ed (g - int v) s'"
proof (cases "v = 0")
  case True
  then show ?thesis using assms by (auto simp: deposit_into_existing_def pos_zero_def)
next
  case False
  from assms(3) False show ?thesis
  proof (cases rule: deposit_into_existing_cases)
    case ok
    let ?b = "(account who s)\<lparr>free := free (account who s) + v\<rparr>"
    have t: "tot ?b = tot (account who s) + v" by (simp add: tot_def)
    have "issuance ed (g + int (tot (account who s)) - int (tot ?b)) s'"
      using ok assms(1,2) t issuance_ED [OF assms(1), of who] by (intro mutated_gain) auto
    then show ?thesis using ok(1) t by simp
  qed simp
qed

lemma deposit_into_existing_error: "deposit_into_existing ed who v s = (Inl e, s') \<Longrightarrow> s' = s"
  by (cases "v = 0") (simp add: deposit_into_existing_def, erule deposit_into_existing_cases, auto)

lemma deposit_creating_issuance:
  assumes "issuance ed g s" "ed < 2 ^ 128" "deposit_creating ed who v s = (p, s')"
  shows "pos_amount p \<le> v \<and> issuance ed (g - int (pos_amount p)) s'"
proof (cases "v = 0")
  case True
  then show ?thesis using assms by (auto simp: deposit_creating_def pos_zero_def)
next
  case False
  from assms(3) False show ?thesis
  proof (cases rule: deposit_creating_cases)
    case none
    then show ?thesis using assms(1) by (simp add: pos_zero_def)
  next
    case ok
    let ?b = "(account who s)\<lparr>free := free (account who s) + v\<rparr>"
    have t: "tot ?b = tot (account who s) + v" by (simp add: tot_def)
    have "issuance ed (g + int (tot (account who s)) - int (tot ?b)) s'"
      using ok assms(1,2) t issuance_ED [OF assms(1), of who] by (intro mutated_gain) auto
    then show ?thesis using ok(1) t by simp
  qed
qed

lemma drop_negative_issuance:
  assumes "issuance ed g s" "int (neg_amount n) \<le> g"
  shows "issuance ed (g - int (neg_amount n)) (drop_negative n s)"
  using assms by (auto simp: issuance_def same_accounts [of "drop_negative n s" s])

lemma drop_positive_issuance:
  assumes "issuance ed g s" "TotalIssuance s + pos_amount p < 2 ^ 128"
  shows "issuance ed (g + int (pos_amount p)) (drop_positive p s)"
  using assms by (auto simp: issuance_def same_accounts [of "drop_positive p s" s] drop_positive_total)


lemma slash_issuance:
  assumes "issuance ed g s" "ed < 2 ^ 128" "0 \<le> g" "v < 2 ^ 128" "slash ed who v s = ((n, rest), s')"
  shows "issuance ed (g + int (neg_amount n)) s' \<and> neg_amount n + rest = v"
proof (cases "v = 0")
  case True
  then show ?thesis using assms by (auto simp: slash_def neg_zero_def)
next
  case False
  note sl = slash_cases [OF assms(5) False assms(4)]
  let ?a = "account who s"
  let ?b = "?a\<lparr>free := free ?a - v, reserved := reserved ?a - (v - free ?a)\<rparr>"
  have t: "tot ?a = tot ?b + neg_amount n" and v: "neg_amount n + rest = v"
    using sl(1,2) by (simp_all add: tot_def min_def) arith?
  have "issuance ed (g + int (tot ?a) - int (tot ?b)) s'"
    using sl(3) assms(1-3) t by (intro mutated_loss [where l = 0]) simp_all
  then show ?thesis using t v by simp
qed

lemma slash_reserved_issuance:
  assumes "issuance ed g s" "ed < 2 ^ 128" "0 \<le> g" "slash_reserved ed who v s = ((n, rest), s')"
  shows "issuance ed (g + int (neg_amount n)) s' \<and> neg_amount n + rest = v"
proof (cases "v = 0")
  case True
  then show ?thesis using assms by (auto simp: slash_reserved_def neg_zero_def)
next
  case False
  note sl = slash_reserved_cases [OF assms(4) False]
  let ?a = "account who s"
  let ?b = "?a\<lparr>reserved := reserved ?a - v\<rparr>"
  have t: "tot ?a = tot ?b + neg_amount n" and v: "neg_amount n + rest = v"
    using sl(1,2) by (simp_all add: tot_def min_def) arith?
  have "issuance ed (g + int (tot ?a) - int (tot ?b)) s'"
    using sl(3) assms(1-3) t by (intro mutated_loss [where l = 0]) simp_all
  then show ?thesis using t v by simp
qed

text \<open>Operations that move value within one account.\<close>

lemma mutated_same:
  assumes "mutated ed who s a s s'" "ed < 2 ^ 128" "issuance ed g s" "0 \<le> g"
    and "tot a = tot (account who s)"
  shows "issuance ed g s'"
  using mutated_loss [OF assms(1-3), of 0] assms(4,5) by simp

lemma reserve_issuance:
  assumes "issuance ed g s" "ed < 2 ^ 128" "0 \<le> g" "reserve ed who v s = (r, s')"
  shows "issuance ed g s'"
proof (cases "v = 0")
  case True
  then show ?thesis using assms by (auto simp: reserve_def)
next
  case False
  from assms(4) False show ?thesis
  proof (cases rule: reserve_cases)
    case ok
    then show ?thesis by (intro mutated_same [OF ok(5) assms(2,1,3)]) (simp add: tot_def)
  qed (use assms in simp)
qed

lemma unreserve_issuance:
  assumes "issuance ed g s" "ed < 2 ^ 128" "0 \<le> g" "unreserve ed who v s = (r, s')"
  shows "issuance ed g s'"
proof (cases "v = 0")
  case True
  then show ?thesis using assms by (auto simp: unreserve_def)
next
  case False
  have "free (account who s) + min (reserved (account who s)) v < 2 ^ 128"
    using issuance_tot_bound [OF assms(1,3), of who] unfolding tot_def by linarith
  then show ?thesis
    by (intro mutated_same [OF unreserve_cases(2) [OF assms(4) False] assms(2,1,3)]) (simp add: tot_def)
qed

lemma transfer_issuance:
  assumes "issuance ed g s" "ed < 2 ^ 128" "0 \<le> g" "transfer ed src dst v req s = (r, s')"
  shows "issuance ed g s'"
proof (cases "v = 0 \<or> src = dst")
  case True
  then show ?thesis using assms by (auto simp: transfer_def)
next
  case False
  then have "v \<noteq> 0" "src \<noteq> dst" by auto
  with assms(4) show ?thesis
  proof (cases rule: transfer_cases)
    case err
    then show ?thesis using assms(1) by simp
  next
    case (ok s1 s2)
    let ?a = "(account src s)\<lparr>free := free (account src s) - v\<rparr>"
    let ?b = "(account dst s)\<lparr>free := free (account dst s) + v\<rparr>"
    have ta: "tot (account src s) = tot ?a + v" and tb: "tot ?b = tot (account dst s) + v"
      using ok(2) by (simp_all add: tot_def)
    have "issuance ed (g + int (tot (account src s)) - int (tot ?a)) s1"
      using ok(7) assms(1-3) ta by (intro mutated_loss [where l = 0]) simp_all
    then have s1: "issuance ed (g + int v) s1" using ta by simp
    have dst: "account dst s1 = account dst s" by (rule account_other [OF ok(7)]) (use False in auto)
    have "ed \<le> tot ?b" using ok(4) less_total_iff [OF assms(2), of ?b] by linarith
    from mutated_gain [OF ok(8) assms(2) s1 dst this] tb have "issuance ed g s2" by simp
    then show ?thesis using ok(9) same_accounts [of s' s2] by (simp add: issuance_def)
  qed
qed

lemma repatriate_issuance:
  assumes "issuance ed g s" "ed < 2 ^ 128" "0 \<le> g" "repatriate_reserved ed src dst v st s = (r, s')"
  shows "issuance ed g s'"
proof (cases "v = 0 \<or> src = dst")
  case True
  then show ?thesis
    using assms unreserve_issuance [OF assms(1-3)]
    by (auto simp: repatriate_reserved_def split: if_splits BalanceStatus.splits prod.splits)
next
  case False
  then have "v \<noteq> 0" "src \<noteq> dst" by auto
  with assms(4) show ?thesis
  proof (cases rule: repatriate_cases)
    case err
    then show ?thesis using assms(1) by simp
  next
    case (ok s1)
    let ?x = "min (reserved (account src s)) v"
    let ?a = "(account src s)\<lparr>reserved := reserved (account src s) - v\<rparr>"
    let ?b = "credited st ?x (account dst s)"
    have ta: "tot (account src s) = tot ?a + ?x" and tb: "tot ?b = tot (account dst s) + ?x"
      by (simp_all add: tot_def credited_def min_def split: BalanceStatus.split)
    have "issuance ed (g + int (tot (account src s)) - int (tot ?a)) s1"
      using ok(5) assms(1-3) ta by (intro mutated_loss [where l = 0]) simp_all
    then have s1: "issuance ed (g + int ?x) s1" using ta by simp
    have dst: "account dst s1 = account dst s" by (rule account_other [OF ok(5)]) (use False in auto)
    have "ed \<le> tot ?b" using issuance_ED [OF assms(1) ok(2)] tb by linarith
    from mutated_gain [OF ok(6) assms(2) s1 dst this] tb show ?thesis by simp
  qed
qed


lemma make_free_balance_be_issuance:
  assumes "issuance ed g s" "ed < 2 ^ 128" "0 \<le> g" "v < 2 ^ 128" "make_free_balance_be ed who v s = (x, s')"
  shows "issuance ed (g - signed_value pos_imb neg_imb x) s'"
  using assms(5)
proof (cases rule: make_free_balance_be_cases)
  case none
  then show ?thesis using assms(1) by (simp add: pos_imb_def pos_zero_def)
next
  case ok
  let ?a = "account who s"
  let ?b = "?a\<lparr>free := v\<rparr>"
  have x: "signed_value pos_imb neg_imb x = int (tot ?b) - int (tot ?a)"
    using ok(1) by (simp add: pos_imb_def neg_imb_def tot_def of_nat_diff)
  have "issuance ed (g + int (tot ?a) - int (tot ?b)) s'"
  proof (cases "free ?a \<le> v")
    case True
    have "wrapping_add 128 v (reserved ?a) \<le> v + reserved ?a" by (simp add: wrapping_add_def)
    with ok(2) issuance_ED [OF assms(1), of who] True have "ed \<le> tot ?b" by (auto simp: tot_def)
    then show ?thesis by (intro mutated_gain [OF ok(3) assms(2,1)]) auto
  next
    case False
    then show ?thesis using assms(3) by (intro mutated_loss [OF ok(3) assms(2,1), of 0]) (auto simp: tot_def)
  qed
  then show ?thesis unfolding x by (simp add: algebra_simps)
qed

lemma update_locks_issuance:
  assumes "issuance ed g s" "ed < 2 ^ 128" "0 \<le> g"
  shows "issuance ed g (update_locks ed who ls s)"
proof -
  obtain s1 where
    m: "mutated ed who s (fold freeze_by ls ((account who s)\<lparr>misc_frozen := 0, fee_frozen := 0\<rparr>)) s s1"
    and sd: "stored_data (update_locks ed who ls s) = stored_data s1 \<or>
      stored_data (update_locks ed who ls s) = (stored_data s1)(who \<mapsto> account who s1)"
    and ti: "TotalIssuance (update_locks ed who ls s) = TotalIssuance s1"
    and fin: "finite (dom (Account (update_locks ed who ls s))) \<longleftrightarrow> finite (dom (Account s1))"
    by (rule update_locks_effect)
  have s1: "issuance ed g s1" by (rule mutated_same [OF m assms(2,1,3)]) (simp add: tot_def)
  then have "finite (dom (stored_data s1))" by (simp add: issuance_def)
  from msum_upd [OF this, of tot who "Some (account who s1)"] sd
  have "issued (update_locks ed who ls s) = issued s1" by (auto simp: issued_def tot_at0)
  moreover have "account k (update_locks ed who ls s) = account k s1" for k
    using sd by (auto simp: account_stored)
  ultimately show ?thesis using s1 ti fin by (simp add: issuance_def)
qed

lemma lock_issuance:
  assumes "issuance ed g s" "ed < 2 ^ 128" "0 \<le> g"
  shows "issuance ed g (set_lock ed i who v r s)" "issuance ed g (extend_lock ed i who v r s)"
    "issuance ed g (remove_lock ed i who s)"
  using assms update_locks_issuance [OF assms]
  by (simp_all add: set_lock_def extend_lock_def remove_lock_def Let_def)

lemma square_up_issuance:
  assumes "issuance ed g s" "TotalIssuance s + new < 2 ^ 128" "old \<le> TotalIssuance s + new"
  shows "issuance ed (g + int new - int old) (square_up new old s)"
    "TotalIssuance (square_up new old s) + old = TotalIssuance s + new"
    "account k (square_up new old s) = account k s"
proof -
  have acc: "Account (square_up new old s) = Account s" by (simp add: square_up_def)
  show ti: "TotalIssuance (square_up new old s) + old = TotalIssuance s + new"
    using assms(2,3) by (simp add: square_up_def drop_positive_total)
  show "account k (square_up new old s) = account k s" using same_accounts [OF acc] by simp
  show "issuance ed (g + int new - int old) (square_up new old s)"
    using assms ti acc same_accounts [OF acc] by (auto simp: issuance_def)
qed

lemma set_balance_issuance:
  assumes "issuance ed g s" "ed < 2 ^ 128" "0 \<le> g" "TotalIssuance s + nf + nr < 2 ^ 128"
    and "call_set_balance ed lookup origin who nf nr s = (r, s')"
  shows "issuance ed g s'"
proof -
  define nf' nr' where "nf' = (if wrapping_add 128 nf nr < ed then 0 else nf)"
    and "nr' = (if wrapping_add 128 nf nr < ed then 0 else nr)"
  let ?f = "\<lambda>a s. let s1 = square_up nf' (free a) s; s2 = square_up nr' (reserved a) s1;
                        a1 = a\<lparr>free := nf', reserved := nr'\<rparr>
                    in ((free a1, reserved a1), a1, s2)"
  show ?thesis
  proof (cases "and_then (ensure_root origin) (\<lambda>_. lookup_or lookup who)")
    case (Inl e)
    then show ?thesis using assms by (simp add: call_set_balance_def)
  next
    case (Inr w)
    let ?a = "account w s"
    let ?s1 = "square_up nf' (free ?a) s"
    let ?s2 = "square_up nr' (reserved ?a) ?s1"
    let ?b = "?a\<lparr>free := nf', reserved := nr'\<rparr>"
    obtain s3 where m: "mutate_account ed w ?f s = ((free ?b, reserved ?b), s3)" "mutated ed w s ?b ?s2 s3"
      by (rule mutate_account_ok [where f = ?f and who = w and s = s]) (auto simp: Let_def)
    have b: "tot ?a \<le> TotalIssuance s"
      using assms(1,3) tot_le_issued [of s w] unfolding issuance_def by linarith
    have new: "TotalIssuance s + nf' + nr' < 2 ^ 128" using assms(4) by (simp add: nf'_def nr'_def)
    have s1: "issuance ed (g + int nf' - int (free ?a)) ?s1"
        "TotalIssuance ?s1 + free ?a = TotalIssuance s + nf'" "account w ?s1 = ?a"
      by (rule square_up_issuance [OF assms(1)]; use b new in \<open>simp add: tot_def\<close>)+
    have s2: "issuance ed (g + int nf' - int (free ?a) + int nr' - int (reserved ?a)) ?s2"
        "TotalIssuance ?s2 + reserved ?a = TotalIssuance ?s1 + nr'" "account w ?s2 = account w ?s1"
      by (rule square_up_issuance [OF s1(1)]; use b new s1(2) in \<open>simp add: tot_def\<close>)+
    have "tot ?b \<le> TotalIssuance ?s2" using s1(2) s2(2) b by (simp add: tot_def)
    then have "dust ed ?b \<le> TotalIssuance ?s2" using dust_le_tot [OF assms(2)] le_trans by blast
    from mutated_issuance [OF m(2) assms(2) s2(1) _ this] s1 s2 have "issuance ed g s3" by (simp add: tot_def)
    then show ?thesis
      using assms(5) Inr m(1) same_accounts [of s' s3] by (auto simp: call_set_balance_def issuance_def Let_def nf'_def nr'_def)
  qed
qed

section \<open>Balances as a currency\<close>

lemma drop_pos_zero_issuance: "issuance ed g s \<Longrightarrow> pos_amount p = 0 \<Longrightarrow> issuance ed g (drop_positive p s)"
  using drop_positive_issuance [of ed g s p] by (simp add: issuance_def)

text \<open>
  The balances module as a provider. The existential deposit has to be a balance; the invariant
  carries that, since an interpretation has no room for a premise.
\<close>

definition balanced :: "nat \<Rightarrow> int \<Rightarrow> ('acc, 'z) bal_scheme \<Rightarrow> bool" where
  "balanced ed g s \<longleftrightarrow> ed < 2 ^ 128 \<and> issuance ed g s"

interpretation cur: currency 128 pos_imb neg_imb "balanced ed" drop_positive drop_negative
  "deposit_into_existing ed" "deposit_creating ed" "withdraw ed"
  for ed
  by unfold_locales
     (auto simp: balanced_def pos_imb_def neg_imb_def dest: drop_negative_issuance drop_pos_zero_issuance
        deposit_into_existing_issuance deposit_into_existing_error deposit_creating_issuance
        withdraw_issuance withdraw_error)

section \<open>Any sequence of operations\<close>

text \<open>
  A configuration is the state and the negative imbalances that callers hold: what they withdrew,
  slashed or had issued and have not yet dropped or paid into an account. A positive imbalance is
  used up by the caller at once (dropped or settled). The guards of the steps that raise the
  issuance say that it stays a 128-bit number; without them the drop handler saturates.
\<close>

inductive account_step ::
  "nat \<Rightarrow> ('src \<Rightarrow> 'acc option) \<Rightarrow> ('acc, 'z) bal_scheme \<Rightarrow> ('acc, 'z) bal_scheme \<Rightarrow> bool"
  for ed lookup where
  transfer: "transfer ed a b v req s = (r, s') \<Longrightarrow> account_step ed lookup s s'"
| call: "call_transfer ed lookup origin to v s = (r, s') \<or>
    call_transfer_keep_alive ed lookup origin to v s = (r, s') \<or>
    call_force_transfer ed lookup origin from to v s = (r, s') \<Longrightarrow> account_step ed lookup s s'"
| set_balance: "call_set_balance ed lookup origin who nf nr s = (r, s') \<Longrightarrow>
    TotalIssuance s + nf + nr < 2 ^ 128 \<Longrightarrow> account_step ed lookup s s'"
| reserve: "reserve ed who v s = (r, s') \<Longrightarrow> account_step ed lookup s s'"
| unreserve: "unreserve ed who v s = (rest, s') \<Longrightarrow> account_step ed lookup s s'"
| repatriate: "repatriate_reserved ed a b v st s = (x, s') \<Longrightarrow> account_step ed lookup s s'"
| set_lock: "account_step ed lookup s (set_lock ed i who v rs s)"
| extend_lock: "account_step ed lookup s (extend_lock ed i who v rs s)"
| remove_lock: "account_step ed lookup s (remove_lock ed i who s)"
| burn: "burn v s = (p, s') \<Longrightarrow> account_step ed lookup s (drop_positive p s')"
| burn_settle: "burn v s = (p, s1) \<Longrightarrow>
    settle pos_imb drop_positive drop_negative (withdraw ed) who p rs l s1 = (r, s2) \<Longrightarrow>
    s' = (case r of Inr _ \<Rightarrow> s2 | Inl p' \<Rightarrow> drop_positive p' s2) \<Longrightarrow> account_step ed lookup s s'"
| deposit_creating: "deposit_creating ed who v s = (p, s') \<Longrightarrow> TotalIssuance s + v < 2 ^ 128 \<Longrightarrow>
    account_step ed lookup s (drop_positive p s')"
| deposit_existing: "deposit_into_existing ed who v s = (r, s1) \<Longrightarrow> TotalIssuance s + v < 2 ^ 128 \<Longrightarrow>
    s' = (case r of Inr p \<Rightarrow> drop_positive p s1 | Inl _ \<Rightarrow> s1) \<Longrightarrow> account_step ed lookup s s'"
| make_free: "make_free_balance_be ed who v s = (x, s') \<Longrightarrow> TotalIssuance s + v < 2 ^ 128 \<Longrightarrow>
    account_step ed lookup s (drop_signed x s')"
| account_info: "s' = inc_ref default_data who s \<or> s' = dec_ref default_data who s \<or>
    s' = inc_account_nonce default_data who s \<Longrightarrow> account_step ed lookup s s'"

text \<open>The steps that create, use up or rearrange outstanding imbalances.\<close>

inductive currency_step ::
  "nat \<Rightarrow> ('src \<Rightarrow> 'acc option) \<Rightarrow> ('acc, 'z) bal_scheme \<times> NegativeImbalance list \<Rightarrow>
   ('acc, 'z) bal_scheme \<times> NegativeImbalance list \<Rightarrow> bool"
  for ed lookup where
  account: "account_step ed lookup s s' \<Longrightarrow> currency_step ed lookup (s, ns) (s', ns)"
| withdraw: "withdraw ed who v rs l s = (r, s') \<Longrightarrow>
    currency_step ed lookup (s, ns) (s', case r of Inr n \<Rightarrow> n # ns | Inl _ \<Rightarrow> ns)"
| slash: "slash ed who v s = ((n, rest), s') \<Longrightarrow> v < 2 ^ 128 \<Longrightarrow> currency_step ed lookup (s, ns) (s', n # ns)"
| slash_reserved: "slash_reserved ed who v s = ((n, rest), s') \<Longrightarrow> currency_step ed lookup (s, ns) (s', n # ns)"
| issue: "issue v s = (n, s') \<Longrightarrow> currency_step ed lookup (s, ns) (s', n # ns)"
| drop: "currency_step ed lookup (s, n # ns) (drop_negative n s, ns)"
| resolve_creating: "currency_step ed lookup (s, n # ns)
    (resolve_creating neg_imb drop_negative drop_positive (deposit_creating ed) who n s, ns)"
| resolve_existing: "resolve_into_existing neg_imb drop_negative drop_positive (deposit_into_existing ed) who n s = (r, s') \<Longrightarrow>
    currency_step ed lookup (s, n # ns) (s', case r of Inr _ \<Rightarrow> ns | Inl n' \<Rightarrow> n' # ns)"
| split: "neg_split n v = (n1, n2) \<Longrightarrow> currency_step ed lookup (s, n # ns) (s, n1 # n2 # ns)"
| merge: "currency_step ed lookup (s, n # n' # ns) (s, neg_merge n n' # ns)"
| reorder: "mset ns = mset ns' \<Longrightarrow> currency_step ed lookup (s, ns) (s, ns')"

inductive currency_reachable ::
  "nat \<Rightarrow> ('src \<Rightarrow> 'acc option) \<Rightarrow> ('acc \<times> nat) list \<Rightarrow> ('acc, 'z) bal_scheme \<times> NegativeImbalance list \<Rightarrow> bool"
  for ed lookup balances where
  genesis: "balances_genesis ed balances s0 = Some s \<Longrightarrow> Account s0 = Map.empty \<Longrightarrow>
    currency_reachable ed lookup balances (s, [])"
| step: "currency_reachable ed lookup balances c \<Longrightarrow> currency_step ed lookup c c' \<Longrightarrow> currency_reachable ed lookup balances c'"

definition held :: "NegativeImbalance list \<Rightarrow> nat" where
  "held ns = sum_list (map neg_amount ns)"

lemma held_simps [simp]: "held [] = 0" "held (n # ns) = neg_amount n + held ns"
  by (simp_all add: held_def)

lemma held_mset: "mset ns = mset ns' \<Longrightarrow> held ns = held ns'"
  unfolding held_def by (metis mset_map sum_mset_sum_list)

lemma account_info_issuance:
  assumes "issuance ed g s"
    and "s' = inc_ref default_data who s \<or> s' = dec_ref default_data who s \<or> s' = inc_account_nonce default_data who s"
  shows "issuance ed g s'"
proof -
  have sd: "stored_data s' = (stored_data s)(who \<mapsto> account who s)" and ti: "TotalIssuance s' = TotalIssuance s"
    using assms(2) by (auto simp: inc_ref_def dec_ref_def inc_account_nonce_def account_mutate_eq stored_data_def
        account_def stored_get_def)
  have fin: "finite (dom (stored_data s))" using assms(1) by (simp add: issuance_def)
  with sd have "finite (dom (stored_data s'))" by simp
  moreover have "issued s' = issued s"
    using msum_upd [OF fin, of tot who "Some (account who s)"] sd by (simp add: issued_def tot_at0)
  moreover have "account k s' = account k s" for k using sd by (auto simp: account_stored)
  ultimately show ?thesis using assms(1) ti by (simp add: issuance_def)
qed

lemma burn_issuance:
  assumes "issuance ed g s" "burn v s = (p, s')"
  shows "issuance ed (g - int (pos_amount p)) s' \<and> TotalIssuance s' + pos_amount p = TotalIssuance s"
proof -
  have "Account s' = Account s" and "TotalIssuance s' + pos_amount p = TotalIssuance s"
    using assms(2) by (auto simp: burn_def pos_zero_def Let_def split: if_splits option.splits)
  then show ?thesis using assms(1) same_accounts [of s' s] by (auto simp: issuance_def)
qed

lemma issue_issuance:
  assumes "issuance ed g s" "issue v s = (n, s')"
  shows "issuance ed (g + int (neg_amount n)) s'"
proof -
  have ti: "TotalIssuance s < 2 ^ 128" using assms(1) by (simp add: issuance_def)
  have "Account s' = Account s" and "TotalIssuance s' = TotalIssuance s + neg_amount n" "TotalIssuance s' < 2 ^ 128"
    using assms(2) ti by (auto simp: issue_def neg_zero_def u_max_def Let_def split: if_splits option.splits)
  then show ?thesis using assms(1) same_accounts [of s' s] by (auto simp: issuance_def)
qed

text \<open>Dropping the positive imbalance an operation returned closes the gap it opened.\<close>

lemma drop_back:
  assumes "balanced ed (g - int (pos_amount p)) s'" "TotalIssuance s' + pos_amount p < 2 ^ 128"
  shows "balanced ed g (drop_positive p s')"
  using assms drop_positive_issuance [of ed "g - int (pos_amount p)" s' p] by (simp add: balanced_def)

lemma deposit_total_issuance:
  "deposit_creating ed who v s = (p, s') \<Longrightarrow> TotalIssuance s' \<le> TotalIssuance s"
  "deposit_into_existing ed who v s = (r, s') \<Longrightarrow> TotalIssuance s' \<le> TotalIssuance s"
  "make_free_balance_be ed who v s = (x, s') \<Longrightarrow> TotalIssuance s' \<le> TotalIssuance s"
  by (cases "v = 0", simp add: deposit_creating_def, erule deposit_creating_cases, simp, simp, simp add: mutated_def)
     (cases "v = 0", simp add: deposit_into_existing_def, erule deposit_into_existing_cases, simp, simp, simp add: mutated_def,
      erule make_free_balance_be_cases, simp, simp add: mutated_def)

lemma call_transfer_cases:
  assumes "call_transfer ed lookup origin to v s = (r, s') \<or>
    call_transfer_keep_alive ed lookup origin to v s = (r, s') \<or>
    call_force_transfer ed lookup origin from to v s = (r, s')"
  obtains (refused) "s' = s" | (transfer) a b req where "transfer ed a b v req s = (r, s')"
  using assms
  by (auto simp: call_transfer_def call_transfer_keep_alive_def call_force_transfer_def split: sum.splits)

lemma stored_insert_effect:
  "stored_data (stored_insert d k x s) = (stored_data s)(k \<mapsto> x)"
  "TotalIssuance (stored_insert d k x s) = TotalIssuance s"
  by (auto simp: stored_insert_def account_mutate_eq stored_data_def on_created_account_def Let_def)

definition endow :: "('acc, 'z) bal_scheme \<Rightarrow> 'acc \<times> nat \<Rightarrow> ('acc, 'z) bal_scheme" where
  "endow s x = stored_insert default_data (fst x) (default_data\<lparr>free := snd x\<rparr>) s"

text \<open>The sum of the endowments of fresh accounts.\<close>

lemma endow_all:
  assumes "finite (dom (Account s))" "distinct (map fst bs)"
    and "\<forall>x\<in>set bs. stored_data s (fst x) = None \<and> ed \<le> snd x"
    and "\<forall>k. tot (account k s) = 0 \<or> ed \<le> tot (account k s)"
  shows "finite (dom (Account (foldl endow s bs))) \<and>
    (\<forall>k. tot (account k (foldl endow s bs)) = 0 \<or> ed \<le> tot (account k (foldl endow s bs))) \<and>
    issued (foldl endow s bs) = issued s + sum_list (map snd bs) \<and>
    TotalIssuance (foldl endow s bs) = TotalIssuance s"
  using assms
proof (induction bs arbitrary: s)
  case Nil
  then show ?case by simp
next
  case (Cons x bs)
  let ?d = "default_data\<lparr>free := snd x\<rparr>"
  have sd: "stored_data (endow s x) = (stored_data s)(fst x \<mapsto> ?d)"
    and ti: "TotalIssuance (endow s x) = TotalIssuance s"
    by (simp_all add: endow_def stored_insert_effect)
  have d: "tot ?d = snd x" by (simp add: tot_def default_data_def)
  have fin: "finite (dom (stored_data s))" using Cons.prems(1) by simp
  have "msum tot (stored_data (endow s x)) = msum tot (stored_data s) + snd x"
    using msum_upd [OF fin, of tot "fst x" "Some ?d"] Cons.prems(3) sd d by simp
  moreover have "finite (dom (Account (endow s x)))" using fin sd by (simp flip: dom_stored)
  moreover have "tot (account k (endow s x)) = 0 \<or> ed \<le> tot (account k (endow s x))" for k
    using Cons.prems(3,4) d by (simp add: account_stored sd)
  moreover have "\<forall>y\<in>set bs. stored_data (endow s x) (fst y) = None \<and> ed \<le> snd y"
    using Cons.prems(2,3) sd by (auto simp: image_iff)
  ultimately show ?case using Cons.IH [of "endow s x"] Cons.prems(2) ti by (simp add: issued_def)
qed

lemma foldl_wrapping_sum:
  "a + sum_list (map snd bs) < 2 ^ w \<Longrightarrow> foldl (\<lambda>acc x. wrapping_add w acc (snd x)) a bs = a + sum_list (map snd bs)"
  by (induction bs arbitrary: a) (simp_all add: add.assoc)

lemma genesis_issuance:
  assumes g: "balances_genesis ed balances s0 = Some s" "Account s0 = Map.empty"
    and b: "distinct (map fst balances)" "sum_list (map snd balances) < 2 ^ 128"
  shows "issuance ed 0 s"
proof -
  let ?s1 = "s0\<lparr>TotalIssuance := sum_list (map snd balances)\<rparr>"
  have s: "s = foldl endow ?s1 balances" and ed: "\<forall>x\<in>set balances. ed \<le> snd x"
    using g(1) foldl_wrapping_sum [of 0 balances 128] b(2)
    by (auto simp: balances_genesis_def endow_def [abs_def] Let_def list_all_iff split: if_splits)
  have "finite (dom (Account s)) \<and> (\<forall>k. tot (account k s) = 0 \<or> ed \<le> tot (account k s)) \<and>
    issued s = issued ?s1 + sum_list (map snd balances) \<and> TotalIssuance s = TotalIssuance ?s1"
    unfolding s using ed g(2) b(1) by (intro endow_all) (simp_all add: stored_data_def account_stored)
  moreover have "issued ?s1 = 0" using g(2) by (simp add: issued_def msum_def dom_stored)
  ultimately show ?thesis using b(2) by (simp add: issuance_def)
qed


lemma burn_balanced:
  assumes "balanced ed g s" "burn v s = (p, s')"
  shows "balanced ed (g - int (pos_amount p)) s' \<and> TotalIssuance s' + pos_amount p < 2 ^ 128"
  using burn_issuance [OF _ assms(2)] assms(1) by (auto simp: balanced_def issuance_def)

lemma make_free_balanced:
  assumes "balanced ed g s" "0 \<le> g" "make_free_balance_be ed who v s = (x, s')" "TotalIssuance s + v < 2 ^ 128"
  shows "balanced ed g (drop_signed x s')"
proof -
  have i: "issuance ed (g - signed_value pos_imb neg_imb x) s'" and ed: "ed < 2 ^ 128"
    using make_free_balance_be_issuance [OF _ _ assms(2) _ assms(3)] assms(1,4) by (auto simp: balanced_def)
  note ti = deposit_total_issuance(3) [OF assms(3)]
  show ?thesis
  proof (cases x)
    case (Positive p)
    then have "pos_amount p \<le> v"
      using assms(3) by (auto elim!: make_free_balance_be_cases simp: pos_zero_def split: if_splits)
    then show ?thesis using i ed ti assms(4) Positive
      by (auto simp: drop_signed_def pos_imb_def balanced_def intro!: drop_back [unfolded balanced_def, THEN conjunct2])
  next
    case (Negative n)
    then show ?thesis using i ed assms(2) drop_negative_issuance [of ed "g + int (neg_amount n)" s' n]
      by (simp add: drop_signed_def neg_imb_def balanced_def)
  qed
qed

text \<open>Every step keeps the books.\<close>

lemma account_step_balanced:
  assumes "account_step ed lookup s s'" "balanced ed g s" "0 \<le> g"
  shows "balanced ed g s'"
proof -
  have i: "issuance ed g s" "ed < 2 ^ 128" "0 \<le> g" and ed: "ed < 2 ^ 128"
    using assms(2,3) by (auto simp: balanced_def)
  from assms(1) show ?thesis
  proof cases
    case (call origin to v r "from")
    then show ?thesis
      by (rule call_transfer_cases) (use assms in \<open>auto simp: balanced_def intro: transfer_issuance\<close>)
  next
    case (burn v p s')
    then show ?thesis using burn_balanced [OF assms(2)] by (auto intro: drop_back)
  next
    case (burn_settle v p s1 who rs l r s2)
    note b = burn_balanced [OF assms(2) burn_settle(1)]
    from cur.settle_books [OF _ _ burn_settle(2), of "g - int (pos_amount p)"] b burn_settle(3) assms(3)
    show ?thesis by (auto simp: pos_imb_def intro!: drop_back)
  next
    case (deposit_creating who v p s1)
    then show ?thesis
      using deposit_creating_issuance [of ed g s who v p s1] deposit_total_issuance(1) assms(2)
      by (fastforce simp: balanced_def intro: drop_back [unfolded balanced_def, THEN conjunct2])
  next
    case (deposit_existing who v r s1)
    then show ?thesis
      using deposit_into_existing_issuance [of ed g s who v _ s1] deposit_total_issuance(2)
        deposit_into_existing_error assms(2)
      by (fastforce simp: balanced_def intro: drop_back [unfolded balanced_def, THEN conjunct2] split: sum.splits)
  next
    case (make_free who v x s1)
    then show ?thesis using make_free_balanced [OF assms(2,3)] by metis
  next
    case (account_info who)
    then show ?thesis using assms(2) account_info_issuance [OF _ account_info] by (simp add: balanced_def)
  next
    case (set_balance origin who nf nr r)
    show ?thesis using set_balance_issuance [OF i set_balance(2,1)] ed by (simp add: balanced_def)
  qed (use lock_issuance [OF i] transfer_issuance [OF i] reserve_issuance [OF i] unreserve_issuance [OF i]
        repatriate_issuance [OF i] ed in \<open>auto simp: balanced_def\<close>)
qed

lemma step_balanced:
  assumes "currency_step ed lookup c c'" "balanced ed (int (held (snd c))) (fst c)"
  shows "balanced ed (int (held (snd c'))) (fst c')"
  using assms(1)
proof cases
  case (account s s' ns)
  then show ?thesis using assms(2) account_step_balanced by fastforce
next
  case (withdraw who v rs l s r s' ns)
  then show ?thesis using assms(2) withdraw_error [of ed who v rs l s _ s']
      withdraw_issuance [of ed "int (held ns)" s v who rs l _ s']
    by (fastforce simp: balanced_def add.commute split: sum.split)
next
  case (resolve_creating s n ns who)
  then show ?thesis
    using assms(2) cur.resolve_creating_books [of ed "int (held (n # ns))" s n who] by (simp add: neg_imb_def)
next
  case (resolve_existing who n s r s' ns)
  then show ?thesis
    using assms(2) cur.resolve_into_existing_books [of ed "int (held (n # ns))" s n who r s']
    by (auto simp: neg_imb_def)
next
  case (split n v n1 n2 s ns)
  then show ?thesis using assms(2) by (auto simp: neg_split_def Let_def)
next
  case (merge s n n' ns)
  then have "neg_amount n + neg_amount n' < 2 ^ 128" using assms(2) by (simp add: balanced_def issuance_def)
  then show ?thesis using merge assms(2) by (simp add: neg_merge_def add.assoc)
next
  case (reorder ns ns' s)
  then show ?thesis using assms(2) held_mset [of ns ns'] by simp
next
  case (drop s n ns)
  then show ?thesis
    using assms(2) drop_negative_issuance [of ed "int (held (n # ns))" s n] by (simp add: balanced_def)
qed (use assms(2) slash_issuance slash_reserved_issuance issue_issuance in
     \<open>fastforce simp: balanced_def add.commute\<close>)+

lemma reachable_balanced:
  assumes "currency_reachable ed lookup balances c" "distinct (map fst balances)"
    and "sum_list (map snd balances) < 2 ^ 128" "ed < 2 ^ 128"
  shows "balanced ed (int (held (snd c))) (fst c)"
  using assms(1)
proof induction
  case (genesis s0 s)
  then show ?case using genesis_issuance assms(2-4) by (simp add: balanced_def)
next
  case (step c c')
  then show ?case using step_balanced by blast
qed

text \<open>
  C1. Conservation of the currency: after any sequence of transfers, deposits, withdrawals, slashes,
  reservations, locks, root corrections and uses of imbalances, in any order, the total issuance is
  exactly what all accounts hold plus the imbalances still outstanding, it has not overflowed, and
  every account is empty or holds at least the existential deposit.
\<close>

theorem issuance_conserved:
  assumes "currency_reachable ed lookup balances (s, ns)" "distinct (map fst balances)"
    and "sum_list (map snd balances) < 2 ^ 128" "ed < 2 ^ 128"
  shows "TotalIssuance s = issued s + held ns \<and> TotalIssuance s < 2 ^ 128 \<and>
    (\<forall>who. total_balance who s = 0 \<or> ed \<le> total_balance who s)"
proof -
  have i: "issuance ed (int (held ns)) s"
    using reachable_balanced [OF assms] by (simp add: balanced_def)
  have "total_balance who s = tot (account who s)" for who
    unfolding total_balance_def by (rule total_exact) (rule issuance_tot_bound [OF i], simp)
  with i show ?thesis unfolding issuance_def by simp
qed

definition empty_bal :: "'acc bal" where
  "empty_bal = \<lparr>Account = Map.empty, ExtrinsicCount = None, AllExtrinsicsWeight = None,
     AllExtrinsicsLen = None, BlockHash = Map.empty, ExtrinsicData = Map.empty, Number = 1,
     ParentHash = 0, ExtrinsicsRoot = 0, Digest = [], Events = [], EventCount = 0,
     EventTopics = Map.empty, ExtrinsicIndex = None, TotalIssuance = 0, Locks = Map.empty\<rparr>"

lemma empty_bal_account [simp]: "Account empty_bal = Map.empty"
  by (simp add: empty_bal_def)

theorem issuance_conserved_witness:
  "\<exists>s :: nat bal. currency_reachable 10 Some [(1, 100), (2, 50)] (s, [NegativeImbalance 30]) \<and>
     TotalIssuance s = issued s + 30"
proof -
  let ?bs = "[(1, 100), (2, 50)] :: (nat \<times> nat) list"
  let ?s0 = "(empty_bal :: nat bal)\<lparr>TotalIssuance := foldl (\<lambda>acc x. wrapping_add 128 acc (snd x)) 0 ?bs\<rparr>"
  let ?s = "foldl endow ?s0 ?bs"
  have g: "balances_genesis 10 ?bs (empty_bal :: nat bal) = Some ?s"
    by (simp add: balances_genesis_def endow_def Let_def)
  have a: "account 1 ?s = default_data\<lparr>free := 100\<rparr>"
    by (simp add: account_stored endow_def stored_insert_effect)
  have r: "currency_reachable 10 Some ?bs (?s, [])"
    by (rule currency_reachable.genesis [OF g]) simp
  obtain n rest s' where sl: "slash 10 1 30 ?s = ((n, rest), s')" by (cases "slash 10 1 30 ?s") auto
  have n: "n = NegativeImbalance 30" using slash_cases(1) [OF sl] a by (simp add: default_data_def)
  have "currency_reachable 10 Some ?bs (s', [n])"
    by (rule currency_reachable.step [OF r], rule currency_step.slash [OF sl]) simp
  then have r': "currency_reachable 10 Some ?bs (s', [NegativeImbalance 30])" using n by simp
  have "TotalIssuance s' = issued s' + held [NegativeImbalance 30]"
    using issuance_conserved [OF r'] by simp
  with r' show ?thesis by (intro exI [of _ s']) simp
qed

end
