(* ===== verification/Balances_Props.thy ===== *)
theory Balances_Props
  imports Issuance
begin

text \<open>
  What the operations of the balances module do, stated for their callers: transfers, slashes,
  reservations and locks, the errors, and the places where the code does something else than its
  comments say.
\<close>

section \<open>A sample state\<close>

text \<open>Two accounts with balances 100 and 50, for the examples.\<close>

definition sample :: "nat bal" where
  "sample = empty_bal\<lparr>TotalIssuance := 150,
     Account := [1 \<mapsto> \<lparr>nonce = 0, refcount = 0, data = default_data\<lparr>free := 100\<rparr>\<rparr>,
                 2 \<mapsto> \<lparr>nonce = 0, refcount = 0, data = default_data\<lparr>free := 50\<rparr>\<rparr>]\<rparr>"

lemma sample_simps [simp]:
  "account 1 sample = default_data\<lparr>free := 100\<rparr>"
  "account (Suc 0) sample = default_data\<lparr>free := 100\<rparr>"
  "account 2 sample = default_data\<lparr>free := 50\<rparr>"
  "account 3 sample = default_data"
  "Locks sample = Map.empty"
  "allow_death default_data who sample"
  by (simp_all add: sample_def account_stored stored_data_def empty_bal_def allow_death_def account_get_def
      sm_get_def account_query_def default_account_def)

section \<open>Transfers\<close>

text \<open>The data an account shows after a mutation to \<open>a\<close>: none if it is reaped.\<close>

definition shown :: "nat \<Rightarrow> AccountData \<Rightarrow> AccountData" where
  "shown ed a = (if total a < ed then default_data else a)"

lemma mutated_shown:
  "mutated ed who s a s1 s2 \<Longrightarrow> account k s2 = (if k = who then shown ed a else account k s1)"
  by (simp add: mutated_account shown_def kept_def)

lemma reasons_transfer: "reasons_from 2 = Reasons_Misc" "reasons_from 4 = Reasons_Misc"
  by (simp_all add: reasons_from_def reasons_contains_def)

lemma transfer_success:
  assumes "v \<noteq> 0" "src \<noteq> dst"
    and c: "v + misc_frozen (account src s) \<le> free (account src s)" "free (account dst s) + v < 2 ^ 128"
      "ed \<le> total ((account dst s)\<lparr>free := free (account dst s) + v\<rparr>)"
      "req = AllowDeath \<and> allow_death default_data src s \<or> ed + v \<le> free (account src s)"
  shows "\<exists>s'. transfer ed src dst v req s = (Ok (), s')"
proof -
  let ?b = "(account dst s)\<lparr>free := free (account dst s) + v\<rparr>"
  let ?f = "\<lambda>to_account s. case try_mutate_account ed src (transfer_debit ed src v req to_account) s of
                       (Inl e, s1) \<Rightarrow> (Err e, to_account, s1)
                     | (Inr to1, s1) \<Rightarrow> (Ok (), to1, s1)"
  have "transfer_debit ed src v req (account dst s) (account src s) s =
      (Inr ?b, (account src s)\<lparr>free := free (account src s) - v\<rparr>, s)"
    using c assms(1) by (auto simp: transfer_debit_def ensure_can_withdraw_def frozen_def reasons_transfer
        checked_sub_def checked_add_def ensure_def Let_def)
  from try_mutate_account_ok [where f = "transfer_debit ed src v req (account dst s)" and ed = ed, OF this]
  obtain s1 where "try_mutate_account ed src (transfer_debit ed src v req (account dst s)) s = (Inr ?b, s1)" by blast
  then have "?f (account dst s) s = (Inr (), ?b, s1)" by simp
  from try_mutate_account_ok [where f = ?f and ed = ed, OF this]
  obtain s2 where "try_mutate_account ed dst ?f s = (Inr (), s2)" by blast
  then show "\<exists>s'. transfer ed src dst v req s = (Ok (), s')" using assms by (simp add: transfer_def)
qed

text \<open>
  C3. A successful transfer takes the amount from the sender and gives it to the destination, leaves
  every other account alone, and respects the sender's locks; the sender is reaped when what is left
  is below the existential deposit, and exactly that remainder leaves the issuance.
\<close>

theorem transfer_moves:
  assumes "transfer ed src dst v req s = (Ok (), s')" "v \<noteq> 0" "src \<noteq> dst"
  shows "account dst s' = (account dst s)\<lparr>free := free (account dst s) + v\<rparr> \<and>
    account src s' = shown ed ((account src s)\<lparr>free := free (account src s) - v\<rparr>) \<and>
    (\<forall>k. k \<noteq> src \<and> k \<noteq> dst \<longrightarrow> account k s' = account k s) \<and>
    v + misc_frozen (account src s) \<le> free (account src s) \<and>
    TotalIssuance s' = TotalIssuance s - dust ed ((account src s)\<lparr>free := free (account src s) - v\<rparr>) \<and>
    Locks s' = Locks s"
  using assms
proof (cases rule: transfer_cases)
  case (ok s1 s2)
  let ?b = "(account dst s)\<lparr>free := free (account dst s) + v\<rparr>"
  have "account k s' = account k s2" for k using ok(9) same_accounts(2) [of s' s2] by simp
  moreover have "shown ed ?b = ?b" "dust ed ?b = 0" using ok(4) by (simp_all add: shown_def dust_def)
  moreover have "misc_frozen (account src s) \<le> free (account src s) - v"
    using ok(5) by (simp add: frozen_def reasons_transfer)
  then have "v + misc_frozen (account src s) \<le> free (account src s)" using ok(2) by linarith
  ultimately show ?thesis
    using mutated_shown [OF ok(7)] mutated_shown [OF ok(8)] ok(7-9) assms(3)
    by (simp add: mutated_def)
qed simp

text \<open>
  C4. A transfer goes through exactly when the sender has the amount beyond what is frozen, the
  destination can hold it and ends above the existential deposit, and the sender either keeps the
  existential deposit free or may die.
\<close>

theorem transfer_succeeds_iff:
  assumes "v \<noteq> 0" "src \<noteq> dst"
  shows "(\<exists>s'. transfer ed src dst v req s = (Ok (), s')) \<longleftrightarrow>
    v + misc_frozen (account src s) \<le> free (account src s) \<and>
    free (account dst s) + v < 2 ^ 128 \<and>
    ed \<le> total ((account dst s)\<lparr>free := free (account dst s) + v\<rparr>) \<and>
    (req = AllowDeath \<and> allow_death default_data src s \<or> ed + v \<le> free (account src s))"
    (is "_ \<longleftrightarrow> ?C")
proof
  assume "\<exists>s'. transfer ed src dst v req s = (Ok (), s')"
  then obtain s' where t: "transfer ed src dst v req s = (Ok (), s')" by blast
  from t assms show ?C
    by (cases rule: transfer_cases) (auto simp: frozen_def reasons_transfer)
next
  assume ?C
  then show "\<exists>s'. transfer ed src dst v req s = (Ok (), s')" using transfer_success [OF assms] by blast
qed

theorem transfer_succeeds_iff_witness:
  "(\<exists>s'. transfer 10 1 2 40 AllowDeath sample = (Ok (), s')) \<and>
   \<not> (\<exists>s'. transfer 10 1 3 5 AllowDeath sample = (Ok (), s'))"
  using transfer_succeeds_iff [of 40 1 2 10 AllowDeath sample] transfer_succeeds_iff [of 5 1 3 10 AllowDeath sample]
  by (simp add: default_data_def total_def)

theorem transfer_moves_witness:
  "\<exists>s'. transfer 10 1 2 40 AllowDeath sample = (Ok (), s') \<and> free_balance 2 s' = 90 \<and> free_balance 1 s' = 60"
proof -
  obtain s' where t: "transfer 10 1 2 40 AllowDeath sample = (Ok (), s')"
    using transfer_success [of 40 1 2 sample 10 AllowDeath] by (auto simp: default_data_def total_def)
  from transfer_moves [OF t] t show ?thesis
    by (auto simp: free_balance_def shown_def total_def default_data_def)
qed

section \<open>Errors\<close>

text \<open>
  C2. A refused operation changes nothing: dispatchables are not rolled back, so every fallible
  operation has to leave the state as it found it when it returns an error.
\<close>

theorem errors_change_nothing:
  "(transfer ed a b v req s = (Err e1, s1) \<longrightarrow> s1 = s) \<and>
   (withdraw ed who v rs l s = (Err e2, s2) \<longrightarrow> s2 = s) \<and>
   (reserve ed who v s = (Err e3, s3) \<longrightarrow> s3 = s) \<and>
   (deposit_into_existing ed who v s = (Err e4, s4) \<longrightarrow> s4 = s) \<and>
   (repatriate_reserved ed a b v st s = (Err e5, s5) \<longrightarrow> s5 = s) \<and>
   (call_set_balance ed lookup origin x nf nr s = (Err e6, s6) \<longrightarrow> s6 = s)"
proof (intro conjI impI)
  assume "transfer ed a b v req s = (Err e1, s1)"
  then show "s1 = s"
    by (cases "v = 0 \<or> a = b") (simp add: transfer_def, auto elim: transfer_cases)
next
  assume "reserve ed who v s = (Err e3, s3)"
  then show "s3 = s" by (cases "v = 0") (simp add: reserve_def, auto elim: reserve_cases)
next
  assume r: "repatriate_reserved ed a b v st s = (Err e5, s5)"
  then have "v \<noteq> 0" "a \<noteq> b"
    by (auto simp: repatriate_reserved_def split: BalanceStatus.splits prod.splits if_splits)
  with r show "s5 = s" by (cases rule: repatriate_cases) simp_all
next
  assume "call_set_balance ed lookup origin x nf nr s = (Err e6, s6)"
  then show "s6 = s" by (auto simp: call_set_balance_def Let_def split: sum.splits prod.splits)
qed (blast dest: withdraw_error deposit_into_existing_error)+

theorem errors_change_nothing_witness:
  "\<exists>s'. transfer 10 1 2 500 AllowDeath sample = (Err (Module_Balances InsufficientBalance), s') \<and> s' = sample"
proof -
  have "transfer_debit 10 1 500 AllowDeath (account 2 sample) (account 1 sample) sample =
      (Err (Module_Balances InsufficientBalance), account 1 sample, sample)"
    by (simp add: transfer_debit_def default_data_def checked_sub_def)
  from try_mutate_account_err [where f = "transfer_debit 10 1 500 AllowDeath (account 2 sample)" and ed = 10, OF this]
  have i: "try_mutate_account 10 1 (transfer_debit 10 1 500 AllowDeath (account 2 sample)) sample =
      (Err (Module_Balances InsufficientBalance), sample)" .
  let ?f = "\<lambda>to_account s. case try_mutate_account 10 1 (transfer_debit 10 1 500 AllowDeath to_account) s of
                       (Inl e, s1) \<Rightarrow> (Err e, to_account, s1)
                     | (Inr to1, s1) \<Rightarrow> (Ok (), to1, s1)"
  have "?f (account 2 sample) sample = (Err (Module_Balances InsufficientBalance), account 2 sample, sample)"
    unfolding i by simp
  from try_mutate_account_err [where f = ?f and ed = 10, OF this] obtain s' where
    "transfer 10 1 2 500 AllowDeath sample = (Err (Module_Balances InsufficientBalance), s')"
    by (simp add: transfer_def)
  moreover from errors_change_nothing [THEN conjunct1, rule_format, OF this] have "s' = sample" .
  ultimately show ?thesis by blast
qed

section \<open>Slashing and reserving\<close>

text \<open>
  C7. A slash takes exactly as much as there is, up to the amount asked for, from the free balance
  first and the reserved balance after it, and reports the rest; what is below the existential
  deposit afterwards is reaped. No other account changes.
\<close>

theorem slash_takes_free_first:
  assumes "slash ed who v s = ((n, rest), s')" "v < 2 ^ 128" "v \<noteq> 0"
  shows "neg_amount n = min v (free_balance who s + reserved_balance who s) \<and>
    neg_amount n + rest = v \<and>
    account who s' = shown ed ((account who s)\<lparr>free := free_balance who s - v,
      reserved := reserved_balance who s - (v - free_balance who s)\<rparr>) \<and>
    (\<forall>k. k \<noteq> who \<longrightarrow> account k s' = account k s)"
  using slash_cases [OF assms(1,3,2)] mutated_shown [OF slash_cases(3) [OF assms(1,3,2)]]
  by (auto simp: free_balance_def reserved_balance_def)

theorem slash_takes_free_first_witness:
  "\<exists>n rest s'. slash 10 2 80 sample = ((n, rest), s') \<and> neg_amount n = 50 \<and> rest = 30"
proof -
  obtain n rest s' where sl: "slash 10 2 80 sample = ((n, rest), s')" by (metis prod.exhaust)
  from slash_takes_free_first [OF sl] sl show ?thesis
    by (auto simp: free_balance_def reserved_balance_def default_data_def)
qed

lemma reserve_success:
  assumes "v \<noteq> 0" "v + misc_frozen (account who s) \<le> free (account who s)"
    "reserved (account who s) + v < 2 ^ 128"
  shows "\<exists>s'. reserve ed who v s = (Ok (), s')"
proof -
  let ?f = "\<lambda>a s. case checked_sub (free a) v of
          None \<Rightarrow> (Err (Module_Balances InsufficientBalance), a, s)
        | Some f \<Rightarrow>
            let a1 = a\<lparr>free := f\<rparr> in
            case checked_add 128 (reserved a1) v of
              None \<Rightarrow> (Err (Module_Balances Overflow), a1, s)
            | Some r \<Rightarrow>
                let a2 = a1\<lparr>reserved := r\<rparr> in
                (ensure_can_withdraw who v (reason_flag Reserve) (free a2) s, a2, s)"
  have "?f (account who s) s =
      (Ok (), (account who s)\<lparr>free := free (account who s) - v, reserved := reserved (account who s) + v\<rparr>, s)"
    using assms by (simp add: checked_sub_def checked_add_def ensure_can_withdraw_def frozen_def
        reasons_transfer ensure_def Let_def)
  from try_mutate_account_ok [where f = ?f and ed = ed, OF this]
  show ?thesis using assms(1) by (auto simp: reserve_def)
qed

text \<open>
  C8. Reserving and then unreserving the same amount gives the account back what it had, with nothing
  left over, provided the account's total is a balance.
\<close>

theorem reserve_unreserve:
  assumes "reserve ed who v s = (Ok (), s1)" "unreserve ed who v s1 = (rest, s2)" "v \<noteq> 0"
    and "ed \<le> total (account who s)" "free_balance who s + reserved_balance who s < 2 ^ 128"
  shows "rest = 0 \<and> (\<forall>k. account k s2 = account k s) \<and> TotalIssuance s2 = TotalIssuance s"
  using assms(1,3)
proof (cases rule: reserve_cases)
  case ok
  let ?a = "account who s"
  let ?b = "?a\<lparr>free := free ?a - v, reserved := reserved ?a + v\<rparr>"
  have t: "total ?b = total ?a" using ok(2) by (simp add: total_def saturating_add_def)
  have b: "account who s1 = ?b" using mutated_shown [OF ok(5)] t assms(4) by (simp add: shown_def)
  note u = unreserve_cases [OF assms(2,3)]
  have r: "reserved ?a + v - v = reserved ?a" "min (reserved ?a + v) v = v" by simp_all
  have f: "saturating_add 128 (free ?a - v) v = free ?a"
    using ok(2) assms(5) by (simp add: free_balance_def)
  have c: "account who s1\<lparr>reserved := reserved (account who s1) - v,
      free := saturating_add 128 (free (account who s1)) (min (reserved (account who s1)) v)\<rparr> = ?a"
    unfolding b by (simp add: r f)
  have "account k s2 = account k s" for k
    using mutated_shown [OF ok(5)] mutated_shown [OF u(2)] c assms(4) by (simp add: shown_def)
  moreover have "dust ed ?a = 0" "dust ed ?b = 0" using assms(4) t by (simp_all add: dust_def)
  then have "TotalIssuance s2 = TotalIssuance s" using ok(5) u(2) c by (simp add: mutated_def)
  moreover have "rest = 0" using u(1) b by simp
  ultimately show ?thesis by blast
qed simp

theorem reserve_unreserve_witness:
  "\<exists>s1 rest s2. reserve 10 1 60 sample = (Ok (), s1) \<and> unreserve 10 1 60 s1 = (rest, s2) \<and> rest = 0"
proof -
  obtain s1 where r: "reserve 10 1 60 sample = (Ok (), s1)"
    using reserve_success [of 60 1 sample 10] by (auto simp: default_data_def)
  obtain rest s2 where u: "unreserve 10 1 60 s1 = (rest, s2)" by fastforce
  have "ed \<le> total (account 1 sample)" if "ed \<le> 100" for ed
    using that by (simp add: total_def default_data_def)
  then have "rest = 0"
    using reserve_unreserve [OF r u] by (simp add: free_balance_def reserved_balance_def default_data_def)
  with r u show ?thesis by blast
qed

section \<open>Locks\<close>

lemma fold_freeze_misc:
  "misc_frozen (fold freeze_by ls b) =
     fold max (map lock_amount (filter (\<lambda>l. lock_reasons l \<noteq> Reasons_Fee) ls)) (misc_frozen b)"
proof (induction ls arbitrary: b)
  case (Cons l ls)
  have "misc_frozen (freeze_by l b) =
      (if lock_reasons l \<noteq> Reasons_Fee then max (lock_amount l) (misc_frozen b) else misc_frozen b)"
    by (cases "lock_reasons l") (simp_all add: freeze_by_def Let_def)
  then show ?case using Cons.IH [of "freeze_by l b"] by simp
qed simp

text \<open>The locks that bind transfers, withdrawals other than fees, and reservations.\<close>

definition binding :: "BalanceLock list \<Rightarrow> nat set" where
  "binding ls = lock_amount ` {l \<in> set ls. lock_reasons l \<noteq> Reasons_Fee}"

lemma fold_freeze_Max:
  "misc_frozen (fold freeze_by ls (b\<lparr>misc_frozen := 0, fee_frozen := 0\<rparr>)) = Max (insert 0 (binding ls))"
proof -
  have "set (0 # map lock_amount (filter (\<lambda>l. lock_reasons l \<noteq> Reasons_Fee) ls)) = insert 0 (binding ls)"
    by (auto simp: binding_def)
  then show ?thesis unfolding fold_freeze_misc by (simp flip: Max.set_eq_fold)
qed

text \<open>Replacing the lock of an identifier, or adding it.\<close>

lemma replace_lock_None [simp]: "replace_lock i g None ls = (filter (\<lambda>l. lock_id l \<noteq> i) ls, None)"
  by (induction ls) auto

lemma push_rest_simps [simp]:
  "push_rest (ls, None) = ls" "push_rest (ls, Some l) = ls @ [l]"
  "push_rest (case x of (ls, rest) \<Rightarrow> (l # ls, rest)) = l # push_rest x"
  by (simp_all add: push_rest_def split: option.split prod.split)

text \<open>
  The other locks stay; the identifier has the new lock, or what the old one and the new one make.
\<close>

lemma replace_lock_effect:
  assumes "lock_id nl = i" "\<And>l. lock_id l = i \<Longrightarrow> lock_id (g l nl) = i"
  shows "filter (\<lambda>l. lock_id l \<noteq> i) (push_rest (replace_lock i g (Some nl) ls)) = filter (\<lambda>l. lock_id l \<noteq> i) ls"
    and "filter (\<lambda>l. lock_id l = i) (push_rest (replace_lock i g (Some nl) ls)) =
      [case find (\<lambda>l. lock_id l = i) ls of None \<Rightarrow> nl | Some l \<Rightarrow> g l nl]"
  using assms by (induction ls) simp_all

lemma update_locks_locks: "locks who (update_locks ed who ls s) = ls"
  by (rule update_locks_effect [of ed who s ls]) (simp add: locks_def sm_get_def)

text \<open>An account that exists stays and is frozen by the locks it is given.\<close>

lemma update_locks_frozen:
  assumes "ed \<le> total (account who s)"
  shows "account who (update_locks ed who ls s) =
    fold freeze_by ls ((account who s)\<lparr>misc_frozen := 0, fee_frozen := 0\<rparr>)"
proof -
  let ?b = "fold freeze_by ls ((account who s)\<lparr>misc_frozen := 0, fee_frozen := 0\<rparr>)"
  obtain s1 where m: "mutated ed who s ?b s s1"
    and sd: "stored_data (update_locks ed who ls s) = stored_data s1 \<or>
     stored_data (update_locks ed who ls s) = (stored_data s1)(who \<mapsto> account who s1)"
    by (rule update_locks_effect)
  have "account who s1 = ?b" using mutated_shown [OF m] assms by (simp add: shown_def total_def)
  with sd show ?thesis by (auto simp: account_stored)
qed

subsection \<open>The contract of lockable currencies\<close>

text \<open>
  A lock stands once under its identifier, locks of others are not touched, neither is the free balance,
  and an account that exists is frozen by its largest binding lock.
\<close>

lemma binding_filter: "binding ls = binding (filter P ls) \<union> binding (filter (\<lambda>l. \<not> P l) ls)"
  by (auto simp: binding_def)

lemma finite_binding: "finite (binding ls)"
  by (simp add: binding_def)

locale lockable_currency =
  fixes set_l :: "LockIdentifier \<Rightarrow> 'acc \<Rightarrow> nat \<Rightarrow> WithdrawReasons \<Rightarrow> 's \<Rightarrow> 's"
    and remove_l :: "LockIdentifier \<Rightarrow> 'acc \<Rightarrow> 's \<Rightarrow> 's"
    and locks_of :: "'acc \<Rightarrow> 's \<Rightarrow> BalanceLock list"
    and frozen_of free_of :: "'acc \<Rightarrow> 's \<Rightarrow> nat"
    and alive :: "'acc \<Rightarrow> 's \<Rightarrow> bool"
  assumes set_own: "amount \<noteq> 0 \<Longrightarrow> \<not> reasons_is_none r \<Longrightarrow>
      filter (\<lambda>l. lock_id l = i) (locks_of who (set_l i who amount r s)) =
        [\<lparr>lock_id = i, lock_amount = amount, lock_reasons = reasons_from r\<rparr>]"
    and set_others: "filter (\<lambda>l. lock_id l \<noteq> i) (locks_of who (set_l i who amount r s)) =
        filter (\<lambda>l. lock_id l \<noteq> i) (locks_of who s)"
    and set_frozen: "alive who s \<Longrightarrow> amount \<noteq> 0 \<Longrightarrow> \<not> reasons_is_none r \<Longrightarrow>
        frozen_of who (set_l i who amount r s) = Max (insert 0 (binding (locks_of who (set_l i who amount r s))))"
    and set_free: "alive who s \<Longrightarrow> free_of who (set_l i who amount r s) = free_of who s"
    and remove_locks: "locks_of who (remove_l i who s) = filter (\<lambda>l. lock_id l \<noteq> i) (locks_of who s)"
    and remove_frozen: "alive who s \<Longrightarrow>
        frozen_of who (remove_l i who s) = Max (insert 0 (binding (locks_of who (remove_l i who s))))"
    and remove_free: "alive who s \<Longrightarrow> free_of who (remove_l i who s) = free_of who s"
begin

lemma frozen_after_set:
  assumes "alive who s" "amount \<noteq> 0" "\<not> reasons_is_none r" "reasons_from r \<noteq> Reasons_Fee"
  shows "frozen_of who (set_l i who amount r s) =
    max amount (Max (insert 0 (binding (filter (\<lambda>l. lock_id l \<noteq> i) (locks_of who s)))))"
proof -
  let ?ls = "locks_of who (set_l i who amount r s)"
  note binding_filter [of ?ls "\<lambda>l. lock_id l = i"]
  moreover have "binding [\<lparr>lock_id = i, lock_amount = amount, lock_reasons = reasons_from r\<rparr>] = {amount}"
    using assms(4) by (auto simp: binding_def)
  ultimately have "binding ?ls = insert amount (binding (filter (\<lambda>l. lock_id l \<noteq> i) (locks_of who s)))"
    by (simp only: set_own [OF assms(2,3)] set_others Un_insert_left Un_empty_left)
  then show ?thesis
    unfolding set_frozen [OF assms(1-3)] by (simp only: insert_commute [of 0 amount] Max_insert finite_insert finite_binding insert_not_empty not_False_eq_True)
qed

end

lemma set_lock_update:
  assumes "amount \<noteq> 0" "\<not> reasons_is_none r"
  shows "set_lock ed i who amount r s = update_locks ed who
    (push_rest (replace_lock i (\<lambda>l nl. nl) (Some \<lparr>lock_id = i, lock_amount = amount, lock_reasons = reasons_from r\<rparr>) (locks who s))) s"
  using assms by (simp add: set_lock_def)

lemma set_lock_nothing: "amount = 0 \<or> reasons_is_none r \<Longrightarrow> set_lock ed i who amount r s = s"
  by (auto simp: set_lock_def)

interpretation balances_locks: lockable_currency "set_lock ed" "remove_lock ed" locks
    "\<lambda>who s. misc_frozen (account who s)" free_balance "\<lambda>who s. ed \<le> total (account who s)" for ed
proof
  fix amount :: nat and r and i :: LockIdentifier and who :: 'a and s :: "('a, 'b) bal_scheme"
  let ?nl = "\<lparr>lock_id = i, lock_amount = amount, lock_reasons = reasons_from r\<rparr>"
  let ?s' = "set_lock ed i who amount r s"
  note upd = set_lock_update [of amount r ed i who s] update_locks_locks
  note frz = set_lock_update [of amount r ed i who s] update_locks_frozen [of ed who s]
  show "filter (\<lambda>l. lock_id l = i) (locks who ?s') = [?nl]" if "amount \<noteq> 0" "\<not> reasons_is_none r"
    using that replace_lock_effect(2) [of ?nl i "\<lambda>l nl. nl" "locks who s"] by (simp add: upd split: option.splits)
  show "filter (\<lambda>l. lock_id l \<noteq> i) (locks who ?s') = filter (\<lambda>l. lock_id l \<noteq> i) (locks who s)"
    using replace_lock_effect(1) [of ?nl i "\<lambda>l nl. nl" "locks who s"] set_lock_nothing [of amount r ed i who s]
    by (cases "amount = 0 \<or> reasons_is_none r") (simp_all add: upd)
  show "misc_frozen (account who ?s') = Max (insert 0 (binding (locks who ?s')))"
    if "ed \<le> total (account who s)" "amount \<noteq> 0" "\<not> reasons_is_none r"
    using that by (simp add: upd frz fold_freeze_Max)
  show "free_balance who ?s' = free_balance who s" if "ed \<le> total (account who s)"
    using that set_lock_nothing [of amount r ed i who s]
    by (cases "amount = 0 \<or> reasons_is_none r") (simp_all add: frz free_balance_def)
  show "locks who (remove_lock ed i who s) = filter (\<lambda>l. lock_id l \<noteq> i) (locks who s)"
    by (simp add: remove_lock_def update_locks_locks)
  show "misc_frozen (account who (remove_lock ed i who s)) = Max (insert 0 (binding (locks who (remove_lock ed i who s))))"
    "free_balance who (remove_lock ed i who s) = free_balance who s" if "ed \<le> total (account who s)"
    using that by (simp_all add: remove_lock_def update_locks_locks update_locks_frozen fold_freeze_Max free_balance_def)
qed

text \<open>
  C6. \<open>set_lock\<close> puts exactly one lock under its identifier, keeps the locks of the others, and
  freezes an existing account by the largest lock that binds it; the balances do not change.
\<close>

theorem set_lock_locks:
  assumes "amount \<noteq> 0" "\<not> reasons_is_none r" "ed \<le> total (account who s)"
    and "s' = set_lock ed i who amount r s"
  shows "filter (\<lambda>l. lock_id l = i) (locks who s') =
      [\<lparr>lock_id = i, lock_amount = amount, lock_reasons = reasons_from r\<rparr>] \<and>
    filter (\<lambda>l. lock_id l \<noteq> i) (locks who s') = filter (\<lambda>l. lock_id l \<noteq> i) (locks who s) \<and>
    misc_frozen (account who s') = Max (insert 0 (binding (locks who s'))) \<and>
    free_balance who s' = free_balance who s \<and> reserved_balance who s' = reserved_balance who s"
proof -
  let ?nl = "\<lparr>lock_id = i, lock_amount = amount, lock_reasons = reasons_from r\<rparr>"
  let ?ls = "push_rest (replace_lock i (\<lambda>l nl. nl) (Some ?nl) (locks who s))"
  have s': "s' = update_locks ed who ?ls s" using assms by (simp add: set_lock_def)
  have "locks who s' = ?ls" unfolding s' by (rule update_locks_locks)
  moreover have "account who s' = fold freeze_by ?ls ((account who s)\<lparr>misc_frozen := 0, fee_frozen := 0\<rparr>)"
    unfolding s' using assms(3) by (rule update_locks_frozen)
  moreover have "[case find (\<lambda>l. lock_id l = i) (locks who s) of None \<Rightarrow> ?nl | Some l \<Rightarrow> ?nl] = [?nl]"
    by (simp split: option.split)
  ultimately show ?thesis
    using replace_lock_effect [of ?nl i "\<lambda>l nl. nl" "locks who s"]
    by (simp add: fold_freeze_Max free_balance_def reserved_balance_def)
qed

theorem set_lock_locks_witness:
  "misc_frozen (account 1 (set_lock 10 [1] 1 70 2 sample)) = 70"
proof -
  let ?s' = "set_lock 10 [1] 1 70 2 sample"
  have "ed \<le> total (account 1 sample)" if "ed \<le> 100" for ed
    using that by (simp add: total_def default_data_def)
  then have s: "filter (\<lambda>l. lock_id l = [1]) (locks 1 ?s') =
      [\<lparr>lock_id = [1], lock_amount = 70, lock_reasons = reasons_from 2\<rparr>]"
    "filter (\<lambda>l. lock_id l \<noteq> [1]) (locks 1 ?s') = filter (\<lambda>l. lock_id l \<noteq> [1]) (locks 1 sample)"
    "misc_frozen (account 1 ?s') = Max (insert 0 (binding (locks 1 ?s')))"
    using set_lock_locks [of 70 2 10 1 sample ?s' "[1]"] by (simp_all add: reasons_is_none_def)
  have "filter (\<lambda>l. lock_id l \<noteq> [1]) (locks 1 ?s') = []"
    unfolding s(2) by (simp add: locks_def sm_get_def)
  then have "\<forall>l\<in>set (locks 1 ?s'). lock_id l = [1]" by (simp add: filter_empty_conv)
  then have "filter (\<lambda>l. lock_id l = [1]) (locks 1 ?s') = locks 1 ?s'" by (simp only: filter_id_conv)
  then have "locks 1 ?s' = [\<lparr>lock_id = [1], lock_amount = 70, lock_reasons = Reasons_Misc\<rparr>]"
    using s(1) by (simp only: reasons_transfer)
  then have "binding (locks 1 ?s') = {70}" by (auto simp: binding_def)
  then show ?thesis using s(3) by simp
qed

text \<open>A first lock takes a reference on the account, which stops a transfer from reaping it.\<close>

lemma inc_ref_keeps: "\<not> allow_death d who (inc_ref d who s)"
  by (simp add: inc_ref_def account_mutate_eq allow_death_def account_get_def sm_get_def account_query_def)

lemma first_lock:
  assumes "amount \<noteq> 0" "\<not> reasons_is_none r" "Locks s who = None"
  obtains s1 s2 where "set_lock ed i who amount r s = inc_ref default_data who s2" "Account s2 = Account s1"
    "mutated ed who s (freeze_by \<lparr>lock_id = i, lock_amount = amount, lock_reasons = reasons_from r\<rparr>
       ((account who s)\<lparr>misc_frozen := 0, fee_frozen := 0\<rparr>)) s s1"
proof -
  let ?nl = "\<lparr>lock_id = i, lock_amount = amount, lock_reasons = reasons_from r\<rparr>"
  have l: "set_lock ed i who amount r s = update_locks ed who [?nl] s"
    using assms by (simp add: set_lock_def locks_def sm_get_def)
  let ?f = "\<lambda>b s. ((), fold freeze_by [?nl] (b\<lparr>misc_frozen := 0, fee_frozen := 0\<rparr>), s)"
  obtain s1 where m: "mutate_account ed who ?f s = ((), s1)"
    and mu: "mutated ed who s (freeze_by ?nl ((account who s)\<lparr>misc_frozen := 0, fee_frozen := 0\<rparr>)) s s1"
    by (rule mutate_account_ok [where f = ?f and who = who and s = s and ed = ed]) auto
  then have "\<not> sm_contains_key Locks who s1" using assms(3) by (simp add: sm_contains_key_def mutated_def)
  then have "update_locks ed who [?nl] s = inc_ref default_data who (sm_insert Locks_update who [?nl] s1)"
    using m unfolding update_locks_def Let_def by simp
  with l have "set_lock ed i who amount r s = inc_ref default_data who (sm_insert Locks_update who [?nl] s1)"
    by (simp only:)
  then show ?thesis by (rule that [OF _ _ mu]) (simp add: sm_insert_def store_locks)
qed

lemma set_lock_reference:
  assumes "amount \<noteq> 0" "\<not> reasons_is_none r" "Locks s who = None"
  shows "\<not> allow_death default_data who (set_lock ed i who amount r s)"
  by (rule first_lock [OF assms, of ed i]) (simp add: inc_ref_keeps)

lemma transfer_sender:
  assumes "transfer ed src dst v req s = (Ok (), s')" "v \<noteq> 0" "src \<noteq> dst" "\<not> allow_death default_data src s"
  shows "ed \<le> free (account src s) - v" "misc_frozen (account src s) \<le> free (account src s) - v"
    "account src s' = shown ed ((account src s)\<lparr>free := free (account src s) - v\<rparr>)"
proof -
  from assms(1-3) have "ed \<le> free (account src s) - v \<and> misc_frozen (account src s) \<le> free (account src s) - v \<and>
    account src s' = shown ed ((account src s)\<lparr>free := free (account src s) - v\<rparr>)"
  proof (cases rule: transfer_cases)
    case (ok s1 s2)
    have "account src s' = account src s2" using ok(9) same_accounts(2) [of s' s2] by simp
    then show ?thesis
      using ok(5,6) assms(3,4) mutated_shown [OF ok(7)] mutated_shown [OF ok(8)]
      by (auto simp: frozen_def reasons_transfer)
  qed simp
  then show "ed \<le> free (account src s) - v" "misc_frozen (account src s) \<le> free (account src s) - v"
    "account src s' = shown ed ((account src s)\<lparr>free := free (account src s) - v\<rparr>)" by blast+
qed


lemma update_locks_other: "k \<noteq> who \<Longrightarrow> account k (update_locks ed who ls s) = account k s"
proof -
  assume k: "k \<noteq> who"
  obtain s1 where
    m: "mutated ed who s (fold freeze_by ls ((account who s)\<lparr>misc_frozen := 0, fee_frozen := 0\<rparr>)) s s1"
    and sd: "stored_data (update_locks ed who ls s) = stored_data s1 \<or>
     stored_data (update_locks ed who ls s) = (stored_data s1)(who \<mapsto> account who s1)"
    by (rule update_locks_effect)
  have "account k s1 = account k s" using mutated_shown [OF m] k by simp
  with sd k show ?thesis by (auto simp: account_stored)
qed


text \<open>
  C9. \<open>transfer_keep_alive\<close> never takes the sender below the existential deposit.
\<close>

theorem keep_alive_keeps_alive:
  assumes "call_transfer_keep_alive ed lookup (Some (Signed who)) dest v s = (Ok (), s')"
    and "lookup dest = Some d" "v \<noteq> 0" "d \<noteq> who" "ed < 2 ^ 128"
  shows "ed \<le> free_balance who s' \<and> \<not> is_dead_account who s'"
proof -
  have t: "transfer ed who d v KeepAlive s = (Ok (), s')"
    using assms(1,2) by (simp add: call_transfer_keep_alive_def ensure_signed_def lookup_or_def ok_or_def)
  from t assms(3) assms(4)[symmetric] show ?thesis
  proof (cases rule: transfer_cases)
    case (ok s1 s2)
    let ?a = "(account who s)\<lparr>free := free (account who s) - v\<rparr>"
    have "ed \<le> tot ?a" using ok(6) by (simp add: tot_def)
    then have k: "kept ed ?a = Some ?a" using less_total_iff [OF assms(5), of ?a] by (simp add: kept_def)
    have "stored_data s' = stored_data s2" using ok(9) same_accounts(1) [of s' s2] by simp
    then have "stored_data s' who = Some ?a"
      using mutated_stored [OF ok(7)] mutated_stored [OF ok(8)] k assms(4) by simp
    then show ?thesis
      using ok(6) by (simp add: free_balance_def account_stored is_dead_account_def stored_explicit_law)
  qed simp
qed

theorem keep_alive_keeps_alive_witness:
  "\<exists>s'. call_transfer_keep_alive 10 Some (Some (Signed 1)) 2 40 sample = (Ok (), s') \<and> 10 \<le> free_balance 1 s'"
proof -
  obtain s' where "transfer 10 1 2 40 KeepAlive sample = (Ok (), s')"
    using transfer_success [of 40 1 2 sample 10 KeepAlive] by (auto simp: default_data_def total_def)
  then have c: "call_transfer_keep_alive 10 Some (Some (Signed 1)) 2 40 sample = (Ok (), s')"
    by (simp add: call_transfer_keep_alive_def ensure_signed_def lookup_or_def ok_or_def)
  from keep_alive_keeps_alive [OF c] c show ?thesis by auto
qed

section \<open>Where the code departs from its comments\<close>

text \<open>
  A slash that takes everything reaps an account whatever locks it has. The locks stay in storage but
  the frozen amounts are gone with the account data, so funds that arrive later are not locked.
\<close>

lemma reaping_forgets_locks:
  assumes "slash ed who v s = (x, s1)" "tot (account who s) \<le> v" "v < 2 ^ 128" "v \<noteq> 0" "0 < ed"
    and "deposit_creating ed who d s1 = (PositiveImbalance d, s2)" "ed \<le> d" "d \<noteq> 0"
  shows "free_balance who s2 = d \<and> misc_frozen (account who s2) = 0 \<and> locks who s2 = locks who s"
proof -
  obtain n rest where x: "x = (n, rest)" by (cases x)
  note sl = slash_cases [OF assms(1) [unfolded x] assms(4,3)]
  have a: "account who s1 = default_data"
    using mutated_shown [OF sl(3)] assms(2,5) by (simp add: shown_def total_def tot_def)
  from assms(6,8) have "d < 2 ^ 128 \<and> mutated ed who s1 (default_data\<lparr>free := d\<rparr>) s1 s2"
    by (cases rule: deposit_creating_cases) (use assms(8) a in \<open>auto simp: pos_zero_def default_data_def\<close>)
  then show ?thesis
    using mutated_shown [of ed who s1 "default_data\<lparr>free := d\<rparr>" s1 s2] sl(3) assms(7)
    by (simp add: shown_def free_balance_def locks_def sm_get_def mutated_def total_def default_data_def)
qed

text \<open>
  \<open>is_dead_account\<close> is said to be equivalent to a total balance of zero; a lock on an account that does
  not exist creates its entry through the reference count and breaks the equivalence.
\<close>

lemma lock_revives_dead:
  assumes "amount \<noteq> 0" "\<not> reasons_is_none r" "Locks s who = None" "account who s = default_data" "0 < ed"
  shows "\<not> is_dead_account who (set_lock ed i who amount r s) \<and> total_balance who (set_lock ed i who amount r s) = 0"
proof -
  let ?b = "freeze_by \<lparr>lock_id = i, lock_amount = amount, lock_reasons = reasons_from r\<rparr>
       ((account who s)\<lparr>misc_frozen := 0, fee_frozen := 0\<rparr>)"
  obtain s1 s2 where l: "set_lock ed i who amount r s = inc_ref default_data who s2" "Account s2 = Account s1"
    and m: "mutated ed who s ?b s s1"
    by (rule first_lock [OF assms(1-3)])
  have "total ?b = 0" using assms(4) by (simp add: tot_def freeze_by_def Let_def default_data_def)
  then have "shown ed ?b = default_data" using assms(5) unfolding shown_def by metis
  then have "account who s2 = default_data"
    using mutated_shown [OF m, of who] same_accounts(2) [OF l(2), of who] by simp
  then have "stored_data (inc_ref default_data who s2) who = Some default_data"
    using ref_effect(1) [of "inc_ref default_data who s2" who s2] by simp
  then show ?thesis unfolding l(1)
    by (simp add: is_dead_account_def stored_explicit_law total_balance_def account_stored)
qed

text \<open>
  The event \<open>Endowed\<close> is documented for an account that is created; it is also raised, with amount zero,
  by a slash of an account that does not exist.
\<close>

lemma slash_endows_nothing:
  "\<exists>x s'. slash 10 3 5 sample = (x, s') \<and>
     \<lparr>phase = Finalization, event = Event_Balances (Endowed 3 0), topics = []\<rparr> \<in> set (Events s') \<and>
     is_dead_account 3 s'"
  by (simp add: slash_def mutate_account_def try_mutate_account_def stored_try_mutate_exists_def
      sm_try_mutate_exists_def split_inner_def sample_def empty_bal_def default_data_def total_def
      post_mutation_def Let_def sm_remove_def sm_store_def balances_event_def deposit_event_def
      deposit_event_indexed_def extrinsic_index_def checked_add_def is_dead_account_def
      stored_is_explicit_def sm_contains_key_def)

end
