(* ===== verification/Vesting.thy ===== *)
theory Vesting
  imports Balances_Props
begin

text \<open>
  The vesting module, \<open>frame/vesting/src/lib.rs\<close>: schedules under which funds of an account become free,
  a fixed amount with every block, enforced by a lock of the currency. The currency is the balances
  module; its state and the system's are the field \<open>balances\<close>. Converting block numbers to balances and
  resolving addresses are parameters of the runtime.
\<close>

section \<open>Schedules\<close>

definition VESTING_ID :: LockIdentifier where
  "VESTING_ID = [0x76, 0x65, 0x73, 0x74, 0x69, 0x6e, 0x67, 0x20]"

record VestingInfo =
  locked :: nat
  per_block :: nat
  starting_block :: nat

definition locked_at :: "(nat \<Rightarrow> nat) \<Rightarrow> VestingInfo \<Rightarrow> nat \<Rightarrow> nat" where
  "locked_at convert v n =
     (let vested_block_count = convert (saturating_sub n (starting_block v)) in
      case checked_mul 128 vested_block_count (per_block v) of
        Some balance \<Rightarrow> saturating_sub (locked v) balance
      | None \<Rightarrow> 0)"

record 'acc vesting_state =
  balances :: "'acc bal"
  Vesting :: "'acc \<rightharpoonup> VestingInfo"

definition vesting_event :: "'acc VestingEvent \<Rightarrow> 'acc vesting_state \<Rightarrow> 'acc vesting_state" where
  "vesting_event ev s = s\<lparr>balances := deposit_event (Event_Vesting ev) (balances s)\<rparr>"

definition vesting_reasons :: WithdrawReasons where
  "vesting_reasons = or (reason_flag Transfer) (reason_flag Reserve)"

section \<open>Operations\<close>

definition update_lock ::
  "nat \<Rightarrow> (nat \<Rightarrow> nat) \<Rightarrow> 'acc \<Rightarrow> 'acc vesting_state \<Rightarrow> (unit, DispatchError) result \<times> 'acc vesting_state" where
  "update_lock ed convert who s =
     (case ok_or (Vesting s who) (Module_Vesting NotVesting) of
        Inl e \<Rightarrow> (Err e, s)
      | Inr vesting \<Rightarrow>
          let now = Number (balances s);
              locked_now = locked_at convert vesting now
          in if locked_now = 0
             then let s1 = s\<lparr>balances := remove_lock ed VESTING_ID who (balances s)\<rparr>;
                      s2 = sm_remove Vesting_update who s1
                  in (Ok (), vesting_event (VestingCompleted who) s2)
             else let s1 = s\<lparr>balances := set_lock ed VESTING_ID who locked_now vesting_reasons (balances s)\<rparr>
                  in (Ok (), vesting_event (VestingUpdated who locked_now) s1))"

definition vesting_balance :: "(nat \<Rightarrow> nat) \<Rightarrow> 'acc \<Rightarrow> 'acc vesting_state \<Rightarrow> nat option" where
  "vesting_balance convert who s =
     (case Vesting s who of
        Some v \<Rightarrow>
          let now = Number (balances s);
              locked_now = locked_at convert v now
          in Some (min (free_balance who (balances s)) locked_now)
      | None \<Rightarrow> None)"

definition add_vesting_schedule ::
  "nat \<Rightarrow> (nat \<Rightarrow> nat) \<Rightarrow> 'acc \<Rightarrow> nat \<Rightarrow> nat \<Rightarrow> nat \<Rightarrow> 'acc vesting_state \<Rightarrow>
   (unit, DispatchError) result \<times> 'acc vesting_state" where
  "add_vesting_schedule ed convert who l pb start s =
     (if l = 0 then (Ok (), s)
      else if sm_contains_key Vesting who s then (Err (Module_Vesting Vesting_ExistingVestingSchedule), s)
      else let vesting_schedule = \<lparr>locked = l, per_block = pb, starting_block = start\<rparr>;
               s1 = sm_insert Vesting_update who vesting_schedule s
           in (Ok (), snd (update_lock ed convert who s1)))"

definition remove_vesting_schedule :: "nat \<Rightarrow> (nat \<Rightarrow> nat) \<Rightarrow> 'acc \<Rightarrow> 'acc vesting_state \<Rightarrow> 'acc vesting_state" where
  "remove_vesting_schedule ed convert who s =
     (let s1 = sm_remove Vesting_update who s in snd (update_lock ed convert who s1))"

section \<open>Dispatchable calls and genesis\<close>

definition call_vest ::
  "nat \<Rightarrow> (nat \<Rightarrow> nat) \<Rightarrow> 'acc Origin \<Rightarrow> 'acc vesting_state \<Rightarrow> (unit, DispatchError) result \<times> 'acc vesting_state" where
  "call_vest ed convert origin s =
     (case ensure_signed origin of Inl e \<Rightarrow> (Err e, s) | Inr who \<Rightarrow> update_lock ed convert who s)"

definition call_vest_other ::
  "nat \<Rightarrow> (nat \<Rightarrow> nat) \<Rightarrow> ('src \<Rightarrow> 'acc option) \<Rightarrow> 'acc Origin \<Rightarrow> 'src \<Rightarrow> 'acc vesting_state \<Rightarrow>
   (unit, DispatchError) result \<times> 'acc vesting_state" where
  "call_vest_other ed convert lookup origin target s =
     (case and_then (ensure_signed origin) (\<lambda>_. lookup_or lookup target) of
        Inl e \<Rightarrow> (Err e, s)
      | Inr who \<Rightarrow> update_lock ed convert who s)"

text \<open>\<open>None\<close> is the panic if the schedule cannot be added after the transfer.\<close>

definition call_vested_transfer ::
  "nat \<Rightarrow> (nat \<Rightarrow> nat) \<Rightarrow> ('src \<Rightarrow> 'acc option) \<Rightarrow> nat \<Rightarrow> 'acc Origin \<Rightarrow> 'src \<Rightarrow> VestingInfo \<Rightarrow> 'acc vesting_state \<Rightarrow>
   ((unit, DispatchError) result \<times> 'acc vesting_state) option" where
  "call_vested_transfer ed convert lookup min_vested_transfer origin target schedule s =
     (case and_then (ensure_signed origin) (\<lambda>transactor.
             and_then (ensure (locked schedule \<ge> min_vested_transfer) (Module_Vesting AmountLow)) (\<lambda>_.
             and_then (lookup_or lookup target) (\<lambda>who.
             and_then (ensure (\<not> sm_contains_key Vesting who s) (Module_Vesting Vesting_ExistingVestingSchedule)) (\<lambda>_.
             Ok (transactor, who))))) of
        Inl e \<Rightarrow> Some (Err e, s)
      | Inr (transactor, who) \<Rightarrow>
          (case transfer ed transactor who (locked schedule) AllowDeath (balances s) of
             (Inl e, c) \<Rightarrow> Some (Err e, s\<lparr>balances := c\<rparr>)
           | (Inr _, c) \<Rightarrow>
               (case add_vesting_schedule ed convert who (locked schedule) (per_block schedule) (starting_block schedule)
                       (s\<lparr>balances := c\<rparr>) of
                  (Inl _, _) \<Rightarrow> None
                | (Inr _, s2) \<Rightarrow> Some (Ok (), s2))))"

text \<open>One entry of the genesis configuration; \<open>None\<close> is the failed assertion that the account has funds.\<close>

definition genesis_vesting ::
  "nat \<Rightarrow> (nat \<Rightarrow> nat) \<Rightarrow> 'acc \<times> nat \<times> nat \<times> nat \<Rightarrow> 'acc vesting_state \<Rightarrow> 'acc vesting_state option" where
  "genesis_vesting ed convert entry s =
     (case entry of (who, begin', len, liquid) \<Rightarrow>
        let balance = free_balance who (balances s) in
        if balance = 0 then None
        else let l = saturating_sub balance liquid;
                 pb = l div max (convert len) 1;
                 s1 = sm_insert Vesting_update who \<lparr>locked = l, per_block = pb, starting_block = begin'\<rparr> s
             in Some (s1\<lparr>balances := set_lock ed VESTING_ID who l vesting_reasons (balances s1)\<rparr>))"

primrec vesting_genesis ::
  "nat \<Rightarrow> (nat \<Rightarrow> nat) \<Rightarrow> ('acc \<times> nat \<times> nat \<times> nat) list \<Rightarrow> 'acc vesting_state \<Rightarrow> 'acc vesting_state option" where
  "vesting_genesis ed convert [] s = Some s"
| "vesting_genesis ed convert (e # es) s = Option.bind (genesis_vesting ed convert e s) (vesting_genesis ed convert es)"

section \<open>What is locked\<close>

lemma vesting_reasons_misc: "reasons_from vesting_reasons = Reasons_Misc" "\<not> reasons_is_none vesting_reasons"
  by (simp_all add: vesting_reasons_def reasons_from_def reasons_contains_def reasons_is_none_def)

interpretation vesting_item: storage_item Vesting Vesting_update
  by unfold_locales auto

text \<open>Multiplication that overflows means that everything has vested.\<close>

lemma locked_at_exact:
  assumes "locked v < 2 ^ 128"
  shows "locked_at convert v n = locked v - convert (n - starting_block v) * per_block v"
  using assms by (simp add: locked_at_def checked_mul_def saturating_sub_def Let_def)

section \<open>Properties\<close>

lemma account_deposit_event: "Account (deposit_event ev s) = Account s"
  by (simp add: deposit_event_def deposit_event_indexed_def Let_def split: option.split)

lemma vesting_event_simps [simp]:
  "Vesting (vesting_event ev s) = Vesting s"
  "locks who (balances (vesting_event ev s)) = locks who (balances s)"
  "account who (balances (vesting_event ev s)) = account who (balances s)"
  "free_balance who (balances (vesting_event ev s)) = free_balance who (balances s)"
proof -
  show a: "account who (balances (vesting_event ev s)) = account who (balances s)"
    using same_accounts(2) [of "deposit_event (Event_Vesting ev) (balances s)" "balances s" who]
    by (simp add: vesting_event_def account_deposit_event)
  show "free_balance who (balances (vesting_event ev s)) = free_balance who (balances s)"
    using a by (simp add: free_balance_def)
qed (simp_all add: vesting_event_def locks_def sm_get_def)

lemma update_lock_None: "Vesting s who = None \<Longrightarrow> update_lock ed convert who s = (Err (Module_Vesting NotVesting), s)"
  by (simp add: update_lock_def ok_or_def)

lemma update_lock_Some:
  assumes "Vesting s who = Some v" "left = locked_at convert v (Number (balances s))"
  shows "update_lock ed convert who s = (Ok (),
    if left = 0 then vesting_event (VestingCompleted who) (s\<lparr>balances := remove_lock ed VESTING_ID who (balances s), Vesting := (Vesting s)(who := None)\<rparr>)
    else vesting_event (VestingUpdated who left) (s\<lparr>balances := set_lock ed VESTING_ID who left vesting_reasons (balances s),
      Vesting := (Vesting s)(who := Some v)\<rparr>))"
  using assms by (cases s) (simp add: update_lock_def ok_or_def Let_def sm_remove_def sm_store_def fun_upd_idem)

text \<open>What updating the lock does, with the amount still locked at the current block.\<close>

lemma update_lock_effect:
  assumes "Vesting s who = Some v" "ed \<le> total (account who (balances s))" "update_lock ed convert who s = (r, s')"
    and left: "left = locked_at convert v (Number (balances s))"
  shows "r = Ok ()"
    "Vesting s' = (Vesting s)(who := if left = 0 then None else Some v)"
    "filter (\<lambda>l. lock_id l = VESTING_ID) (locks who (balances s')) =
      (if left = 0 then [] else [\<lparr>lock_id = VESTING_ID, lock_amount = left, lock_reasons = Reasons_Misc\<rparr>])"
    "filter (\<lambda>l. lock_id l \<noteq> VESTING_ID) (locks who (balances s')) = filter (\<lambda>l. lock_id l \<noteq> VESTING_ID) (locks who (balances s))"
    "free_balance who (balances s') = free_balance who (balances s)"
    "misc_frozen (account who (balances s')) =
      max left (Max (insert 0 (binding (filter (\<lambda>l. lock_id l \<noteq> VESTING_ID) (locks who (balances s))))))"
proof -
  let ?c = "balances s"
  let ?c1 = "if left = 0 then remove_lock ed VESTING_ID who ?c else set_lock ed VESTING_ID who left vesting_reasons ?c"
  obtain ev where u: "r = Ok ()" "s' = vesting_event ev (s\<lparr>balances := ?c1, Vesting := (Vesting s)(who := if left = 0 then None else Some v)\<rparr>)"
    using update_lock_Some [OF assms(1,4), of ed] assms(3) by (auto split: if_splits)
  note c = u(2)
  show "r = Ok ()" "Vesting s' = (Vesting s)(who := if left = 0 then None else Some v)" by (simp_all add: u)
  show "filter (\<lambda>l. lock_id l = VESTING_ID) (locks who (balances s')) =
      (if left = 0 then [] else [\<lparr>lock_id = VESTING_ID, lock_amount = left, lock_reasons = Reasons_Misc\<rparr>])"
    using balances_locks.set_own [of left vesting_reasons VESTING_ID who ed ?c] vesting_reasons_misc
    by (simp add: c balances_locks.remove_locks)
  show "filter (\<lambda>l. lock_id l \<noteq> VESTING_ID) (locks who (balances s')) = filter (\<lambda>l. lock_id l \<noteq> VESTING_ID) (locks who ?c)"
    by (simp add: c balances_locks.remove_locks balances_locks.set_others)
  show "free_balance who (balances s') = free_balance who ?c"
    using assms(2) by (simp add: c balances_locks.remove_free balances_locks.set_free)
  show "misc_frozen (account who (balances s')) =
      max left (Max (insert 0 (binding (filter (\<lambda>l. lock_id l \<noteq> VESTING_ID) (locks who ?c)))))"
    using assms(2) balances_locks.frozen_after_set [of ed who ?c left vesting_reasons VESTING_ID] vesting_reasons_misc
    by (simp add: c balances_locks.remove_frozen balances_locks.remove_locks)
qed

lemma add_vesting_schedule_new:
  assumes "0 < locked v" "Vesting s who = None"
  shows "add_vesting_schedule ed convert who (locked v) (per_block v) (starting_block v) s =
    (Ok (), snd (update_lock ed convert who (s\<lparr>Vesting := (Vesting s)(who \<mapsto> v)\<rparr>)))"
  using assms by (cases s; cases v) (simp add: add_vesting_schedule_def sm_contains_key_def sm_insert_def sm_store_def Let_def)

text \<open>A transfer with a schedule is a transfer, followed by the first update of the lock.\<close>

lemma call_vested_transfer_eq:
  assumes "lookup target = Some who" "0 < locked v" "m \<le> locked v" "Vesting s who = None"
    and "transfer ed t who (locked v) AllowDeath (balances s) = (r, c)"
  shows "call_vested_transfer ed convert lookup m (Some (Signed t)) target v s =
    Some (case r of
            Inl e \<Rightarrow> (Err e, s\<lparr>balances := c\<rparr>)
          | Inr _ \<Rightarrow> (Ok (), snd (update_lock ed convert who (s\<lparr>balances := c, Vesting := (Vesting s)(who \<mapsto> v)\<rparr>))))"
  using assms add_vesting_schedule_new [of v "s\<lparr>balances := c\<rparr>" who ed convert]
  by (simp add: call_vested_transfer_def ensure_signed_def and_then_def ensure_def lookup_or_def ok_or_def
      sm_contains_key_def split: sum.split)

text \<open>
  Removing a schedule does not touch the currency: the lock stays, since the update that follows no
  longer finds the schedule.
\<close>

lemma remove_vesting_schedule_keeps_lock: "balances (remove_vesting_schedule ed convert who s) = balances s"
  by (cases s) (simp add: remove_vesting_schedule_def sm_remove_def sm_store_def update_lock_None)

text \<open>
  C11. Updating the lock of an existing account under a schedule leaves exactly the amount locked that has not
  vested yet: the schedule's total minus the amount per block times the blocks since it started, where
  running out of range counts as fully vested. The module's lock is set to this amount, or removed with
  the schedule when nothing is left; other locks, the schedules of others and the free balance stay, and
  the account is frozen by this amount or by its largest other lock. Without a schedule, nothing changes.
\<close>

theorem update_lock_correct:
  assumes "ed \<le> total (account who (balances s))" "update_lock ed convert who s = (r, s')"
  shows "case Vesting s who of
      None \<Rightarrow> r = Err (Module_Vesting NotVesting) \<and> s' = s
    | Some v \<Rightarrow> locked v < 2 ^ 128 \<longrightarrow>
        (let left = locked v - convert (Number (balances s) - starting_block v) * per_block v;
             others = filter (\<lambda>l. lock_id l \<noteq> VESTING_ID) in
         r = Ok () \<and> Vesting s' = (Vesting s)(who := if left = 0 then None else Some v) \<and>
         filter (\<lambda>l. lock_id l = VESTING_ID) (locks who (balances s')) =
           (if left = 0 then [] else [\<lparr>lock_id = VESTING_ID, lock_amount = left, lock_reasons = Reasons_Misc\<rparr>]) \<and>
         others (locks who (balances s')) = others (locks who (balances s)) \<and>
         free_balance who (balances s') = free_balance who (balances s) \<and>
         misc_frozen (account who (balances s')) = max left (Max (insert 0 (binding (others (locks who (balances s)))))))"
proof (cases "Vesting s who")
  case None
  then show ?thesis using assms(2) by (simp add: update_lock_None)
next
  case (Some v)
  show ?thesis
    using update_lock_effect [OF Some assms refl] locked_at_exact [of v convert "Number (balances s)"]
    by (simp add: Some Let_def)
qed

theorem update_lock_correct_witness:
  "misc_frozen (account 1 (balances (snd (update_lock 10 id 1
     \<lparr>balances = sample, Vesting = [1 \<mapsto> \<lparr>locked = 60, per_block = 10, starting_block = 0\<rparr>]\<rparr>)))) = 50"
proof -
  let ?s = "\<lparr>balances = sample, Vesting = [1 \<mapsto> \<lparr>locked = 60, per_block = 10, starting_block = 0\<rparr>]\<rparr>"
  have "10 \<le> total (account 1 (balances ?s))" by (simp add: total_def default_data_def saturating_add_def u_max_def)
  from update_lock_correct [OF this, of id, OF prod.collapse [symmetric]]
  show ?thesis by (simp add: Let_def sample_def empty_bal_def locks_def sm_get_def binding_def)
qed

text \<open>
  C12. A vested transfer to another account never panics; if it is refused nothing changes. Otherwise the
  recipient has the amount, its schedule is on record unless it has already ended, and what is not yet
  vested cannot be moved: any transfer that the recipient makes at this point leaves it in the account.
\<close>

theorem vested_transfer_correct:
  assumes "lookup target = Some who" "t \<noteq> who" "0 < locked v" "locked v < 2 ^ 128"
  shows "\<exists>r s'. call_vested_transfer ed convert lookup m (Some (Signed t)) target v s = Some (r, s') \<and>
    (case r of
       Inl e \<Rightarrow> s' = s
     | Inr _ \<Rightarrow>
         free_balance who (balances s') = free_balance who (balances s) + locked v \<and>
         (let left = locked v - convert (Number (balances s) - starting_block v) * per_block v in
          Vesting s' = (Vesting s)(who := if left = 0 then None else Some v) \<and>
          (\<forall>dst w req c. who \<noteq> dst \<and> w \<noteq> 0 \<and> transfer ed who dst w req (balances s') = (Ok (), c) \<longrightarrow>
             left + w \<le> free_balance who (balances s'))))"
proof (cases "m \<le> locked v \<and> Vesting s who = None")
  case False
  then show ?thesis
    using assms(1) by (auto simp: call_vested_transfer_def ensure_signed_def and_then_def ensure_def lookup_or_def ok_or_def
        sm_contains_key_def split: option.splits)
next
  case True
  let ?left = "locked v - convert (Number (balances s) - starting_block v) * per_block v"
  obtain r c where t: "transfer ed t who (locked v) AllowDeath (balances s) = (r, c)" by fastforce
  let ?s1 = "s\<lparr>balances := c, Vesting := (Vesting s)(who \<mapsto> v)\<rparr>"
  have call: "call_vested_transfer ed convert lookup m (Some (Signed t)) target v s =
      Some (case r of Inl e \<Rightarrow> (Err e, s\<lparr>balances := c\<rparr>) | Inr _ \<Rightarrow> (Ok (), snd (update_lock ed convert who ?s1)))"
    using call_vested_transfer_eq [of lookup target who v m s ed t r c convert] assms(1,3) t True by simp
  have "locked v \<noteq> 0" using assms(3) by simp
  from t this assms(2) show ?thesis
  proof (cases rule: transfer_cases)
    case (err e)
    then show ?thesis using call by simp
  next
    case (ok s1 s2)
    obtain r' s' where u: "update_lock ed convert who ?s1 = (r', s')" by fastforce
    have n: "Number c = Number (balances s)" using ok(7-9) by (simp add: mutated_def)
    have acc: "account who c = (account who (balances s))\<lparr>free := free (account who (balances s)) + locked v\<rparr>"
      using mutated_shown [OF ok(8)] ok(4,9) same_accounts(2) [of c s2] by (simp add: shown_def)
    have alive: "ed \<le> total (account who (balances ?s1))" using ok(4) acc by simp
    note eff = update_lock_effect [where s = ?s1 and v = v, OF _ alive u refl]
    have left: "locked_at convert v (Number (balances ?s1)) = ?left" using locked_at_exact [OF assms(4)] n by simp
    have "?left + w \<le> free_balance who (balances s')"
      if "who \<noteq> dst" "w \<noteq> 0" "transfer ed who dst w req (balances s') = (Ok (), c')" for dst w req c'
    proof -
      have "misc_frozen (account who (balances s')) + w \<le> free (account who (balances s'))"
        using that(3,2,1) by (cases rule: transfer_cases) (auto simp: frozen_def reasons_transfer)
      moreover have "?left \<le> misc_frozen (account who (balances s'))" using eff(6) left by simp
      ultimately show ?thesis by (simp add: free_balance_def)
    qed
    then show ?thesis using call ok(1) u eff(2,5) acc True left by (auto simp: free_balance_def Let_def)
  qed
qed

theorem vested_transfer_correct_witness:
  "\<exists>s'. call_vested_transfer 10 id Some 20 (Some (Signed 1)) 2 \<lparr>locked = 60, per_block = 10, starting_block = 0\<rparr>
      \<lparr>balances = sample, Vesting = Map.empty\<rparr> = Some (Ok (), s') \<and>
    free_balance 2 (balances s') = 110 \<and> Vesting s' 2 = Some \<lparr>locked = 60, per_block = 10, starting_block = 0\<rparr>"
proof -
  let ?v = "\<lparr>locked = 60, per_block = 10, starting_block = 0\<rparr>" and ?s = "\<lparr>balances = sample, Vesting = Map.empty\<rparr>"
  have n: "Number sample = 1" by (simp add: sample_def empty_bal_def)
  obtain c where t: "transfer 10 1 2 60 AllowDeath sample = (Ok (), c)"
    using transfer_success [of 60 1 2 sample 10 AllowDeath] by (auto simp: default_data_def total_def saturating_add_def u_max_def)
  obtain s' where c: "call_vested_transfer 10 id Some 20 (Some (Signed 1)) 2 ?v ?s = Some (Ok (), s')"
    using call_vested_transfer_eq [of Some 2 2 ?v 20 ?s 10 1 "Ok ()" c id] t by simp
  then show ?thesis
    using vested_transfer_correct [of Some 2 2 1 ?v 10 id 20 ?s]
    by (simp add: free_balance_def default_data_def n)
qed

end
