(* ===== verification/Ancestry.thy ===== *)
theory Ancestry
  imports Prelude
begin

text \<open>
  What the code that orders blocks relies on of block ancestry: it is a strict order in which the
  ancestors of a block form a chain, and numbers grow along it. The tree of headers provides it, the
  fork tree and what is built on it are its clients.
\<close>

locale ancestry =
  fixes anc :: "'h \<Rightarrow> 'h \<Rightarrow> bool"
    and num :: "'h \<Rightarrow> 'n::linorder"
  assumes anc_trans: "anc a b \<Longrightarrow> anc b c \<Longrightarrow> anc a c"
    and anc_linear: "anc a c \<Longrightarrow> anc b c \<Longrightarrow> a = b \<or> anc a b \<or> anc b a"
    and anc_num: "anc a b \<Longrightarrow> num a < num b"
begin

lemma anc_irrefl: "\<not> anc a a"
  using anc_num by blast

lemma anc_asym: "anc a b \<Longrightarrow> \<not> anc b a"
  using anc_num order.asym by blast

lemma anc_neq: "anc a b \<Longrightarrow> a \<noteq> b"
  using anc_irrefl by blast

text \<open>Two ancestors of a block are ordered by their numbers.\<close>

lemma anc_by_num: "anc a c \<Longrightarrow> anc b c \<Longrightarrow> num a < num b \<longleftrightarrow> anc a b"
  using anc_linear [of a c b] anc_num [of a b] anc_num [of b a] by force

lemma anc_eq_num: "anc a c \<Longrightarrow> anc b c \<Longrightarrow> num a = num b \<longleftrightarrow> a = b"
  by (metis anc_linear anc_num less_irrefl)

end

end
