(* ===== verification/Header_Metadata.thy ===== *)
theory Header_Metadata
  imports Ancestry
begin

text \<open>
  The tree of block headers: header metadata with cached ancestor links, the search for the lowest
  common ancestor and the route between two blocks (\<open>primitives/blockchain/src/header_metadata.rs\<close>),
  the database as their backend (\<open>client/db/src/lib.rs\<close>) and the ancestry test built on them
  (\<open>client/api/src/lib.rs\<close>). The LRU cache is a library: its operations are the
  parameter \<open>lru\<close>, of which the theorems assume \<open>lru_laws\<close>. The loops follow links and need
  not end on arbitrary data: a loop that does not return has the value \<open>None\<close>.
\<close>

section \<open>The backend\<close>

record 'h CachedHeaderMetadata =
  hm_hash :: 'h
  hm_number :: nat
  hm_parent :: 'h
  hm_ancestor :: 'h

record 'h HashAndNumber =
  hn_number :: nat
  hn_hash :: 'h

text \<open>A header, as far as the metadata goes: its number and its parent's hash, under its own hash.\<close>

type_synonym 'h headers = "'h \<rightharpoonup> nat \<times> 'h"

text \<open>The operations of the LRU cache; a lookup changes the order in which entries will be dropped.\<close>

record ('c, 'h) LruCache =
  lru_get :: "'h \<Rightarrow> 'c \<Rightarrow> 'h CachedHeaderMetadata option \<times> 'c"
  lru_put :: "'h \<Rightarrow> 'h CachedHeaderMetadata \<Rightarrow> 'c \<Rightarrow> 'c"
  lru_pop :: "'h \<Rightarrow> 'c \<Rightarrow> 'c"

record ('c, 'h) blockchain_db =
  db_headers :: "'h headers"
  header_metadata_cache :: 'c

datatype 'h client_error = UnknownBlock 'h

definition metadata_from :: "'h \<Rightarrow> nat \<times> 'h \<Rightarrow> 'h CachedHeaderMetadata" where
  "metadata_from h header =
     \<lparr>hm_hash = h, hm_number = fst header, hm_parent = snd header, hm_ancestor = snd header\<rparr>"

definition insert_header_metadata ::
  "('c, 'h) LruCache \<Rightarrow> 'h \<Rightarrow> 'h CachedHeaderMetadata \<Rightarrow> ('c, 'h) blockchain_db \<Rightarrow> ('c, 'h) blockchain_db" where
  "insert_header_metadata lru h metadata s =
     s\<lparr>header_metadata_cache := lru_put lru h metadata (header_metadata_cache s)\<rparr>"

definition remove_header_metadata ::
  "('c, 'h) LruCache \<Rightarrow> 'h \<Rightarrow> ('c, 'h) blockchain_db \<Rightarrow> ('c, 'h) blockchain_db" where
  "remove_header_metadata lru h s = s\<lparr>header_metadata_cache := lru_pop lru h (header_metadata_cache s)\<rparr>"

definition header_metadata ::
  "('c, 'h) LruCache \<Rightarrow> 'h \<Rightarrow> ('c, 'h) blockchain_db \<Rightarrow>
   ('h CachedHeaderMetadata, 'h client_error) result \<times> ('c, 'h) blockchain_db" where
  "header_metadata lru h s =
     (case lru_get lru h (header_metadata_cache s) of
        (Some m, cache) \<Rightarrow> (Ok m, s\<lparr>header_metadata_cache := cache\<rparr>)
      | (None, cache) \<Rightarrow>
          (case db_headers s h of
             Some header \<Rightarrow>
               let m = metadata_from h header in
               (Ok m, insert_header_metadata lru (hm_hash m) m (s\<lparr>header_metadata_cache := cache\<rparr>))
           | None \<Rightarrow> (Err (UnknownBlock h), s\<lparr>header_metadata_cache := cache\<rparr>)))"

section \<open>The lowest common ancestor\<close>

text \<open>
  The first two loops of \<open>lowest_common_ancestor\<close>: follow the ancestor links of a header as long as
  they stay at or above a number.
\<close>

partial_function (option) jump ::
  "('c, 'h) LruCache \<Rightarrow> 'h CachedHeaderMetadata \<Rightarrow> nat \<Rightarrow> ('c, 'h) blockchain_db \<Rightarrow>
   (('h CachedHeaderMetadata, 'h client_error) result \<times> ('c, 'h) blockchain_db) option" where
  "jump lru header n s =
     (if hm_number header > n
      then (case header_metadata lru (hm_ancestor header) s of
              (Inl e, s1) \<Rightarrow> Some (Err e, s1)
            | (Inr ancestor, s1) \<Rightarrow>
                if hm_number ancestor \<ge> n then jump lru ancestor n s1 else Some (Ok header, s1))
      else Some (Ok header, s))"

text \<open>The third loop: follow the parent links of the higher header until the two meet.\<close>

partial_function (option) meet ::
  "('c, 'h) LruCache \<Rightarrow> 'h CachedHeaderMetadata \<Rightarrow> 'h CachedHeaderMetadata \<Rightarrow> ('c, 'h) blockchain_db \<Rightarrow>
   (('h CachedHeaderMetadata, 'h client_error) result \<times> ('c, 'h) blockchain_db) option" where
  "meet lru header_one header_two s =
     (if hm_hash header_one \<noteq> hm_hash header_two
      then if hm_number header_one > hm_number header_two
           then (case header_metadata lru (hm_parent header_one) s of
                   (Inl e, s1) \<Rightarrow> Some (Err e, s1)
                 | (Inr p, s1) \<Rightarrow> meet lru p header_two s1)
           else (case header_metadata lru (hm_parent header_two) s of
                   (Inl e, s1) \<Rightarrow> Some (Err e, s1)
                 | (Inr p, s1) \<Rightarrow> meet lru header_one p s1)
      else Some (Ok header_one, s))"

text \<open>The update of a cached ancestor link after the search.\<close>

definition update_ancestor ::
  "('c, 'h) LruCache \<Rightarrow> 'h CachedHeaderMetadata \<Rightarrow> 'h CachedHeaderMetadata \<Rightarrow> ('c, 'h) blockchain_db \<Rightarrow> ('c, 'h) blockchain_db" where
  "update_ancestor lru orig common s =
     (if hm_number orig > hm_number common
      then insert_header_metadata lru (hm_hash orig) (orig\<lparr>hm_ancestor := hm_hash common\<rparr>) s
      else s)"

definition lowest_common_ancestor ::
  "('c, 'h) LruCache \<Rightarrow> 'h \<Rightarrow> 'h \<Rightarrow> ('c, 'h) blockchain_db \<Rightarrow>
   (('h HashAndNumber, 'h client_error) result \<times> ('c, 'h) blockchain_db) option" where
  "lowest_common_ancestor lru id_one id_two s0 =
     (case header_metadata lru id_one s0 of
        (Inl e, s1) \<Rightarrow> Some (Err e, s1)
      | (Inr orig_one, s1) \<Rightarrow>
          (case header_metadata lru id_two s1 of
             (Inl e, s2) \<Rightarrow> Some (Err e, s2)
           | (Inr orig_two, s2) \<Rightarrow>
               (case jump lru orig_one (hm_number orig_two) s2 of
                  None \<Rightarrow> None
                | Some (Inl e, s3) \<Rightarrow> Some (Err e, s3)
                | Some (Inr one, s3) \<Rightarrow>
                    (case jump lru orig_two (hm_number one) s3 of
                       None \<Rightarrow> None
                     | Some (Inl e, s4) \<Rightarrow> Some (Err e, s4)
                     | Some (Inr two, s4) \<Rightarrow>
                         (case meet lru one two s4 of
                            None \<Rightarrow> None
                          | Some (Inl e, s5) \<Rightarrow> Some (Err e, s5)
                          | Some (Inr common, s5) \<Rightarrow>
                              Some (Ok \<lparr>hn_number = hm_number common, hn_hash = hm_hash common\<rparr>,
                                update_ancestor lru orig_two common (update_ancestor lru orig_one common s5)))))))"

section \<open>Ancestry\<close>

text \<open>
  The function \<open>is_descendent_of\<close> returns; \<open>current\<close> is a block that is not in the database yet, with
  its parent.
\<close>

definition is_descendent_of ::
  "('c, 'h) LruCache \<Rightarrow> ('h \<times> 'h) option \<Rightarrow> 'h \<Rightarrow> 'h \<Rightarrow> ('c, 'h) blockchain_db \<Rightarrow>
   ((bool, 'h client_error) result \<times> ('c, 'h) blockchain_db) option" where
  "is_descendent_of lru current base hash s =
     (if base = hash then Some (Ok False, s)
      else
        let search = (\<lambda>h. case lowest_common_ancestor lru h base s of
                             None \<Rightarrow> None
                           | Some (Inl e, s1) \<Rightarrow> Some (Err e, s1)
                           | Some (Inr ancestor, s1) \<Rightarrow> Some (Ok (hn_hash ancestor = base), s1))
        in case current of
             Some (current_hash, current_parent_hash) \<Rightarrow>
               if base = current_hash then Some (Ok False, s)
               else if hash = current_hash
               then if base = current_parent_hash then Some (Ok True, s) else search current_parent_hash
               else search hash
           | None \<Rightarrow> search hash)"

section \<open>Routes\<close>

record 'h TreeRoute =
  route :: "'h HashAndNumber list"
  pivot :: nat

text \<open>The first two loops of \<open>tree_route\<close>: descend to a number, collecting the branch.\<close>

partial_function (option) descend ::
  "('c, 'h) LruCache \<Rightarrow> 'h CachedHeaderMetadata \<Rightarrow> nat \<Rightarrow> 'h HashAndNumber list \<Rightarrow> ('c, 'h) blockchain_db \<Rightarrow>
   (('h CachedHeaderMetadata \<times> 'h HashAndNumber list, 'h client_error) result \<times> ('c, 'h) blockchain_db) option" where
  "descend lru header n branch s =
     (if hm_number header > n
      then (case header_metadata lru (hm_parent header) s of
              (Inl e, s1) \<Rightarrow> Some (Err e, s1)
            | (Inr p, s1) \<Rightarrow>
                descend lru p n (branch @ [\<lparr>hn_number = hm_number header, hn_hash = hm_hash header\<rparr>]) s1)
      else Some (Ok (header, branch), s))"

text \<open>The last loop: step back on both sides until the block is the same.\<close>

partial_function (option) converge ::
  "('c, 'h) LruCache \<Rightarrow> 'h CachedHeaderMetadata \<Rightarrow> 'h HashAndNumber list \<Rightarrow>
   'h CachedHeaderMetadata \<Rightarrow> 'h HashAndNumber list \<Rightarrow> ('c, 'h) blockchain_db \<Rightarrow>
   (('h CachedHeaderMetadata \<times> 'h HashAndNumber list \<times> 'h HashAndNumber list, 'h client_error) result \<times>
    ('c, 'h) blockchain_db) option" where
  "converge lru from from_branch to to_branch s =
     (if hm_hash to \<noteq> hm_hash from
      then let to_branch' = to_branch @ [\<lparr>hn_number = hm_number to, hn_hash = hm_hash to\<rparr>] in
           (case header_metadata lru (hm_parent to) s of
              (Inl e, s1) \<Rightarrow> Some (Err e, s1)
            | (Inr to', s1) \<Rightarrow>
                let from_branch' = from_branch @ [\<lparr>hn_number = hm_number from, hn_hash = hm_hash from\<rparr>] in
                (case header_metadata lru (hm_parent from) s1 of
                   (Inl e, s2) \<Rightarrow> Some (Err e, s2)
                 | (Inr from', s2) \<Rightarrow> converge lru from' from_branch' to' to_branch' s2))
      else Some (Ok (to, from_branch, to_branch), s))"

definition tree_route ::
  "('c, 'h) LruCache \<Rightarrow> 'h \<Rightarrow> 'h \<Rightarrow> ('c, 'h) blockchain_db \<Rightarrow>
   (('h TreeRoute, 'h client_error) result \<times> ('c, 'h) blockchain_db) option" where
  "tree_route lru from_hash to_hash s0 =
     (case header_metadata lru from_hash s0 of
        (Inl e, s1) \<Rightarrow> Some (Err e, s1)
      | (Inr from, s1) \<Rightarrow>
          (case header_metadata lru to_hash s1 of
             (Inl e, s2) \<Rightarrow> Some (Err e, s2)
           | (Inr to, s2) \<Rightarrow>
               (case descend lru to (hm_number from) [] s2 of
                  None \<Rightarrow> None
                | Some (Inl e, s3) \<Rightarrow> Some (Err e, s3)
                | Some (Inr (to', to_branch), s3) \<Rightarrow>
                    (case descend lru from (hm_number to') [] s3 of
                       None \<Rightarrow> None
                     | Some (Inl e, s4) \<Rightarrow> Some (Err e, s4)
                     | Some (Inr (from', from_branch), s4) \<Rightarrow>
                         (case converge lru from' from_branch to' to_branch s4 of
                            None \<Rightarrow> None
                          | Some (Inl e, s5) \<Rightarrow> Some (Err e, s5)
                          | Some (Inr (common, from_branch', to_branch'), s5) \<Rightarrow>
                              Some (Ok \<lparr>route = from_branch' @
                                  [\<lparr>hn_number = hm_number common, hn_hash = hm_hash common\<rparr>] @ rev to_branch',
                                pivot = length from_branch'\<rparr>, s5))))))"

definition retracted :: "'h TreeRoute \<Rightarrow> 'h HashAndNumber list" where
  "retracted r = take (pivot r) (route r)"

text \<open>The pivot is an index of the route; \<open>None\<close> is the panic of \<open>expect\<close>.\<close>

definition common_block :: "'h TreeRoute \<Rightarrow> 'h HashAndNumber option" where
  "common_block r = (if pivot r < length (route r) then Some (route r ! pivot r) else None)"

definition enacted :: "'h TreeRoute \<Rightarrow> 'h HashAndNumber list" where
  "enacted r = drop (pivot r + 1) (route r)"

section \<open>The tree the headers span\<close>

text \<open>The parent of a block that is not the genesis block.\<close>

definition parent_of :: "'h headers \<Rightarrow> 'h \<Rightarrow> 'h option" where
  "parent_of H h = (case H h of Some (n, p) \<Rightarrow> if n > 0 then Some p else None | None \<Rightarrow> None)"

definition num_of :: "'h headers \<Rightarrow> 'h \<Rightarrow> nat" where
  "num_of H h = (case H h of Some (n, p) \<Rightarrow> n | None \<Rightarrow> 0)"

text \<open>Every block but the one genesis block has its parent in the database, one number below.\<close>

definition wf_headers :: "'h headers \<Rightarrow> bool" where
  "wf_headers H \<longleftrightarrow>
     (\<forall>h p. parent_of H h = Some p \<longrightarrow> H p \<noteq> None \<and> Suc (num_of H p) = num_of H h) \<and>
     (\<forall>h h'. H h \<noteq> None \<and> H h' \<noteq> None \<and> num_of H h = 0 \<and> num_of H h' = 0 \<longrightarrow> h = h')"

inductive parents :: "'h headers \<Rightarrow> 'h \<Rightarrow> 'h \<Rightarrow> bool" for H where
  one: "parent_of H b = Some a \<Longrightarrow> parents H a b"
| more: "parents H a p \<Longrightarrow> parent_of H b = Some p \<Longrightarrow> parents H a b"

inductive_cases parents_elim: "parents H a b"

definition header_anc :: "'h headers \<Rightarrow> 'h \<Rightarrow> 'h \<Rightarrow> bool" where
  "header_anc H a b \<longleftrightarrow> wf_headers H \<and> parents H a b"

lemma parents_trans: "parents H b c \<Longrightarrow> parents H a b \<Longrightarrow> parents H a c"
  by (induction rule: parents.induct) (auto intro: parents.more)

lemma parents_linear: "parents H a c \<Longrightarrow> parents H b c \<Longrightarrow> a = b \<or> parents H a b \<or> parents H b a"
proof (induction arbitrary: b rule: parents.induct)
  case (one c a)
  then show ?case by (auto elim: parents_elim)
next
  case (more a p c)
  from more.prems more.hyps(2) have "b = p \<or> parents H b p" by (auto elim: parents_elim)
  then show ?case using more.hyps(1) more.IH by blast
qed

lemma parents_num: "parents H a b \<Longrightarrow> wf_headers H \<Longrightarrow> num_of H a < num_of H b"
  by (induction rule: parents.induct) (force simp: wf_headers_def)+

interpretation header_tree: ancestry "header_anc H" "num_of H"
  for H
  by unfold_locales (auto simp: header_anc_def intro: parents_trans parents_num dest: parents_linear)

text \<open>An ancestor, or the block itself.\<close>

definition above :: "'h headers \<Rightarrow> 'h \<Rightarrow> 'h \<Rightarrow> bool" where
  "above H a b \<longleftrightarrow> H b \<noteq> None \<and> (a = b \<or> header_anc H a b)"

text \<open>The lowest common ancestor, as a property.\<close>

definition is_lca :: "'h headers \<Rightarrow> 'h \<Rightarrow> 'h \<Rightarrow> 'h \<Rightarrow> bool" where
  "is_lca H c a b \<longleftrightarrow> above H c a \<and> above H c b \<and> (\<forall>d. above H d a \<and> above H d b \<longrightarrow> above H d c)"

lemma parent_known: "wf_headers H \<Longrightarrow> parent_of H h = Some p \<Longrightarrow> H p \<noteq> None \<and> Suc (num_of H p) = num_of H h"
  by (simp add: wf_headers_def)

lemma above_known: "above H a b \<Longrightarrow> H a \<noteq> None"
proof -
  have "H a \<noteq> None" if "parents H a b" "wf_headers H" for b
    using that by (induction rule: parents.induct) (simp_all add: parent_known)
  then show "above H a b \<Longrightarrow> H a \<noteq> None" by (auto simp: above_def header_anc_def)
qed

lemma above_num: "above H a b \<Longrightarrow> num_of H a \<le> num_of H b"
  by (auto simp: above_def dest: header_tree.anc_num)

lemma above_eq: "above H a b \<Longrightarrow> num_of H a = num_of H b \<Longrightarrow> a = b"
  by (auto simp: above_def dest: header_tree.anc_num)

lemma above_antisym: "above H a b \<Longrightarrow> above H b a \<Longrightarrow> a = b"
  using above_num [of H b a] above_num [of H a b] above_eq [of H a b] by simp

lemma above_refl: "H a \<noteq> None \<Longrightarrow> above H a a"
  by (simp add: above_def)

lemma above_trans: "above H a b \<Longrightarrow> above H b c \<Longrightarrow> above H a c"
  by (auto simp: above_def intro: header_tree.anc_trans)

lemma above_linear:
  assumes "above H a c" "above H b c" "num_of H a \<le> num_of H b"
  shows "above H a b"
proof -
  have "a = b \<or> header_anc H a b \<or> header_anc H b a"
    using assms header_tree.anc_linear [of H a c b] by (auto simp: above_def)
  then show ?thesis
    using assms header_tree.anc_num [of H b a] above_known [OF assms(2)] by (auto simp: above_def)
qed

lemma above_parent:
  assumes "wf_headers H" "parent_of H b = Some p"
  shows "above H a b \<longleftrightarrow> a = b \<or> above H a p"
proof -
  have "H b \<noteq> None" using assms(2) by (auto simp: parent_of_def split: option.splits)
  moreover have "parents H a b \<longleftrightarrow> a = p \<or> parents H a p"
    using assms(2) by (auto intro: parents.intros elim: parents_elim)
  ultimately show ?thesis using assms parent_known [OF assms] by (auto simp: above_def header_anc_def)
qed

text \<open>Moving one of the two blocks towards its parent does not change the lowest common ancestor.\<close>

lemma is_lca_self: "H a \<noteq> None \<Longrightarrow> is_lca H a a a"
  by (simp add: is_lca_def above_refl)

lemma is_lca_sym: "is_lca H c a b \<longleftrightarrow> is_lca H c b a"
  by (auto simp: is_lca_def)

lemma is_lca_parent:
  assumes "wf_headers H" "parent_of H a = Some p" "num_of H b \<le> num_of H a" "a \<noteq> b" "is_lca H c p b"
  shows "is_lca H c a b"
proof -
  have "\<not> above H a b"
    using assms(3,4) above_num [of H a b] above_eq [of H a b] by auto
  then show ?thesis using assms(5) by (auto simp: is_lca_def above_parent [OF assms(1,2)])
qed

lemma is_lca_parent2:
  assumes "wf_headers H" "parent_of H b = Some p" "num_of H a \<le> num_of H b" "a \<noteq> b" "is_lca H c a p"
  shows "is_lca H c a b"
  using is_lca_parent [OF assms(1-3) not_sym [OF assms(4)]] assms(5) by (simp only: is_lca_sym)

lemma is_lca_jump:
  assumes "above H a' a" "num_of H b \<le> num_of H a'" "is_lca H c a' b"
  shows "is_lca H c a b"
proof -
  have "above H d a'" if "above H d a" "above H d b" for d
    by (rule above_linear [OF that(1) assms(1)]) (use above_num [OF that(2)] assms(2) in simp)
  moreover have "above H c a" using assms(1,3) above_trans [of H c a' a] by (simp add: is_lca_def)
  ultimately show ?thesis using assms(3) unfolding is_lca_def by simp
qed

lemma is_lca_anc:
  assumes "is_lca H c a b" "b \<noteq> a"
  shows "c = b \<longleftrightarrow> header_anc H b a"
  using assms header_tree.anc_irrefl by (auto simp: is_lca_def above_def dest: header_tree.anc_asym)

section \<open>The loops return, and what they return\<close>

text \<open>
  Metadata that says the truth, with an ancestor link that leads to an ancestor; the backend's
  invariant is that its cache holds such metadata, under the right hash.
\<close>

definition meta_ok :: "'h headers \<Rightarrow> 'h CachedHeaderMetadata \<Rightarrow> bool" where
  "meta_ok H m \<longleftrightarrow> H (hm_hash m) = Some (hm_number m, hm_parent m) \<and>
     (hm_number m > 0 \<longrightarrow> header_anc H (hm_ancestor m) (hm_hash m))"

definition wf_db :: "('c \<Rightarrow> 'h \<rightharpoonup> 'h CachedHeaderMetadata) \<Rightarrow> ('c, 'h) blockchain_db \<Rightarrow> bool" where
  "wf_db entries s \<longleftrightarrow> wf_headers (db_headers s) \<and>
     (\<forall>h m. entries (header_metadata_cache s) h = Some m \<longrightarrow> hm_hash m = h \<and> meta_ok (db_headers s) m)"

text \<open>
  What the cache promises of the entries it holds: a lookup finds the entry and keeps all of them, an
  insertion adds one and may drop others, a removal removes one.
\<close>

definition lru_laws :: "('c, 'h) LruCache \<Rightarrow> ('c \<Rightarrow> 'h \<rightharpoonup> 'h CachedHeaderMetadata) \<Rightarrow> bool" where
  "lru_laws lru entries \<longleftrightarrow>
     (\<forall>h c. fst (lru_get lru h c) = entries c h \<and> entries (snd (lru_get lru h c)) = entries c) \<and>
     (\<forall>h m c. entries (lru_put lru h m c) \<subseteq>\<^sub>m (entries c)(h \<mapsto> m)) \<and>
     (\<forall>h c. entries (lru_pop lru h c) = (entries c)(h := None))"

lemma meta_ok_num: "meta_ok H m \<Longrightarrow> num_of H (hm_hash m) = hm_number m"
  by (simp add: meta_ok_def num_of_def)

lemma meta_ok_known: "meta_ok H m \<Longrightarrow> H (hm_hash m) \<noteq> None"
  by (simp add: meta_ok_def)

lemma meta_ok_self: "meta_ok H m \<Longrightarrow> above H (hm_hash m) (hm_hash m)"
  by (simp add: meta_ok_def above_def)

lemma meta_ok_parent: "meta_ok H m \<Longrightarrow> hm_number m > 0 \<Longrightarrow> parent_of H (hm_hash m) = Some (hm_parent m)"
  by (simp add: meta_ok_def parent_of_def)

lemma insert_wf:
  assumes "wf_db entries s" "lru_laws lru entries" "meta_ok (db_headers s) m"
  shows "wf_db entries (insert_header_metadata lru (hm_hash m) m s)"
proof -
  let ?c = "header_metadata_cache s" and ?c' = "lru_put lru (hm_hash m) m (header_metadata_cache s)"
  have "entries ?c' \<subseteq>\<^sub>m (entries ?c)(hm_hash m \<mapsto> m)" using assms(2) by (simp add: lru_laws_def)
  then have "h = hm_hash m \<and> x = m \<or> entries ?c h = Some x" if "entries ?c' h = Some x" for h x
    using that by (auto simp: map_le_def dom_def split: if_splits dest!: spec [of _ h])
  then show ?thesis
    using assms(1,3) unfolding wf_db_def insert_header_metadata_def by fastforce
qed

lemma header_metadata_ok:
  assumes "wf_db entries s" "lru_laws lru entries" "db_headers s h \<noteq> None"
  obtains m s' where "header_metadata lru h s = (Inr m, s')" "wf_db entries s'" "db_headers s' = db_headers s"
    "hm_hash m = h" "meta_ok (db_headers s) m"
proof -
  obtain r c where g: "lru_get lru h (header_metadata_cache s) = (r, c)" by (rule prod.exhaust)
  then have r: "r = entries (header_metadata_cache s) h" and c: "entries c = entries (header_metadata_cache s)"
    using assms(2) unfolding lru_laws_def by (metis fst_conv snd_conv)+
  let ?s = "s\<lparr>header_metadata_cache := c\<rparr>"
  have wf: "wf_db entries ?s" using assms(1) c by (simp add: wf_db_def)
  show ?thesis
  proof (cases r)
    case (Some m)
    then show ?thesis
      using assms(1) wf r g by (intro that [of m ?s]) (auto simp: header_metadata_def wf_db_def)
  next
    case None
    obtain n p where h: "db_headers s h = Some (n, p)" using assms(3) by auto
    let ?m = "metadata_from h (n, p)"
    have ok: "meta_ok (db_headers ?s) ?m"
      using h assms(1)
      by (auto simp: meta_ok_def metadata_from_def header_anc_def wf_db_def parent_of_def intro: parents.one)
    have m: "hm_hash ?m = h" by (simp add: metadata_from_def)
    show ?thesis
      using insert_wf [OF wf assms(2) ok] None h m ok g
      by (intro that [of ?m "insert_header_metadata lru h ?m ?s"])
         (auto simp: header_metadata_def insert_header_metadata_def Let_def)
  qed
qed

text \<open>The result of a loop: a header of the same tree, the backend still in order.\<close>

definition reaches ::
  "('c \<Rightarrow> 'h \<rightharpoonup> 'h CachedHeaderMetadata) \<Rightarrow> 'h headers \<Rightarrow> ('h CachedHeaderMetadata \<Rightarrow> bool) \<Rightarrow>
   (('h CachedHeaderMetadata, 'h client_error) result \<times> ('c, 'h) blockchain_db) option \<Rightarrow> bool" where
  "reaches entries H Q r \<longleftrightarrow>
     (\<exists>m s. r = Some (Inr m, s) \<and> wf_db entries s \<and> db_headers s = H \<and> meta_ok H m \<and> Q m)"

lemma reachesI: "wf_db entries s \<Longrightarrow> db_headers s = H \<Longrightarrow> meta_ok H m \<Longrightarrow> Q m \<Longrightarrow> reaches entries H Q (Some (Inr m, s))"
  by (simp add: reaches_def)

lemma reaches_mono: "reaches entries H Q r \<Longrightarrow> (\<And>m. meta_ok H m \<Longrightarrow> Q m \<Longrightarrow> R m) \<Longrightarrow> reaches entries H R r"
  by (auto simp: reaches_def)

lemma jump_returns:
  assumes "wf_db entries s" "lru_laws lru entries" "db_headers s = H" "meta_ok H m" "n \<le> hm_number m"
  shows "reaches entries H (\<lambda>m'. n \<le> hm_number m' \<and> above H (hm_hash m') (hm_hash m)) (jump lru m n s)"
  using assms
proof (induction "hm_number m" arbitrary: m s rule: less_induct)
  case less
  show ?case
  proof (cases "n < hm_number m")
    case False
    then show ?thesis
      using less.prems meta_ok_self [OF less.prems(4)] by (subst jump.simps) (simp add: reachesI)
  next
    case True
    then have a: "header_anc H (hm_ancestor m) (hm_hash m)" using less.prems(4) by (simp add: meta_ok_def)
    then have u: "above H (hm_ancestor m) (hm_hash m)" using meta_ok_known [OF less.prems(4)] by (simp add: above_def)
    obtain k s1 where k: "header_metadata lru (hm_ancestor m) s = (Inr k, s1)" "wf_db entries s1" "db_headers s1 = H"
      "hm_hash k = hm_ancestor m" "meta_ok H k"
      using header_metadata_ok [OF less.prems(1,2)] above_known [OF u] less.prems(3) by metis
    have lt: "hm_number k < hm_number m"
      using header_tree.anc_num [OF a] k(4) meta_ok_num [OF k(5)] meta_ok_num [OF less.prems(4)] by simp
    have j: "jump lru m n s = (if n \<le> hm_number k then jump lru k n s1 else Some (Inr m, s1))"
      using True k(1) by (subst jump.simps) simp
    show ?thesis
    proof (cases "n \<le> hm_number k")
      case True
      from less.hyps [OF lt k(2) less.prems(2) k(3,5) True] show ?thesis
        unfolding j if_P [OF True] by (rule reaches_mono) (use u k(4) above_trans in auto)
    next
      case False
      then show ?thesis
        unfolding j using k less.prems meta_ok_self [OF less.prems(4)] by (simp add: reachesI)
    qed
  qed
qed

lemma meet_returns:
  assumes "wf_db entries s" "lru_laws lru entries" "db_headers s = H" "meta_ok H one" "meta_ok H two"
  shows "reaches entries H (\<lambda>c. is_lca H (hm_hash c) (hm_hash one) (hm_hash two)) (meet lru one two s)"
  using assms
proof (induction "hm_number one + hm_number two" arbitrary: one two s rule: less_induct)
  case less
  note num = meta_ok_num [OF less.prems(4)] meta_ok_num [OF less.prems(5)]
  have wf: "wf_headers H" using less.prems(1,3) by (auto simp: wf_db_def)
  have step: "\<exists>p s1. header_metadata lru (hm_parent m) s = (Inr p, s1) \<and> wf_db entries s1 \<and> db_headers s1 = H \<and>
      hm_hash p = hm_parent m \<and> meta_ok H p \<and> Suc (hm_number p) = hm_number m \<and>
      parent_of H (hm_hash m) = Some (hm_hash p)"
    if "meta_ok H m" "0 < hm_number m" for m
  proof -
    note p = meta_ok_parent [OF that] parent_known [OF wf meta_ok_parent [OF that]]
    obtain p s1 where "header_metadata lru (hm_parent m) s = (Inr p, s1)" "wf_db entries s1" "db_headers s1 = H"
      "hm_hash p = hm_parent m" "meta_ok H p"
      using header_metadata_ok [OF less.prems(1,2)] p(2) less.prems(3) by metis
    then show ?thesis using p meta_ok_num [of H p] meta_ok_num [OF that(1)] by auto
  qed
  consider (same) "hm_hash one = hm_hash two" | (left) "hm_hash one \<noteq> hm_hash two" "hm_number two < hm_number one"
    | (right) "hm_hash one \<noteq> hm_hash two" "hm_number one \<le> hm_number two" by linarith
  then show ?case
  proof cases
    case same
    then show ?thesis
      using less.prems is_lca_self [of H "hm_hash one"] meta_ok_known [OF less.prems(4)] by (subst meet.simps) (simp add: reachesI)
  next
    case left
    then obtain p s1 where p: "header_metadata lru (hm_parent one) s = (Inr p, s1)" "wf_db entries s1" "db_headers s1 = H"
      "meta_ok H p" "Suc (hm_number p) = hm_number one" "parent_of H (hm_hash one) = Some (hm_hash p)"
      using step [OF less.prems(4)] by auto
    have "meet lru one two s = meet lru p two s1" using left p(1) by (subst meet.simps) simp
    moreover have "reaches entries H (\<lambda>c. is_lca H (hm_hash c) (hm_hash p) (hm_hash two)) (meet lru p two s1)"
      using less.hyps [OF _ p(2) less.prems(2) p(3,4) less.prems(5)] p(5) by simp
    ultimately show ?thesis
      using left num is_lca_parent [OF wf p(6)] by (auto elim!: reaches_mono)
  next
    case right
    have "0 < hm_number two"
    proof (rule ccontr)
      assume "\<not> 0 < hm_number two"
      then have "hm_hash one = hm_hash two"
        using wf right(2) num meta_ok_known [OF less.prems(4)] meta_ok_known [OF less.prems(5)]
        by (auto simp: wf_headers_def)
      with right(1) show False by simp
    qed
    then obtain p s1 where p: "header_metadata lru (hm_parent two) s = (Inr p, s1)" "wf_db entries s1" "db_headers s1 = H"
      "meta_ok H p" "Suc (hm_number p) = hm_number two" "parent_of H (hm_hash two) = Some (hm_hash p)"
      using step [OF less.prems(5)] by auto
    have "meet lru one two s = meet lru one p s1" using right p(1) by (subst meet.simps) simp
    moreover have "reaches entries H (\<lambda>c. is_lca H (hm_hash c) (hm_hash one) (hm_hash p)) (meet lru one p s1)"
      using less.hyps [OF _ p(2) less.prems(2) p(3) less.prems(4) p(4)] p(5) by simp
    ultimately show ?thesis
      using right num is_lca_parent2 [OF wf p(6), of "hm_hash one"] by (auto elim!: reaches_mono)
  qed
qed

lemma update_ancestor_wf:
  assumes "wf_db entries s" "lru_laws lru entries" "meta_ok (db_headers s) orig" "meta_ok (db_headers s) common"
    "above (db_headers s) (hm_hash common) (hm_hash orig)"
  shows "wf_db entries (update_ancestor lru orig common s) \<and> db_headers (update_ancestor lru orig common s) = db_headers s"
proof (cases "hm_number common < hm_number orig")
  case True
  let ?m = "orig\<lparr>hm_ancestor := hm_hash common\<rparr>"
  have "meta_ok (db_headers s) ?m"
    using True assms(3-5) meta_ok_num [OF assms(3)] meta_ok_num [OF assms(4)]
    by (auto simp: meta_ok_def above_def)
  from insert_wf [OF assms(1,2) this] True show ?thesis
    by (simp add: update_ancestor_def insert_header_metadata_def)
qed (use assms in \<open>simp add: update_ancestor_def\<close>)

lemma jump_total:
  assumes "wf_db entries s" "lru_laws lru entries" "db_headers s = H" "meta_ok H m"
  obtains m' s' where "jump lru m n s = Some (Inr m', s')" "wf_db entries s'" "db_headers s' = H" "meta_ok H m'"
    "above H (hm_hash m') (hm_hash m)" "n \<le> hm_number m' \<or> m' = m"
proof (cases "n \<le> hm_number m")
  case True
  from jump_returns [OF assms True] that show ?thesis by (auto simp: reaches_def)
next
  case False
  then show ?thesis using assms meta_ok_self [OF assms(4)] by (intro that [of m s]) (subst jump.simps, simp_all)
qed

lemma lca_returns:
  assumes "wf_db entries s" "lru_laws lru entries" "db_headers s = H" "H a \<noteq> None" "H b \<noteq> None"
  obtains c s' where "lowest_common_ancestor lru a b s = Some (Inr c, s')" "wf_db entries s'" "db_headers s' = H"
    "is_lca H (hn_hash c) a b" "hn_number c = num_of H (hn_hash c)"
proof -
  obtain oa s1 where oa: "header_metadata lru a s = (Inr oa, s1)" "wf_db entries s1" "db_headers s1 = H" "hm_hash oa = a"
    "meta_ok H oa"
    using header_metadata_ok [OF assms(1,2)] assms(3,4) by metis
  obtain ob s2 where ob: "header_metadata lru b s1 = (Inr ob, s2)" "wf_db entries s2" "db_headers s2 = H" "hm_hash ob = b"
    "meta_ok H ob"
    using header_metadata_ok [OF oa(2) assms(2)] oa(3) assms(5) by metis
  obtain one s3 where one: "jump lru oa (hm_number ob) s2 = Some (Inr one, s3)" "wf_db entries s3" "db_headers s3 = H"
    "meta_ok H one" "above H (hm_hash one) (hm_hash oa)" "hm_number ob \<le> hm_number one \<or> one = oa"
    by (rule jump_total [OF ob(2) assms(2) ob(3) oa(5)])
  obtain two s4 where two: "jump lru ob (hm_number one) s3 = Some (Inr two, s4)" "wf_db entries s4" "db_headers s4 = H"
    "meta_ok H two" "above H (hm_hash two) (hm_hash ob)" "hm_number one \<le> hm_number two \<or> two = ob"
    by (rule jump_total [OF one(2) assms(2) one(3) ob(5)])
  obtain c s5 where c: "meet lru one two s4 = Some (Inr c, s5)" "wf_db entries s5" "db_headers s5 = H" "meta_ok H c"
    "is_lca H (hm_hash c) (hm_hash one) (hm_hash two)"
    using meet_returns [OF two(2) assms(2) two(3) one(4) two(4)] by (auto simp: reaches_def)
  note num = one(4) [THEN meta_ok_num] two(4) [THEN meta_ok_num] ob(5) [THEN meta_ok_num]
  have "is_lca H (hm_hash c) (hm_hash one) (hm_hash ob)"
    using two(6) c(5) is_lca_jump [OF two(5), of "hm_hash one" "hm_hash c"] num by (auto simp: is_lca_sym)
  then have lca: "is_lca H (hm_hash c) (hm_hash oa) (hm_hash ob)"
    using one(6) is_lca_jump [OF one(5), of "hm_hash ob" "hm_hash c"] num by auto
  let ?s6 = "update_ancestor lru oa c s5"
  have s6: "wf_db entries ?s6" "db_headers ?s6 = H"
    using update_ancestor_wf [OF c(2) assms(2), of oa c] lca oa(5) c(3,4) by (simp_all add: is_lca_def)
  have s7: "wf_db entries (update_ancestor lru ob c ?s6)" "db_headers (update_ancestor lru ob c ?s6) = H"
    using update_ancestor_wf [OF s6(1) assms(2), of ob c] s6(2) lca ob(5) c(4) by (simp_all add: is_lca_def)
  show ?thesis
    by (rule that [OF _ s7, of "\<lparr>hn_number = hm_number c, hn_hash = hm_hash c\<rparr>"])
       (use oa ob one two c lca in \<open>simp_all add: lowest_common_ancestor_def meta_ok_num\<close>)
qed

text \<open>
  C19. The search for the lowest common ancestor of two blocks of the database always returns, with the
  lowest common ancestor and its number, whatever ancestor links earlier searches have left in the
  cache and whatever the cache has dropped; the cache stays in order.
\<close>

theorem lowest_common_ancestor_correct:
  assumes "wf_db entries s" "lru_laws lru entries" "db_headers s a \<noteq> None" "db_headers s b \<noteq> None"
  shows "\<exists>c s'. lowest_common_ancestor lru a b s = Some (Ok c, s') \<and> wf_db entries s' \<and> db_headers s' = db_headers s \<and>
    is_lca (db_headers s) (hn_hash c) a b \<and> hn_number c = num_of (db_headers s) (hn_hash c)"
  using lca_returns [OF assms(1,2) refl assms(3,4)] by metis

text \<open>The headers with a block that is being imported, given with its parent.\<close>

definition extended :: "('h \<times> 'h) option \<Rightarrow> 'h headers \<Rightarrow> 'h headers" where
  "extended current H =
     (case current of None \<Rightarrow> H | Some (c, p) \<Rightarrow> H(c \<mapsto> (Suc (num_of H p), p)))"

lemma extended_parent_of:
  "parent_of (H(c \<mapsto> (Suc n, p))) h = (if h = c then Some p else parent_of H h)"
  by (simp add: parent_of_def)

lemma extended_parents:
  assumes "wf_headers H" "H c = None"
  shows "parents (H(c \<mapsto> (Suc n, p))) a b \<Longrightarrow> H b \<noteq> None \<Longrightarrow> parents H a b"
    and "parents H a b \<Longrightarrow> parents (H(c \<mapsto> (Suc n, p))) a b"
proof -
  have old: "parent_of (H(c \<mapsto> (Suc n, p))) b = parent_of H b" if "H b \<noteq> None" for b
    using that assms(2) by (auto simp: extended_parent_of)
  show "parents H a b" if "parents (H(c \<mapsto> (Suc n, p))) a b" "H b \<noteq> None"
    using that
  proof induction
    case (one b a)
    then have "parent_of H b = Some a" by (simp add: old)
    then show ?case by (rule parents.one)
  next
    case (more a q b)
    then have q: "parent_of H b = Some q" by (simp add: old)
    have "parents H a q" using parent_known [OF assms(1) q] more.IH by simp
    then show ?case using q by (rule parents.more)
  qed
  have known: "H b \<noteq> None" if "parent_of H b = Some q" for b q
    using that by (auto simp: parent_of_def split: option.splits)
  show "parents (H(c \<mapsto> (Suc n, p))) a b" if "parents H a b"
    using that
  proof induction
    case (one b a)
    have "parent_of (H(c \<mapsto> (Suc n, p))) b = Some a" using one old [OF known [OF one]] by (simp only:)
    then show ?case by (rule parents.one)
  next
    case (more a q b)
    have "parent_of (H(c \<mapsto> (Suc n, p))) b = Some q"
      using more.hyps(2) old [OF known [OF more.hyps(2)]] by (simp only:)
    with more.IH show ?case by (rule parents.more)
  qed
qed

lemma extended_wf:
  assumes "wf_headers H" "H c = None" "H p \<noteq> None"
  shows "wf_headers (H(c \<mapsto> (Suc (num_of H p), p)))"
proof -
  let ?H = "H(c \<mapsto> (Suc (num_of H p), p))"
  have num: "num_of ?H h = (if h = c then Suc (num_of H p) else num_of H h)" for h by (simp add: num_of_def)
  have "?H q \<noteq> None \<and> Suc (num_of ?H q) = num_of ?H h" if "parent_of ?H h = Some q" for h q
    using that assms parent_known [OF assms(1), of h q]
    by (cases "q = c") (auto simp: extended_parent_of num split: if_splits)
  moreover have "h = h'" if "?H h \<noteq> None" "?H h' \<noteq> None" "num_of ?H h = 0" "num_of ?H h' = 0" for h h'
    using that assms(1) by (auto simp: num wf_headers_def split: if_splits)
  ultimately show ?thesis unfolding wf_headers_def by blast
qed

lemma extended_anc:
  assumes "wf_headers H" "H c = None" "H p \<noteq> None"
  shows "H b \<noteq> None \<Longrightarrow> header_anc (H(c \<mapsto> (Suc (num_of H p), p))) a b \<longleftrightarrow> header_anc H a b"
    and "header_anc (H(c \<mapsto> (Suc (num_of H p), p))) a c \<longleftrightarrow> a = p \<or> header_anc H a p"
proof -
  let ?H = "H(c \<mapsto> (Suc (num_of H p), p))"
  show old: "header_anc ?H a b \<longleftrightarrow> header_anc H a b" if "H b \<noteq> None" for b
    using extended_parents [OF assms(1,2), where n = "num_of H p" and p = p and a = a and b = b] extended_wf [OF assms] assms(1) that
    by (auto simp: header_anc_def)
  have "parents ?H a c \<longleftrightarrow> a = p \<or> parents ?H a p"
    using extended_parent_of [of H c _ p c] by (auto intro: parents.intros elim: parents_elim)
  then show "header_anc ?H a c \<longleftrightarrow> a = p \<or> header_anc H a p"
    using old [OF assms(3)] extended_wf [OF assms] by (auto simp: header_anc_def)
qed

text \<open>The search in the database, without the special cases for the current block.\<close>

lemma search_returns:
  assumes "wf_db entries s" "lru_laws lru entries" "db_headers s = H" "H base \<noteq> None" "H h \<noteq> None"
  obtains c s' where "lowest_common_ancestor lru h base s = Some (Inr c, s')" "wf_db entries s'" "db_headers s' = H"
    "hn_hash c = base \<longleftrightarrow> base = h \<or> header_anc H base h"
proof -
  obtain c s' where c: "lowest_common_ancestor lru h base s = Some (Inr c, s')" "wf_db entries s'" "db_headers s' = H"
    "is_lca H (hn_hash c) h base"
    by (rule lca_returns [OF assms(1-3,5,4)])
  have "hn_hash c = base \<longleftrightarrow> base = h \<or> header_anc H base h"
  proof (cases "base = h")
    case True
    then have "above H h (hn_hash c)" "above H (hn_hash c) h"
      using c(4) assms(5) above_refl [of H h] by (auto simp: is_lca_def)
    then have "hn_hash c = h" by (rule above_antisym [symmetric])
    then show ?thesis using True by simp
  qed (use is_lca_anc [OF c(4)] in auto)
  then show ?thesis using c by (intro that)
qed

text \<open>
  C20. The ancestry test returns, and answers exactly whether the first block is a proper ancestor of
  the second, with a block that is being imported treated as if it were in the database already.
\<close>

theorem is_descendent_of_correct:
  assumes "wf_db entries s" "lru_laws lru entries"
    and "\<And>c p. current = Some (c, p) \<Longrightarrow> db_headers s c = None \<and> db_headers s p \<noteq> None"
    and "extended current (db_headers s) base \<noteq> None" "extended current (db_headers s) h \<noteq> None"
  shows "\<exists>s'. is_descendent_of lru current base h s =
      Some (Ok (header_anc (extended current (db_headers s)) base h), s') \<and>
    wf_db entries s' \<and> db_headers s' = db_headers s"
proof (cases "base = h")
  case True
  then show ?thesis using assms(1) by (simp add: is_descendent_of_def header_tree.anc_irrefl)
next
  case False
  let ?H = "db_headers s"
  have wf: "wf_headers ?H" using assms(1) by (simp add: wf_db_def)
  show ?thesis
  proof (cases current)
    case None
    then obtain c s' where "lowest_common_ancestor lru h base s = Some (Inr c, s')" "wf_db entries s'" "db_headers s' = ?H"
      "hn_hash c = base \<longleftrightarrow> base = h \<or> header_anc ?H base h"
      using search_returns [OF assms(1,2) refl, of base h] assms(4,5) by (auto simp: extended_def)
    then show ?thesis using None False by (simp add: is_descendent_of_def extended_def)
  next
    case (Some cp)
    then obtain c p where c: "current = Some (c, p)" by (cases cp) auto
    let ?H' = "?H(c \<mapsto> (Suc (num_of ?H p), p))"
    have new: "?H c = None" "?H p \<noteq> None" using assms(3) [OF c] by auto
    note anc = extended_anc [OF wf new]
    have ext: "extended current ?H = ?H'" using c by (simp add: extended_def)
    have self: "\<not> header_anc ?H' c h"
    proof (cases "h = c")
      case False
      then have "?H h \<noteq> None" using assms(5) ext by simp
      then show ?thesis
        using anc(1) above_known [of ?H c h] new(1) by (auto simp: above_def)
    qed (simp add: header_tree.anc_irrefl)
    consider "base = c" | "base \<noteq> c" "h = c" "base = p" | "base \<noteq> c" "h = c" "base \<noteq> p" | "base \<noteq> c" "h \<noteq> c" by blast
    then show ?thesis
    proof cases
      case 3
      then have "?H base \<noteq> None" using assms(4) ext by simp
      then obtain d s' where "lowest_common_ancestor lru p base s = Some (Inr d, s')" "wf_db entries s'" "db_headers s' = ?H"
        "hn_hash d = base \<longleftrightarrow> base = p \<or> header_anc ?H base p"
        by (rule search_returns [OF assms(1,2) refl _ new(2)])
      with 3 c ext anc(2) False show ?thesis by (simp add: is_descendent_of_def)
    next
      case 4
      then have "?H base \<noteq> None" "?H h \<noteq> None" using assms(4,5) ext by simp_all
      note known = this
      then obtain d s' where "lowest_common_ancestor lru h base s = Some (Inr d, s')" "wf_db entries s'" "db_headers s' = ?H"
        "hn_hash d = base \<longleftrightarrow> base = h \<or> header_anc ?H base h"
        by (rule search_returns [OF assms(1,2) refl])
      with 4 c ext anc(1) [OF known(2)] False show ?thesis by (simp add: is_descendent_of_def)
    qed (use c ext self anc(2) False assms(1) in \<open>simp_all add: is_descendent_of_def\<close>)
  qed
qed

section \<open>Routes lead through the lowest common ancestor\<close>

text \<open>The blocks from \<open>h\<close> towards the genesis block, \<open>k\<close> of them.\<close>

fun line :: "'h headers \<Rightarrow> nat \<Rightarrow> 'h \<Rightarrow> 'h HashAndNumber list" where
  "line H 0 h = []"
| "line H (Suc k) h = \<lparr>hn_number = num_of H h, hn_hash = h\<rparr> #
     (case parent_of H h of Some p \<Rightarrow> line H k p | None \<Rightarrow> [])"

text \<open>The blocks from \<open>h\<close> up to but without its ancestor \<open>a\<close>.\<close>

definition branch_to :: "'h headers \<Rightarrow> 'h \<Rightarrow> 'h \<Rightarrow> 'h HashAndNumber list" where
  "branch_to H a h = line H (num_of H h - num_of H a) h"

lemma branch_to_self [simp]: "branch_to H h h = []"
  by (simp add: branch_to_def)

lemma branch_to_parent:
  assumes "wf_headers H" "parent_of H h = Some p" "above H a p"
  shows "branch_to H a h = \<lparr>hn_number = num_of H h, hn_hash = h\<rparr> # branch_to H a p"
proof -
  have "num_of H h - num_of H a = Suc (num_of H p - num_of H a)"
    using parent_known [OF assms(1,2)] above_num [OF assms(3)] by linarith
  then show ?thesis using assms(2) by (simp add: branch_to_def)
qed

lemma parent_step:
  assumes "wf_db entries s" "lru_laws lru entries" "db_headers s = H" "meta_ok H m" "0 < hm_number m"
  obtains p s1 where "header_metadata lru (hm_parent m) s = (Inr p, s1)" "wf_db entries s1" "db_headers s1 = H"
    "meta_ok H p" "Suc (hm_number p) = hm_number m" "parent_of H (hm_hash m) = Some (hm_hash p)"
proof -
  have wf: "wf_headers H" using assms(1,3) by (auto simp: wf_db_def)
  note q = meta_ok_parent [OF assms(4,5)] parent_known [OF wf meta_ok_parent [OF assms(4,5)]]
  obtain p s1 where "header_metadata lru (hm_parent m) s = (Inr p, s1)" "wf_db entries s1" "db_headers s1 = H"
    "hm_hash p = hm_parent m" "meta_ok H p"
    using header_metadata_ok [OF assms(1,2)] q(2) assms(3) by metis
  then show ?thesis using q meta_ok_num [of H p] meta_ok_num [OF assms(4)] by (intro that [of p s1]) auto
qed

lemma descend_returns:
  assumes "wf_db entries s" "lru_laws lru entries" "db_headers s = H" "meta_ok H m"
  shows "\<exists>m' s'. descend lru m n br s = Some (Inr (m', br @ branch_to H (hm_hash m') (hm_hash m)), s') \<and>
    wf_db entries s' \<and> db_headers s' = H \<and> meta_ok H m' \<and> above H (hm_hash m') (hm_hash m) \<and>
    hm_number m' = min n (hm_number m)"
  using assms
proof (induction "hm_number m" arbitrary: m s br rule: less_induct)
  case less
  have wf: "wf_headers H" using less.prems(1,3) by (auto simp: wf_db_def)
  show ?case
  proof (cases "n < hm_number m")
    case False
    then show ?thesis
      using less.prems meta_ok_self [OF less.prems(4)] by (subst descend.simps) (simp add: min_def)
  next
    case True
    then obtain p s1 where p: "header_metadata lru (hm_parent m) s = (Inr p, s1)" "wf_db entries s1" "db_headers s1 = H"
      "meta_ok H p" "Suc (hm_number p) = hm_number m" "parent_of H (hm_hash m) = Some (hm_hash p)"
      using parent_step [OF less.prems] by auto
    let ?br = "br @ [\<lparr>hn_number = hm_number m, hn_hash = hm_hash m\<rparr>]"
    have d: "descend lru m n br s = descend lru p n ?br s1"
      using True p(1) by (subst descend.simps) simp
    have "hm_number p < hm_number m" using p(5) by simp
    from less.hyps [OF this p(2) less.prems(2) p(3,4), of ?br]
    obtain m' s' where m': "descend lru p n ?br s1 = Some (Inr (m', ?br @ branch_to H (hm_hash m') (hm_hash p)), s')"
      "wf_db entries s'" "db_headers s' = H" "meta_ok H m'" "above H (hm_hash m') (hm_hash p)" "hm_number m' = min n (hm_number p)"
      by blast
    have "above H (hm_hash m') (hm_hash m)" using m'(5) above_parent [OF wf p(6)] by blast
    moreover have "branch_to H (hm_hash m') (hm_hash m) =
        \<lparr>hn_number = hm_number m, hn_hash = hm_hash m\<rparr> # branch_to H (hm_hash m') (hm_hash p)"
      using branch_to_parent [OF wf p(6) m'(5)] meta_ok_num [OF less.prems(4)] by simp
    moreover have "min n (hm_number p) = min n (hm_number m)" using True p(5) by simp
    ultimately show ?thesis using d m' by simp
  qed
qed

lemma is_lca_parents:
  assumes "wf_headers H" "num_of H a = num_of H b" "a \<noteq> b"
    "parent_of H a = Some p" "parent_of H b = Some q" "is_lca H c p q"
  shows "is_lca H c a b"
proof -
  have "num_of H p = num_of H q" "num_of H p < num_of H a"
    using parent_known [OF assms(1,4)] parent_known [OF assms(1,5)] assms(2) by auto
  then have "is_lca H c a q"
    by (intro is_lca_parent [OF assms(1,4) _ _ assms(6)]) auto
  then show ?thesis using assms(2,3) by (intro is_lca_parent2 [OF assms(1,5)]) auto
qed

lemma converge_returns:
  assumes "wf_db entries s" "lru_laws lru entries" "db_headers s = H" "meta_ok H from" "meta_ok H to" "hm_number from = hm_number to"
  shows "\<exists>c s'. converge lru from fb to tb s =
      Some (Inr (c, fb @ branch_to H (hm_hash c) (hm_hash from), tb @ branch_to H (hm_hash c) (hm_hash to)), s') \<and>
    wf_db entries s' \<and> db_headers s' = H \<and> meta_ok H c \<and> is_lca H (hm_hash c) (hm_hash from) (hm_hash to)"
  using assms
proof (induction "hm_number from" arbitrary: "from" to s fb tb rule: less_induct)
  case less
  have wf: "wf_headers H" using less.prems(1,3) by (auto simp: wf_db_def)
  note num = meta_ok_num [OF less.prems(4)] meta_ok_num [OF less.prems(5)]
  show ?case
  proof (cases "hm_hash to = hm_hash from")
    case True
    then show ?thesis
      using less.prems is_lca_self [of H "hm_hash from"] meta_ok_known [OF less.prems(4)]
      by (subst converge.simps) simp
  next
    case False
    then have pos: "0 < hm_number to" "0 < hm_number from"
      using wf num less.prems(6) meta_ok_known [OF less.prems(4)] meta_ok_known [OF less.prems(5)]
      unfolding wf_headers_def by (metis neq0_conv)+
    obtain q s1 where q: "header_metadata lru (hm_parent to) s = (Inr q, s1)" "wf_db entries s1" "db_headers s1 = H"
      "meta_ok H q" "Suc (hm_number q) = hm_number to" "parent_of H (hm_hash to) = Some (hm_hash q)"
      by (rule parent_step [OF less.prems(1,2,3,5) pos(1)])
    obtain p s2 where p: "header_metadata lru (hm_parent from) s1 = (Inr p, s2)" "wf_db entries s2" "db_headers s2 = H"
      "meta_ok H p" "Suc (hm_number p) = hm_number from" "parent_of H (hm_hash from) = Some (hm_hash p)"
      by (rule parent_step [OF q(2) less.prems(2) q(3) less.prems(4) pos(2)])
    let ?fb = "fb @ [\<lparr>hn_number = hm_number from, hn_hash = hm_hash from\<rparr>]"
    let ?tb = "tb @ [\<lparr>hn_number = hm_number to, hn_hash = hm_hash to\<rparr>]"
    have d: "converge lru from fb to tb s = converge lru p ?fb q ?tb s2"
      using False p(1) q(1) by (subst converge.simps) simp
    have "hm_number p < hm_number from" "hm_number p = hm_number q" using p(5) q(5) less.prems(6) by simp_all
    from less.hyps [OF this(1) p(2) less.prems(2) p(3,4) q(4) this(2), of ?fb ?tb]
    obtain c s' where c: "converge lru p ?fb q ?tb s2 =
        Some (Inr (c, ?fb @ branch_to H (hm_hash c) (hm_hash p), ?tb @ branch_to H (hm_hash c) (hm_hash q)), s')"
      "wf_db entries s'" "db_headers s' = H" "meta_ok H c" "is_lca H (hm_hash c) (hm_hash p) (hm_hash q)"
      by blast
    have "is_lca H (hm_hash c) (hm_hash from) (hm_hash to)"
      using is_lca_parents [OF wf _ _ p(6) q(6) c(5)] num less.prems(6) False by simp
    moreover have "branch_to H (hm_hash c) (hm_hash from) =
          \<lparr>hn_number = hm_number from, hn_hash = hm_hash from\<rparr> # branch_to H (hm_hash c) (hm_hash p)"
        "branch_to H (hm_hash c) (hm_hash to) =
          \<lparr>hn_number = hm_number to, hn_hash = hm_hash to\<rparr> # branch_to H (hm_hash c) (hm_hash q)"
      using branch_to_parent [OF wf p(6)] branch_to_parent [OF wf q(6)] c(5) num by (simp_all add: is_lca_def)
    ultimately show ?thesis using d c by simp
  qed
qed

lemma branch_to_append:
  assumes "wf_headers H" "above H b a" "above H c b"
  shows "branch_to H c a = branch_to H b a @ branch_to H c b"
  using assms(2)
proof (induction "num_of H a" arbitrary: a rule: less_induct)
  case less
  show ?case
  proof (cases "a = b")
    case False
    then have "parents H b a" using less.prems by (auto simp: above_def header_anc_def)
    then obtain p where p: "parent_of H a = Some p" by (auto elim: parents_elim)
    then have up: "above H b p" using less.prems False above_parent [OF assms(1) p] by simp
    then have "branch_to H c p = branch_to H b p @ branch_to H c b"
      using less.hyps parent_known [OF assms(1) p] by auto
    then show ?thesis
      using branch_to_parent [OF assms(1) p] up above_trans [OF assms(3) up] by simp
  qed simp
qed

text \<open>
  C21. The route between two blocks of the database is always found: it goes back from the first block
  to the lowest common ancestor, block by block, and forward from there to the second block.
\<close>

theorem tree_route_correct:
  assumes "wf_db entries s" "lru_laws lru entries" "db_headers s a \<noteq> None" "db_headers s b \<noteq> None"
  shows "\<exists>r c s'. tree_route lru a b s = Some (Ok r, s') \<and> wf_db entries s' \<and> is_lca (db_headers s) c a b \<and>
    common_block r = Some \<lparr>hn_number = num_of (db_headers s) c, hn_hash = c\<rparr> \<and>
    retracted r = branch_to (db_headers s) c a \<and> enacted r = rev (branch_to (db_headers s) c b)"
proof -
  let ?H = "db_headers s"
  have wf: "wf_headers ?H" using assms(1) by (simp add: wf_db_def)
  obtain x s1 where x: "header_metadata lru a s = (Inr x, s1)" "wf_db entries s1" "db_headers s1 = ?H" "hm_hash x = a"
    "meta_ok ?H x"
    using header_metadata_ok [OF assms(1,2,3)] by metis
  obtain y s2 where y: "header_metadata lru b s1 = (Inr y, s2)" "wf_db entries s2" "db_headers s2 = ?H" "hm_hash y = b"
    "meta_ok ?H y"
    using header_metadata_ok [OF x(2) assms(2)] x(3) assms(4) by metis
  obtain y' s3 where y': "descend lru y (hm_number x) [] s2 = Some (Inr (y', branch_to ?H (hm_hash y') b), s3)"
    "wf_db entries s3" "db_headers s3 = ?H" "meta_ok ?H y'" "above ?H (hm_hash y') b" "hm_number y' = min (hm_number x) (hm_number y)"
    using descend_returns [OF y(2) assms(2) y(3,5), of "hm_number x" "[]"] y(4) by auto
  obtain x' s4 where x': "descend lru x (hm_number y') [] s3 = Some (Inr (x', branch_to ?H (hm_hash x') a), s4)"
    "wf_db entries s4" "db_headers s4 = ?H" "meta_ok ?H x'" "above ?H (hm_hash x') a" "hm_number x' = min (hm_number y') (hm_number x)"
    using descend_returns [OF y'(2) assms(2) y'(3) x(5), of "hm_number y'" "[]"] x(4) by auto
  have eq: "hm_number x' = hm_number y'" using x'(6) y'(6) by simp
  obtain c s5 where c: "converge lru x' (branch_to ?H (hm_hash x') a) y' (branch_to ?H (hm_hash y') b) s4 =
      Some (Inr (c, branch_to ?H (hm_hash x') a @ branch_to ?H (hm_hash c) (hm_hash x'),
        branch_to ?H (hm_hash y') b @ branch_to ?H (hm_hash c) (hm_hash y')), s5)"
    "wf_db entries s5" "meta_ok ?H c" "is_lca ?H (hm_hash c) (hm_hash x') (hm_hash y')"
    using converge_returns [OF x'(2) assms(2) x'(3,4) y'(4) eq] by blast
  have cx: "branch_to ?H (hm_hash x') a @ branch_to ?H (hm_hash c) (hm_hash x') = branch_to ?H (hm_hash c) a"
    and cy: "branch_to ?H (hm_hash y') b @ branch_to ?H (hm_hash c) (hm_hash y') = branch_to ?H (hm_hash c) b"
    using c(4) branch_to_append [OF wf x'(5)] branch_to_append [OF wf y'(5)] by (simp_all add: is_lca_def)
  note num = meta_ok_num [OF x(5)] meta_ok_num [OF y(5)] meta_ok_num [OF x'(4)] meta_ok_num [OF y'(4)]
  have lca: "is_lca ?H (hm_hash c) a (hm_hash y')"
    using is_lca_jump [OF x'(5) _ c(4)] num eq by simp
  have "is_lca ?H (hm_hash c) a b"
  proof (cases "hm_number x \<le> hm_number y")
    case True
    then show ?thesis
      using is_lca_jump [OF y'(5), of a] lca num x(4) y'(6) by (simp add: is_lca_sym)
  next
    case False
    then have "hm_hash y' = b" using above_eq [OF y'(5)] num y(4) y'(6) by simp
    then show ?thesis using lca by simp
  qed
  moreover have "tree_route lru a b s = Some (Ok \<lparr>route = branch_to ?H (hm_hash c) a @
      [\<lparr>hn_number = hm_number c, hn_hash = hm_hash c\<rparr>] @ rev (branch_to ?H (hm_hash c) b),
      pivot = length (branch_to ?H (hm_hash c) a)\<rparr>, s5)"
    unfolding tree_route_def using x(1) y(1) y'(1) x'(1) c(1) cx cy by simp
  ultimately show ?thesis
    using c(2) meta_ok_num [OF c(3)] by (simp add: retracted_def common_block_def enacted_def)
qed

text \<open>
  A cache of two entries in the order of their last use, and a genesis block with two children, one of
  which has a child.
\<close>

type_synonym small_cache = "(nat \<times> nat CachedHeaderMetadata) list"

definition small_lru :: "(small_cache, nat) LruCache" where
  "small_lru = \<lparr>
     lru_get = (\<lambda>h c. case map_of c h of None \<Rightarrow> (None, c) | Some m \<Rightarrow> (Some m, (h, m) # filter (\<lambda>x. fst x \<noteq> h) c)),
     lru_put = (\<lambda>h m c. take 2 ((h, m) # filter (\<lambda>x. fst x \<noteq> h) c)),
     lru_pop = (\<lambda>h c. filter (\<lambda>x. fst x \<noteq> h) c)\<rparr>"

definition small_db :: "(small_cache, nat) blockchain_db" where
  "small_db = \<lparr>db_headers = [0 \<mapsto> (0, 9), 1 \<mapsto> (1, 0), 2 \<mapsto> (1, 0), 3 \<mapsto> (2, 1)], header_metadata_cache = []\<rparr>"

lemma map_of_without: "map_of (filter (\<lambda>x. fst x \<noteq> h) c) = (map_of c)(h := None)"
  by (induction c) auto

lemma map_of_take: "map_of (take n c) \<subseteq>\<^sub>m map_of c"
  by (metis append_take_drop_id map_le_map_add map_of_append)

lemma small_lru_laws: "lru_laws small_lru map_of"
proof -
  have "map_of (take 2 ((h, m) # filter (\<lambda>x. fst x \<noteq> h) c)) \<subseteq>\<^sub>m (map_of c)(h \<mapsto> m)"
    for h :: nat and m :: "nat CachedHeaderMetadata" and c
    using map_of_take [of 2 "(h, m) # filter (\<lambda>x. fst x \<noteq> h) c"] by (simp add: map_of_without)
  then show ?thesis
    by (auto simp: lru_laws_def small_lru_def map_of_without fun_upd_idem split: option.splits)
qed

lemma small_db_wf: "wf_db map_of small_db"
  by (auto simp: small_db_def wf_db_def wf_headers_def num_of_def parent_of_def)

theorem lowest_common_ancestor_correct_witness:
  "\<exists>c s'. lowest_common_ancestor small_lru 3 2 small_db = Some (Ok c, s') \<and>
     is_lca (db_headers small_db) (hn_hash c) 3 2"
  using lowest_common_ancestor_correct [OF small_db_wf small_lru_laws, of 3 2] by (auto simp: small_db_def)

theorem is_descendent_of_correct_witness:
  "\<exists>s'. is_descendent_of small_lru (Some (4, 3)) 1 4 small_db =
      Some (Ok (header_anc (extended (Some (4, 3)) (db_headers small_db)) 1 4), s')"
  using is_descendent_of_correct [OF small_db_wf small_lru_laws, of "Some (4, 3)" 1 4]
  by (auto simp: small_db_def extended_def)

theorem tree_route_correct_witness:
  "\<exists>r c s'. tree_route small_lru 3 2 small_db = Some (Ok r, s') \<and> retracted r = branch_to (db_headers small_db) c 3"
  using tree_route_correct [OF small_db_wf small_lru_laws, of 3 2] by (auto simp: small_db_def)

end
