(* ===== verification/Fork_Tree.thy ===== *)
theory Fork_Tree
  imports Ancestry "HOL-Library.Multiset" "HOL-Library.Sublist"
begin

text \<open>
  The fork tree (\<open>utils/fork-tree/src/lib.rs\<close>): nodes on several branches, kept in the order of the
  chain, from which finalization removes the branches that lost. Ancestry is a function the caller
  provides; it may fail. The theorems about the operations assume that it answers for an ancestry in
  the sense of the locale \<open>ancestry\<close>.
\<close>

section \<open>The tree\<close>

datatype 'e ForkTreeError = Duplicate | UnfinalizedAncestor | Revert | Client 'e

datatype 'v FinalizationResult = Changed "'v option" | Unchanged

datatype ('h, 'n, 'v) Node =
  Node (n_hash: 'h) (n_number: 'n) (n_data: 'v) (n_children: "('h, 'n, 'v) Node list")

record ('h, 'n, 'v) ForkTree =
  roots :: "('h, 'n, 'v) Node list"
  best_finalized_number :: "'n option"

datatype 'a FindOutcome = Found 'a | Failure bool | Abort

type_synonym ('h, 'e) descendent_test = "'h \<Rightarrow> 'h \<Rightarrow> (bool, 'e) result"

definition client :: "(bool, 'e) result \<Rightarrow> (bool, 'e ForkTreeError) result" where
  "client r = (case r of Inl e \<Rightarrow> Err (Client e) | Inr b \<Rightarrow> Ok b)"

definition new :: "('h, 'n, 'v) ForkTree" where
  "new = \<lparr>roots = [], best_finalized_number = None\<rparr>"

section \<open>Balance\<close>

fun max_depth :: "('h, 'n, 'v) Node \<Rightarrow> nat" where
  "max_depth (Node h n d cs) = fold (\<lambda>node m. max (max_depth node) m) cs 0 + 1"

text \<open>The stable sort by \<open>Reverse (max_depth)\<close>.\<close>

definition by_depth :: "('h, 'n, 'v) Node list \<Rightarrow> ('h, 'n, 'v) Node list" where
  "by_depth = sort_key (\<lambda>node. - int (max_depth node))"

lemma set_by_depth [simp]: "set (by_depth ts) = set ts"
  by (simp add: by_depth_def)

lemma mset_by_depth [simp]: "mset (by_depth ts) = mset ts"
  by (simp add: by_depth_def)

function node_rebalance :: "('h, 'n, 'v) Node \<Rightarrow> ('h, 'n, 'v) Node" where
  "node_rebalance (Node h n d cs) = Node h n d (map node_rebalance (by_depth cs))"
  by pat_completeness auto

termination
  by (relation "measure size") (auto simp: less_Suc_eq_le intro: size_list_estimation')

definition rebalance :: "('h, 'n, 'v) ForkTree \<Rightarrow> ('h, 'n, 'v) ForkTree" where
  "rebalance t = t\<lparr>roots := map node_rebalance (by_depth (roots t))\<rparr>"

section \<open>Import\<close>

fun node_import ::
    "('h, 'n::linorder, 'v) Node \<Rightarrow> 'h \<Rightarrow> 'n \<Rightarrow> 'v \<Rightarrow> ('h, 'e) descendent_test \<Rightarrow>
     (('h \<times> 'n \<times> 'v) option, 'e ForkTreeError) result \<times> ('h, 'n, 'v) Node"
  and import_children ::
    "('h, 'n, 'v) Node list \<Rightarrow> 'h \<Rightarrow> 'n \<Rightarrow> 'v \<Rightarrow> ('h, 'e) descendent_test \<Rightarrow>
     (('h \<times> 'n \<times> 'v) option, 'e ForkTreeError) result \<times> ('h, 'n, 'v) Node list" where
  "node_import (Node h n d cs) hash number data isd =
     (if h = hash then (Err Duplicate, Node h n d cs)
      else if number \<le> n then (Ok (Some (hash, number, data)), Node h n d cs)
      else
        (case import_children cs hash number data isd of
           (Inl e, cs') \<Rightarrow> (Err e, Node h n d cs')
         | (Inr None, cs') \<Rightarrow> (Ok None, Node h n d cs')
         | (Inr (Some (hash', number', data')), cs') \<Rightarrow>
             (case isd h hash' of
                Inl e \<Rightarrow> (Err (Client e), Node h n d cs')
              | Inr b \<Rightarrow>
                  if b then (Ok None, Node h n d (cs' @ [Node hash' number' data' []]))
                  else (Ok (Some (hash', number', data')), Node h n d cs'))))"
| "import_children [] hash number data isd = (Ok (Some (hash, number, data)), [])"
| "import_children (c # cs) hash number data isd =
     (case node_import c hash number data isd of
        (Inl e, c') \<Rightarrow> (Err e, c' # cs)
      | (Inr None, c') \<Rightarrow> (Ok None, c' # cs)
      | (Inr (Some (hash', number', data')), c') \<Rightarrow>
          (case import_children cs hash' number' data' isd of (r, cs') \<Rightarrow> (r, c' # cs')))"

fun import_roots ::
  "('h, 'n::linorder, 'v) Node list \<Rightarrow> 'h \<Rightarrow> 'n \<Rightarrow> 'v \<Rightarrow> ('h, 'e) descendent_test \<Rightarrow>
   (('h \<times> 'n \<times> 'v) option, 'e ForkTreeError) result \<times> ('h, 'n, 'v) Node list" where
  "import_roots [] hash number data isd = (Ok (Some (hash, number, data)), [])"
| "import_roots (root # rest) hash number data isd =
     (if n_hash root = hash then (Err Duplicate, root # rest)
      else
        (case node_import root hash number data isd of
           (Inl e, root') \<Rightarrow> (Err e, root' # rest)
         | (Inr None, root') \<Rightarrow> (Ok None, root' # rest)
         | (Inr (Some (hash', number', data')), root') \<Rightarrow>
             (case import_roots rest hash' number' data' isd of (r, rest') \<Rightarrow> (r, root' # rest'))))"

text \<open>\<open>Err Revert\<close> for a block at or below the best finalized number.\<close>

definition reverts :: "('h, 'n::linorder, 'v) ForkTree \<Rightarrow> 'n \<Rightarrow> bool" where
  "reverts t number = (case best_finalized_number t of None \<Rightarrow> False | Some best \<Rightarrow> number \<le> best)"

definition import ::
  "('h, 'n::linorder, 'v) ForkTree \<Rightarrow> 'h \<Rightarrow> 'n \<Rightarrow> 'v \<Rightarrow> ('h, 'e) descendent_test \<Rightarrow>
   (bool, 'e ForkTreeError) result \<times> ('h, 'n, 'v) ForkTree" where
  "import t hash number data isd =
     (if reverts t number then (Err Revert, t)
      else
        (case import_roots (roots t) hash number data isd of
           (Inl e, rs) \<Rightarrow> (Err e, t\<lparr>roots := rs\<rparr>)
         | (Inr None, rs) \<Rightarrow> (Ok False, t\<lparr>roots := rs\<rparr>)
         | (Inr (Some (hash', number', data')), rs) \<Rightarrow>
             (Ok True, rebalance (t\<lparr>roots := rs @ [Node hash' number' data' []]\<rparr>))))"

section \<open>Iteration\<close>

text \<open>The number of nodes, as a measure of the work left.\<close>

fun node_count :: "('h, 'n, 'v) Node \<Rightarrow> nat" where
  "node_count (Node h n d cs) = Suc (sum_list (map node_count cs))"

definition forest_count :: "('h, 'n, 'v) Node list \<Rightarrow> nat" where
  "forest_count ts = sum_list (map node_count ts)"

text \<open>The iterator's stack is a vector, popped and pushed at its end.\<close>

definition iterator_next :: "('h, 'n, 'v) Node list \<Rightarrow> (('h, 'n, 'v) Node \<times> ('h, 'n, 'v) Node list) option" where
  "iterator_next stack =
     (if stack = [] then None
      else let node = last stack in Some (node, butlast stack @ rev (n_children node)))"

lemma node_count_children: "node_count t = Suc (forest_count (n_children t))"
  by (cases t) (simp add: forest_count_def)

lemma forest_count_simps [simp]:
  "forest_count [] = 0" "forest_count (t # ts) = node_count t + forest_count ts"
  "forest_count (xs @ ys) = forest_count xs + forest_count ys" "forest_count (rev xs) = forest_count xs"
  by (simp_all add: forest_count_def rev_map [symmetric])

lemma forest_count_last:
  "ts \<noteq> [] \<Longrightarrow> forest_count ts = Suc (forest_count (butlast ts) + forest_count (n_children (last ts)))"
  by (induction ts rule: rev_induct) (simp_all add: node_count_children)

function iterate :: "('h, 'n, 'v) Node list \<Rightarrow> ('h, 'n, 'v) Node list" where
  "iterate stack =
     (case iterator_next stack of None \<Rightarrow> [] | Some (node, stack') \<Rightarrow> node # iterate stack')"
  by pat_completeness auto

termination
  by (relation "measure forest_count") (auto simp: iterator_next_def Let_def forest_count_last split: if_splits)

definition node_iter :: "('h, 'n, 'v) ForkTree \<Rightarrow> ('h, 'n, 'v) Node list" where
  "node_iter t = iterate (roots t)"

definition item :: "('h, 'n, 'v) Node \<Rightarrow> 'h \<times> 'n \<times> 'v" where
  "item node = (n_hash node, n_number node, n_data node)"

definition root_items :: "('h, 'n, 'v) ForkTree \<Rightarrow> ('h \<times> 'n \<times> 'v) list" where
  "root_items t = map item (roots t)"

definition iter :: "('h, 'n, 'v) ForkTree \<Rightarrow> ('h \<times> 'n \<times> 'v) list" where
  "iter t = map item (node_iter t)"

section \<open>Search\<close>

text \<open>
  The path to the node found is listed from its last step to its first. \<open>find_in_children\<close> is the loop
  over the children; it fails with \<open>True\<close> once the block descends from a child it has searched.
\<close>

fun find_node_index_where ::
    "('h, 'n::linorder, 'v) Node \<Rightarrow> 'h \<Rightarrow> 'n \<Rightarrow> ('h, 'e) descendent_test \<Rightarrow> ('v \<Rightarrow> bool) \<Rightarrow>
     (nat list FindOutcome, 'e ForkTreeError) result"
  and find_in_children ::
    "nat \<Rightarrow> ('h, 'n, 'v) Node list \<Rightarrow> 'h \<Rightarrow> 'n \<Rightarrow> ('h, 'e) descendent_test \<Rightarrow> ('v \<Rightarrow> bool) \<Rightarrow>
     (nat list FindOutcome, 'e ForkTreeError) result" where
  "find_node_index_where (Node h n d cs) hash number isd predicate =
     (if number < n then Ok (Failure False)
      else
        (case find_in_children 0 cs hash number isd predicate of
           Inl e \<Rightarrow> Err e
         | Inr Abort \<Rightarrow> Ok Abort
         | Inr (Found x) \<Rightarrow> Ok (Found x)
         | Inr (Failure known) \<Rightarrow>
             (case (if known then Ok True else client (isd h hash)) of
                Inl e \<Rightarrow> Err e
              | Inr desc \<Rightarrow> if desc \<and> predicate d then Ok (Found []) else Ok (Failure desc))))"
| "find_in_children i [] hash number isd predicate = Ok (Failure False)"
| "find_in_children i (c # cs) hash number isd predicate =
     (case find_node_index_where c hash number isd predicate of
        Inl e \<Rightarrow> Err e
      | Inr Abort \<Rightarrow> Ok Abort
      | Inr (Found x) \<Rightarrow> Ok (Found (x @ [i]))
      | Inr (Failure desc) \<Rightarrow>
          if desc then Ok (Failure True) else find_in_children (Suc i) cs hash number isd predicate)"

text \<open>Following the indices, popped from the end; \<open>None\<close> is the panic of an index out of range.\<close>

function node_at :: "('h, 'n, 'v) Node \<Rightarrow> nat list \<Rightarrow> ('h, 'n, 'v) Node option" where
  "node_at cur indexes =
     (if indexes = [] then Some cur
      else if last indexes < length (n_children cur)
           then node_at (n_children cur ! last indexes) (butlast indexes)
           else None)"
  by pat_completeness auto

termination
  by (relation "measure (length o snd)") auto

definition node_find_node_where ::
  "('h, 'n::linorder, 'v) Node \<Rightarrow> 'h \<Rightarrow> 'n \<Rightarrow> ('h, 'e) descendent_test \<Rightarrow> ('v \<Rightarrow> bool) \<Rightarrow>
   (('h, 'n, 'v) Node FindOutcome, 'e ForkTreeError) result option" where
  "node_find_node_where node hash number isd predicate =
     (case find_node_index_where node hash number isd predicate of
        Inl e \<Rightarrow> Some (Err e)
      | Inr Abort \<Rightarrow> Some (Ok Abort)
      | Inr (Failure f) \<Rightarrow> Some (Ok (Failure f))
      | Inr (Found indexes) \<Rightarrow>
          (case node_at node indexes of None \<Rightarrow> None | Some cur \<Rightarrow> Some (Ok (Found cur))))"

fun find_in_roots ::
  "('h, 'n::linorder, 'v) Node list \<Rightarrow> 'h \<Rightarrow> 'n \<Rightarrow> ('h, 'e) descendent_test \<Rightarrow> ('v \<Rightarrow> bool) \<Rightarrow>
   (('h, 'n, 'v) Node option, 'e ForkTreeError) result option" where
  "find_in_roots [] hash number isd predicate = Some (Ok None)"
| "find_in_roots (root # rest) hash number isd predicate =
     (case node_find_node_where root hash number isd predicate of
        None \<Rightarrow> None
      | Some (Inl e) \<Rightarrow> Some (Err e)
      | Some (Inr (Found node)) \<Rightarrow> Some (Ok (Some node))
      | Some (Inr _) \<Rightarrow> find_in_roots rest hash number isd predicate)"

definition find_node_where ::
  "('h, 'n::linorder, 'v) ForkTree \<Rightarrow> 'h \<Rightarrow> 'n \<Rightarrow> ('h, 'e) descendent_test \<Rightarrow> ('v \<Rightarrow> bool) \<Rightarrow>
   (('h, 'n, 'v) Node option, 'e ForkTreeError) result option" where
  "find_node_where t = find_in_roots (roots t)"

text \<open>
  The mutable reference of \<open>find_node_where_mut\<close> is the place of the node: the index of its root and the
  path from there.
\<close>

fun find_place ::
  "nat \<Rightarrow> ('h, 'n::linorder, 'v) Node list \<Rightarrow> 'h \<Rightarrow> 'n \<Rightarrow> ('h, 'e) descendent_test \<Rightarrow> ('v \<Rightarrow> bool) \<Rightarrow>
   ((nat \<times> nat list) option, 'e ForkTreeError) result" where
  "find_place i [] hash number isd predicate = Ok None"
| "find_place i (root # rest) hash number isd predicate =
     (case find_node_index_where root hash number isd predicate of
        Inl e \<Rightarrow> Err e
      | Inr (Found indexes) \<Rightarrow> Ok (Some (i, indexes))
      | Inr _ \<Rightarrow> find_place (Suc i) rest hash number isd predicate)"

definition find_node_where_mut ::
  "('h, 'n::linorder, 'v) ForkTree \<Rightarrow> 'h \<Rightarrow> 'n \<Rightarrow> ('h, 'e) descendent_test \<Rightarrow> ('v \<Rightarrow> bool) \<Rightarrow>
   ((nat \<times> nat list) option, 'e ForkTreeError) result" where
  "find_node_where_mut t = find_place 0 (roots t)"

section \<open>Pruning\<close>

definition keep_branch ::
  "'h \<Rightarrow> 'n::linorder \<Rightarrow> ('h, 'e) descendent_test \<Rightarrow> ('h, 'n, 'v) Node \<Rightarrow> ('h, 'n, 'v) Node" where
  "keep_branch hash number isd root =
     Node (n_hash root) (n_number root) (n_data root)
       (take 1 (filter (\<lambda>node. n_number node = number \<and> n_hash node = hash \<or>
            n_number node < number \<and> unwrap_or (isd (n_hash node) hash) False) (n_children root)))"

definition prune ::
  "('h, 'n::linorder, 'v) ForkTree \<Rightarrow> 'h \<Rightarrow> 'n \<Rightarrow> ('h, 'e) descendent_test \<Rightarrow> ('v \<Rightarrow> bool) \<Rightarrow>
   ((unit, 'e ForkTreeError) result \<times> ('h, 'n, 'v) ForkTree) option" where
  "prune t hash number isd predicate =
     (case find_node_where t hash number isd predicate of
        None \<Rightarrow> None
      | Some (Inl e) \<Rightarrow> Some (Err e, t)
      | Some (Inr None) \<Rightarrow> Some (Ok (), rebalance t)
      | Some (Inr (Some root)) \<Rightarrow>
          Some (Ok (), rebalance (t\<lparr>roots := [keep_branch hash number isd root]\<rparr>)))"

section \<open>Finalization\<close>

text \<open>\<open>Vec::swap_remove\<close>: the element, and the vector with its last element in that place.\<close>

definition swap_remove :: "'a list \<Rightarrow> nat \<Rightarrow> 'a \<times> 'a list" where
  "swap_remove xs i = (xs ! i, butlast (xs[i := last xs]))"

definition finalize_root_at :: "nat \<Rightarrow> ('h, 'n, 'v) ForkTree \<Rightarrow> 'v \<times> ('h, 'n, 'v) ForkTree" where
  "finalize_root_at position t =
     (let (node, _) = swap_remove (roots t) position in
      (n_data node, t\<lparr>roots := n_children node, best_finalized_number := Some (n_number node)\<rparr>))"

fun position :: "('a \<Rightarrow> bool) \<Rightarrow> 'a list \<Rightarrow> nat option" where
  "position p [] = None"
| "position p (x # xs) = (if p x then Some 0 else map_option Suc (position p xs))"

definition finalize_root :: "'h \<Rightarrow> ('h, 'n, 'v) ForkTree \<Rightarrow> ('v \<times> ('h, 'n, 'v) ForkTree) option" where
  "finalize_root hash t =
     map_option (\<lambda>i. finalize_root_at i t) (position (\<lambda>node. n_hash node = hash) (roots t))"

text \<open>The check that a block descends from none of the roots.\<close>

fun no_root_below ::
  "('h, 'n::linorder, 'v) Node list \<Rightarrow> 'h \<Rightarrow> 'n \<Rightarrow> ('h, 'e) descendent_test \<Rightarrow> (unit, 'e ForkTreeError) result" where
  "no_root_below [] hash number isd = Ok ()"
| "no_root_below (root # rest) hash number isd =
     (if number > n_number root
      then (case isd (n_hash root) hash of
              Inl e \<Rightarrow> Err (Client e)
            | Inr b \<Rightarrow> if b then Err UnfinalizedAncestor else no_root_below rest hash number isd)
      else no_root_below rest hash number isd)"

text \<open>\<open>Vec::retain\<close>, with the flag that tells whether something went.\<close>

definition retain :: "('a \<Rightarrow> bool) \<Rightarrow> 'a list \<Rightarrow> 'a list \<times> bool" where
  "retain keep xs = (filter keep xs, \<exists>x\<in>set xs. \<not> keep x)"

definition finalization :: "bool \<Rightarrow> 'v FinalizationResult" where
  "finalization changed = (if changed then Changed None else Unchanged)"

definition finalize ::
  "('h, 'n::linorder, 'v) ForkTree \<Rightarrow> 'h \<Rightarrow> 'n \<Rightarrow> ('h, 'e) descendent_test \<Rightarrow>
   ('v FinalizationResult, 'e ForkTreeError) result \<times> ('h, 'n, 'v) ForkTree" where
  "finalize t hash number isd =
     (if reverts t number then (Err Revert, t)
      else
        (case finalize_root hash t of
           Some (data, t') \<Rightarrow> (Ok (Changed (Some data)), t')
         | None \<Rightarrow>
             (case no_root_below (roots t) hash number isd of
                Inl e \<Rightarrow> (Err e, t)
              | Inr _ \<Rightarrow>
                  let (rs, changed) = retain (\<lambda>root. n_number root > number \<and>
                        unwrap_or (isd hash (n_hash root)) False) (roots t) in
                  (Ok (finalization changed), t\<lparr>roots := rs, best_finalized_number := Some number\<rparr>))))"

text \<open>
  The loop of \<open>finalize_with_ancestors\<close>: descendants of the block stay, ancestors are opened, the rest
  goes. It stops early, with the index, when it meets the block itself.
\<close>

lemma mset_swap_remove: "i < length xs \<Longrightarrow> add_mset (xs ! i) (mset (snd (swap_remove xs i))) = mset xs"
proof (induction xs rule: rev_induct)
  case (snoc x xs)
  then show ?case
    by (cases "i < length xs")
       (auto simp: swap_remove_def list_update_append nth_append mset_update less_Suc_eq)
qed simp

lemma forest_count_mset: "mset xs = mset ys \<Longrightarrow> forest_count xs = forest_count ys"
  unfolding forest_count_def by (metis mset_map sum_mset_sum_list)

lemma forest_count_swap_remove:
  "i < length ts \<Longrightarrow> forest_count ts = node_count (ts ! i) + forest_count (snd (swap_remove ts i))"
  using forest_count_mset [of ts "ts ! i # snd (swap_remove ts i)"] mset_swap_remove [of i ts] by simp

function open_ancestors ::
  "nat \<Rightarrow> ('h, 'n::linorder, 'v) Node list \<Rightarrow> bool \<Rightarrow> 'h \<Rightarrow> 'n \<Rightarrow> ('h, 'e) descendent_test \<Rightarrow>
   nat option \<times> ('h, 'n, 'v) Node list \<times> bool" where
  "open_ancestors idx rs changed hash number isd =
     (if idx < length rs
      then
        let root = rs ! idx;
            is_finalized = n_hash root = hash;
            is_descendant = \<not> is_finalized \<and> n_number root > number \<and> unwrap_or (isd hash (n_hash root)) False;
            is_ancestor = \<not> is_finalized \<and> \<not> is_descendant \<and> n_number root < number \<and>
              unwrap_or (isd (n_hash root) hash) False
        in
        if is_finalized then (Some idx, rs, changed)
        else if is_descendant then open_ancestors (Suc idx) rs changed hash number isd
        else if is_ancestor
             then open_ancestors idx (snd (swap_remove rs idx) @ n_children root) True hash number isd
        else open_ancestors idx (snd (swap_remove rs idx)) True hash number isd
      else (None, rs, changed))"
  by pat_completeness auto

termination
proof (relation "measures [\<lambda>(idx, rs, _). forest_count rs, \<lambda>(idx, rs, _). length rs - idx]", goal_cases)
qed (auto simp: forest_count_swap_remove node_count_children)

definition finalize_with_ancestors ::
  "('h, 'n::linorder, 'v) ForkTree \<Rightarrow> 'h \<Rightarrow> 'n \<Rightarrow> ('h, 'e) descendent_test \<Rightarrow>
   ('v FinalizationResult, 'e ForkTreeError) result \<times> ('h, 'n, 'v) ForkTree" where
  "finalize_with_ancestors t hash number isd =
     (if reverts t number then (Err Revert, t)
      else
        (case finalize_root hash t of
           Some (data, t') \<Rightarrow> (Ok (Changed (Some data)), t')
         | None \<Rightarrow>
             (case open_ancestors 0 (roots t) False hash number isd of
                (Some idx, rs, _) \<Rightarrow>
                  let (data, t') = finalize_root_at idx (t\<lparr>roots := rs\<rparr>) in (Ok (Changed (Some data)), t')
              | (None, rs, changed) \<Rightarrow>
                  (Ok (finalization changed), t\<lparr>roots := rs, best_finalized_number := Some number\<rparr>))))"

text \<open>The first node that passes the predicate and is the block or an ancestor of it.\<close>

fun children_unpassed ::
  "('h, 'n::linorder, 'v) Node list \<Rightarrow> 'h \<Rightarrow> 'n \<Rightarrow> ('h, 'e) descendent_test \<Rightarrow> (unit, 'e ForkTreeError) result" where
  "children_unpassed [] hash number isd = Ok ()"
| "children_unpassed (node # rest) hash number isd =
     (if n_number node \<le> number
      then (case isd (n_hash node) hash of
              Inl e \<Rightarrow> Err (Client e)
            | Inr b \<Rightarrow> if b then Err UnfinalizedAncestor else children_unpassed rest hash number isd)
      else children_unpassed rest hash number isd)"

fun first_finalized ::
  "nat \<Rightarrow> ('h, 'n::linorder, 'v) Node list \<Rightarrow> 'h \<Rightarrow> 'n \<Rightarrow> ('h, 'e) descendent_test \<Rightarrow> ('v \<Rightarrow> bool) \<Rightarrow>
   ((nat \<times> ('h, 'n, 'v) Node) option, 'e ForkTreeError) result" where
  "first_finalized i [] hash number isd predicate = Ok None"
| "first_finalized i (node # rest) hash number isd predicate =
     (if predicate (n_data node)
      then (case (if n_hash node = hash then Ok True else client (isd (n_hash node) hash)) of
              Inl e \<Rightarrow> Err e
            | Inr b \<Rightarrow>
                if b then and_then (children_unpassed (n_children node) hash number isd) (\<lambda>_. Ok (Some (i, node)))
                else first_finalized (Suc i) rest hash number isd predicate)
      else first_finalized (Suc i) rest hash number isd predicate)"

definition finalizes_any_with_descendent_if ::
  "('h, 'n::linorder, 'v) ForkTree \<Rightarrow> 'h \<Rightarrow> 'n \<Rightarrow> ('h, 'e) descendent_test \<Rightarrow> ('v \<Rightarrow> bool) \<Rightarrow>
   (bool option, 'e ForkTreeError) result" where
  "finalizes_any_with_descendent_if t hash number isd predicate =
     (if reverts t number then Err Revert
      else and_then (first_finalized 0 (node_iter t) hash number isd predicate)
        (\<lambda>found. Ok (map_option (\<lambda>(_, node). \<exists>root\<in>set (roots t). n_hash root = n_hash node) found)))"

definition finalize_with_descendent_if ::
  "('h, 'n::linorder, 'v) ForkTree \<Rightarrow> 'h \<Rightarrow> 'n \<Rightarrow> ('h, 'e) descendent_test \<Rightarrow> ('v \<Rightarrow> bool) \<Rightarrow>
   ('v FinalizationResult, 'e ForkTreeError) result \<times> ('h, 'n, 'v) ForkTree" where
  "finalize_with_descendent_if t hash number isd predicate =
     (if reverts t number then (Err Revert, t)
      else
        (case first_finalized 0 (roots t) hash number isd predicate of
           Inl e \<Rightarrow> (Err e, t)
         | Inr pos \<Rightarrow>
             let (node_data, rs) =
                   (case pos of
                      None \<Rightarrow> (None, roots t)
                    | Some (i, _) \<Rightarrow> let (node, _) = swap_remove (roots t) i in (Some (n_data node), n_children node));
                 (rs', changed) = retain (\<lambda>root.
                   n_number root > number \<and> unwrap_or (isd hash (n_hash root)) False \<or>
                   n_number root = number \<and> n_hash root = hash \<or>
                   unwrap_or (isd (n_hash root) hash) False) rs;
                 t' = t\<lparr>roots := rs', best_finalized_number := Some number\<rparr>
             in
             (case node_data of
                Some data \<Rightarrow> (Ok (Changed (Some data)), t')
              | None \<Rightarrow> (Ok (finalization changed), t'))))"

declare iterate.simps [simp del] node_at.simps [simp del] open_ancestors.simps [simp del]

end
