(* ===== verification/Fork_Tree_Order.thy ===== *)
theory Fork_Tree_Order
  imports Fork_Tree
begin

text \<open>
  The order of the fork tree: its contents, the invariant that the tree mirrors the ancestry of the
  blocks, and what import and search do to a tree that satisfies it. The proofs are carried out in the
  locale of ancestries.
\<close>

section \<open>Contents\<close>

text \<open>The nodes of a forest in pre-order, their hashes, and what is stored in them.\<close>

fun nodes :: "('h, 'n, 'v) Node \<Rightarrow> ('h, 'n, 'v) Node list" where
  "nodes (Node h n d cs) = Node h n d cs # concat (map nodes cs)"

definition forest :: "('h, 'n, 'v) Node list \<Rightarrow> ('h, 'n, 'v) Node list" where
  "forest ts = concat (map nodes ts)"

definition hashes :: "('h, 'n, 'v) Node list \<Rightarrow> 'h set" where
  "hashes ts = n_hash ` set (forest ts)"

definition items :: "('h, 'n, 'v) Node list \<Rightarrow> ('h \<times> 'n \<times> 'v) multiset" where
  "items ts = image_mset item (mset (forest ts))"

lemma nodes_eq: "nodes t = t # forest (n_children t)"
  by (cases t) (simp add: forest_def)

lemma forest_simps [simp]:
  "forest [] = []" "forest (t # ts) = t # forest (n_children t) @ forest ts" "forest (ss @ ts) = forest ss @ forest ts"
  by (simp_all add: forest_def nodes_eq)

lemma hashes_simps [simp]:
  "hashes [] = {}" "hashes (t # ts) = insert (n_hash t) (hashes (n_children t) \<union> hashes ts)"
  "hashes (ss @ ts) = hashes ss \<union> hashes ts"
  by (simp_all add: hashes_def image_Un)

lemma items_simps [simp]:
  "items [] = {#}" "items (t # ts) = add_mset (item t) (items (n_children t) + items ts)"
  "items (ss @ ts) = items ss + items ts"
  by (simp_all add: items_def)

lemma hashes_items: "hashes ts = fst ` set_mset (items ts)"
  by (auto simp: hashes_def items_def item_def image_image)

lemma forest_sum: "mset (forest ts) = (\<Sum>t\<in>#mset ts. mset (nodes t))"
  by (induction ts) (simp_all add: nodes_eq)

lemma forest_mset: "mset ss = mset ts \<Longrightarrow> mset (forest ss) = mset (forest ts)"
  by (simp only: forest_sum)

lemma items_mset: "mset ss = mset ts \<Longrightarrow> items ss = items ts"
  by (simp only: items_def forest_mset [of ss ts])

lemma hashes_alt: "hashes ts = (\<Union>t\<in>set ts. insert (n_hash t) (hashes (n_children t)))"
  by (induction ts) auto

lemma item_Node [simp]: "item (Node h n d cs) = (h, n, d)"
  by (simp add: item_def)

text \<open>Iteration visits every node once, in pre-order from the last root to the first.\<close>

lemma iterate_forest: "iterate stack = forest (rev stack)"
proof (induction stack rule: iterate.induct)
  case (1 stack)
  show ?case
  proof (cases stack rule: rev_cases)
    case (snoc xs x)
    then show ?thesis
      using "1.IH" [of "(x, xs @ rev (n_children x))" x "xs @ rev (n_children x)"]
      by (simp add: iterate.simps [of "xs @ [x]"] iterator_next_def)
  qed (simp add: iterator_next_def iterate.simps)
qed

text \<open>Rebalancing moves nodes among their siblings only.\<close>

lemma rebalance_node: "n_hash (node_rebalance t) = n_hash t" "item (node_rebalance t) = item t"
  by (cases t; simp)+

lemma items_rebalance: "items [node_rebalance t] = items [t]"
proof (induction t)
  case (Node h n d cs)
  have "items (map node_rebalance ts) = items ts" if "set ts \<subseteq> set cs" for ts
    using that Node.IH by (induction ts) (auto simp: rebalance_node)
  then show ?case using items_mset [of "by_depth cs" cs] by simp
qed

lemma items_rebalance_all: "items (map node_rebalance ts) = items ts"
proof (induction ts)
  case (Cons t ts)
  then show ?case using items_rebalance [of t] by (simp add: rebalance_node)
qed simp

section \<open>The order of the tree\<close>

text \<open>Numbers are right, children descend from their parents, and siblings are on different branches.\<close>

definition separate :: "('h \<Rightarrow> 'h \<Rightarrow> bool) \<Rightarrow> ('h, 'n, 'v) Node list \<Rightarrow> bool" where
  "separate anc ts \<longleftrightarrow> distinct (map n_hash ts) \<and> (\<forall>s\<in>set ts. \<forall>t\<in>set ts. \<not> anc (n_hash s) (n_hash t))"

fun wf_node :: "('h \<Rightarrow> 'h \<Rightarrow> bool) \<Rightarrow> ('h \<Rightarrow> 'n) \<Rightarrow> ('h, 'n, 'v) Node \<Rightarrow> bool" where
  "wf_node anc num (Node h n d cs) \<longleftrightarrow>
     n = num h \<and> (\<forall>c\<in>set cs. anc h (n_hash c) \<and> wf_node anc num c) \<and> separate anc cs"

definition wf_forest :: "('h \<Rightarrow> 'h \<Rightarrow> bool) \<Rightarrow> ('h \<Rightarrow> 'n) \<Rightarrow> ('h, 'n, 'v) Node list \<Rightarrow> bool" where
  "wf_forest anc num ts \<longleftrightarrow> (\<forall>t\<in>set ts. wf_node anc num t) \<and> separate anc ts"

lemma wf_node_eq:
  "wf_node anc num t \<longleftrightarrow> n_number t = num (n_hash t) \<and> wf_forest anc num (n_children t) \<and>
     (\<forall>c\<in>set (n_children t). anc (n_hash t) (n_hash c))"
  by (cases t) (auto simp: wf_forest_def)

lemma separate_mset: "mset ss = mset ts \<Longrightarrow> separate anc ss \<longleftrightarrow> separate anc ts"
proof -
  assume m: "mset ss = mset ts"
  then have "mset (map n_hash ss) = mset (map n_hash ts)" by simp
  then show ?thesis
    unfolding separate_def using mset_eq_imp_distinct_iff mset_eq_setD [OF m] by blast
qed

lemma wf_forest_mset: "mset ss = mset ts \<Longrightarrow> wf_forest anc num ss \<longleftrightarrow> wf_forest anc num ts"
  by (simp only: wf_forest_def separate_mset [of ss ts] mset_eq_setD [of ss ts])

lemma separate_map: "(\<And>t. t \<in> set ts \<Longrightarrow> n_hash (f t) = n_hash t) \<Longrightarrow> separate anc (map f ts) \<longleftrightarrow> separate anc ts"
  by (simp add: separate_def comp_def cong: map_cong)

lemma wf_rebalance: "wf_node anc num (node_rebalance t) \<longleftrightarrow> wf_node anc num t"
proof (induction t)
  case (Node h n d cs)
  have "separate anc (map node_rebalance (by_depth cs)) \<longleftrightarrow> separate anc cs"
    using separate_map [of "by_depth cs" node_rebalance] separate_mset [of "by_depth cs" cs]
    by (simp add: rebalance_node)
  then show ?case using Node by (simp add: rebalance_node)
qed

lemma wf_rebalance_all:
  "wf_forest anc num (map node_rebalance (by_depth ts)) \<longleftrightarrow> wf_forest anc num ts"
  using separate_map [of "by_depth ts" node_rebalance] separate_mset [of "by_depth ts" ts]
  by (simp add: wf_forest_def wf_rebalance rebalance_node)

section \<open>Import\<close>

text \<open>
  What an import of a block does to a list of trees: nothing if the block is there already, an insertion
  if one of the trees is on its branch, and otherwise the block is handed back.
\<close>

definition imported ::
  "('h \<Rightarrow> 'h \<Rightarrow> bool) \<Rightarrow> ('h \<Rightarrow> 'n::linorder) \<Rightarrow> 'h \<Rightarrow> 'v \<Rightarrow> ('h, 'n, 'v) Node list \<Rightarrow>
   (('h \<times> 'n \<times> 'v) option, 'e ForkTreeError) result \<times> ('h, 'n, 'v) Node list \<Rightarrow> bool" where
  "imported anc num hash data ts r \<longleftrightarrow>
     (if hash \<in> hashes ts then r = (Err Duplicate, ts)
      else if \<exists>t\<in>set ts. anc (n_hash t) hash
           then fst r = Ok None \<and> wf_forest anc num (snd r) \<and> map n_hash (snd r) = map n_hash ts \<and>
             items (snd r) = add_mset (hash, num hash, data) (items ts)
      else r = (Ok (Some (hash, num hash, data)), ts))"

lemma node_import_same: "node_import t (n_hash t) number data isd = (Err Duplicate, t)"
  by (cases t) simp

lemma import_roots_children: "import_roots ts hash number data isd = import_children ts hash number data isd"
  by (induction ts hash number data isd rule: import_roots.induct)
     (auto simp: node_import_same split: sum.splits option.splits prod.splits)

context ancestry
begin

lemma wf_forest_Nil: "wf_forest anc num []"
  by (simp add: wf_forest_def separate_def)

lemma wf_forest_Cons:
  "wf_forest anc num (t # ts) \<longleftrightarrow> wf_node anc num t \<and> wf_forest anc num ts \<and>
     (\<forall>s\<in>set ts. n_hash s \<noteq> n_hash t \<and> \<not> anc (n_hash s) (n_hash t) \<and> \<not> anc (n_hash t) (n_hash s))"
proof -
  have "n_hash t \<notin> n_hash ` set ts \<longleftrightarrow> (\<forall>s\<in>set ts. n_hash s \<noteq> n_hash t)" by (auto simp: image_iff)
  then show ?thesis using anc_irrefl by (auto simp: wf_forest_def separate_def)
qed

lemma wf_forest_append:
  "wf_forest anc num (ss @ ts) \<longleftrightarrow> wf_forest anc num ss \<and> wf_forest anc num ts \<and>
     (\<forall>s\<in>set ss. \<forall>t\<in>set ts. n_hash s \<noteq> n_hash t \<and> \<not> anc (n_hash s) (n_hash t) \<and> \<not> anc (n_hash t) (n_hash s))"
  by (induction ss) (auto simp: wf_forest_Cons wf_forest_Nil)

lemmas wf_forest_simps = wf_forest_Nil wf_forest_Cons wf_forest_append

text \<open>Whatever lies below a node descends from it.\<close>

lemma below_node: "wf_node anc num t \<Longrightarrow> h \<in> hashes (n_children t) \<Longrightarrow> anc (n_hash t) h"
proof (induction t)
  case (Node a n d cs)
  then obtain c where c: "c \<in> set cs" "h = n_hash c \<or> h \<in> hashes (n_children c)"
    by (auto simp: hashes_alt [of cs])
  have "anc a (n_hash c)" "wf_node anc num c" using Node.prems(1) c(1) by auto
  then show ?case using Node.IH [OF c(1)] c(2) anc_trans by auto
qed

text \<open>A hash is in, or descends from, at most one of several separate trees.\<close>

lemma one_branch:
  assumes "wf_forest anc num (t # ts)" "n_hash t = h \<or> anc (n_hash t) h" "s \<in> set ts"
  shows "n_hash s \<noteq> h" "\<not> anc (n_hash s) h"
  using assms anc_linear by (auto simp: wf_forest_Cons)

lemma not_below:
  assumes "wf_forest anc num ts" "\<And>s. s \<in> set ts \<Longrightarrow> n_hash s \<noteq> h \<and> \<not> anc (n_hash s) h"
  shows "h \<notin> hashes ts"
  using assms below_node by (fastforce simp: hashes_alt [of ts] wf_forest_def)

lemma separate_alt:
  "separate anc ts \<longleftrightarrow> distinct (map n_hash ts) \<and>
     (\<forall>a\<in>set (map n_hash ts). \<forall>b\<in>set (map n_hash ts). \<not> anc a b)"
  by (simp add: separate_def)

lemma separate_hashes: "map n_hash ss = map n_hash ts \<Longrightarrow> separate anc ss \<longleftrightarrow> separate anc ts"
  by (simp only: separate_alt)

lemma imported_Cons:
  assumes wf: "wf_forest anc num (c # cs)"
    and c: "imported anc num hash data [c] (r, [c'])" and cs: "imported anc num hash data cs (q, cs')"
  shows "imported anc num hash data (c # cs)
    (case r of Inl e \<Rightarrow> (Inl e, c' # cs) | Inr None \<Rightarrow> (Inr None, c' # cs) | Inr (Some x) \<Rightarrow> (q, c' # cs'))"
proof -
  consider (dup) "hash \<in> hashes [c]" | (here) "hash \<notin> hashes [c]" "anc (n_hash c) hash"
    | (pass) "hash \<notin> hashes [c]" "\<not> anc (n_hash c) hash" by blast
  then show ?thesis
  proof cases
    case dup
    then have "hash \<in> hashes (c # cs)" "r = Inl Duplicate" "c' = c" using c by (auto simp: imported_def)
    then show ?thesis by (simp add: imported_def)
  next
    case here
    then have "hash \<notin> hashes cs"
      using one_branch [OF wf disjI2 [OF here(2)]] wf by (intro not_below) (auto simp: wf_forest_Cons)
    then have new: "hash \<notin> hashes (c # cs)" using here(1) by simp
    have c': "r = Inr None" "wf_forest anc num [c']" "n_hash c' = n_hash c"
      "items [c'] = add_mset (hash, num hash, data) (items [c])"
      using here c by (simp_all add: imported_def)
    have "wf_forest anc num (c' # cs)"
      using wf c'(2,3) by (simp add: wf_forest_Cons)
    then show ?thesis using new here(2) c' by (simp add: imported_def)
  next
    case pass
    then have r: "r = Inr (Some (hash, num hash, data))" "c' = c" using c by (simp_all add: imported_def)
    have "wf_forest anc num (c # cs')" if "wf_forest anc num cs'" "map n_hash cs' = map n_hash cs"
      using wf that(1) separate_hashes [of "c # cs'" "c # cs"] that(2) by (simp add: wf_forest_def)
    then show ?thesis using pass cs r unfolding imported_def by (simp split: if_splits)
  qed
qed

lemma import_children_imported:
  fixes isd :: "'h \<Rightarrow> 'h \<Rightarrow> (bool, 'e) result"
  assumes "wf_forest anc num cs" "\<And>x. x \<in> hashes cs \<Longrightarrow> \<not> anc hash x"
    and "\<And>c. c \<in> set cs \<Longrightarrow>
      imported anc num hash data [c] (apsnd (\<lambda>c'. [c']) (node_import c hash (num hash) data isd))"
  shows "imported anc num hash data cs (import_children cs hash (num hash) data isd)"
  using assms
proof (induction cs)
  case (Cons c cs)
  obtain r c' where r: "node_import c hash (num hash) data isd = (r, c')" by fastforce
  obtain q cs' where q: "import_children cs hash (num hash) data isd = (q, cs')" by fastforce
  have "imported anc num hash data [c] (r, [c'])" using Cons.prems(3) [of c] r by simp
  moreover have "imported anc num hash data cs (q, cs')"
    using Cons.IH Cons.prems q by (simp add: wf_forest_Cons)
  moreover have "r = Inr (Some x) \<Longrightarrow> x = (hash, num hash, data)" for x
    using calculation(1) by (simp add: imported_def split: if_splits)
  ultimately show ?case
    using imported_Cons [OF Cons.prems(1), of hash data r c' q cs'] r q
    by (auto split: sum.splits option.splits)
qed (simp add: imported_def)

lemma node_import_imported:
  fixes isd :: "'h \<Rightarrow> 'h \<Rightarrow> (bool, 'e) result"
  assumes isd: "\<And>a b. isd a b = Ok (anc a b)"
    and "wf_node anc num t" "\<And>x. x \<in> hashes [t] \<Longrightarrow> \<not> anc hash x"
  shows "imported anc num hash data [t] (apsnd (\<lambda>t'. [t']) (node_import t hash (num hash) data isd))"
  using assms(2,3)
proof (induction t)
  case (Node h n d cs)
  let ?t = "Node h n d cs"
  have n: "n = num h" and wf: "wf_forest anc num cs" and up: "\<And>c. c \<in> set cs \<Longrightarrow> anc h (n_hash c)"
    using Node.prems(1) by (auto simp: wf_forest_def)
  have new: "\<And>x. x \<in> hashes cs \<Longrightarrow> \<not> anc hash x" using Node.prems(2) by simp
  consider (same) "h = hash" | (above) "h \<noteq> hash" "num hash \<le> n" | (lower) "h \<noteq> hash" "n < num hash" by fastforce
  then show ?case
  proof cases
    case same
    then show ?thesis by (simp add: imported_def)
  next
    case above
    then have "\<not> anc h hash" using anc_num n leD by blast
    then have "hash \<notin> hashes cs" using below_node [OF Node.prems(1), of hash] by auto
    then show ?thesis using above \<open>\<not> anc h hash\<close> by (simp add: imported_def)
  next
    case lower
    obtain r cs' where r: "import_children cs hash (num hash) data isd = (r, cs')" by fastforce
    have imp: "imported anc num hash data cs (r, cs')"
    proof (rule import_children_imported [OF wf new, where isd = isd and data = data, unfolded r])
      fix c assume c: "c \<in> set cs"
      then have "wf_node anc num c" "\<And>x. x \<in> hashes [c] \<Longrightarrow> \<not> anc hash x"
        using wf new by (auto simp: wf_forest_def hashes_alt [of cs])
      then show "imported anc num hash data [c] (apsnd (\<lambda>c'. [c']) (node_import c hash (num hash) data isd))"
        by (rule Node.IH [OF c])
    qed
    have step: "node_import ?t hash (num hash) data isd =
      (case r of
         Inl e \<Rightarrow> (Err e, Node h n d cs') | Inr None \<Rightarrow> (Ok None, Node h n d cs')
       | Inr (Some (hash', number', data')) \<Rightarrow>
           if anc h hash' then (Ok None, Node h n d (cs' @ [Node hash' number' data' []]))
           else (Ok (Some (hash', number', data')), Node h n d cs'))"
      using lower r isd by (auto split: sum.splits option.splits)
    consider (dup) "hash \<in> hashes cs" | (deep) "hash \<notin> hashes cs" "\<exists>c\<in>set cs. anc (n_hash c) hash"
      | (here) "hash \<notin> hashes cs" "\<forall>c\<in>set cs. \<not> anc (n_hash c) hash" by blast
    then show ?thesis
    proof cases
      case dup
      then show ?thesis using imp lower step by (simp add: imported_def)
    next
      case deep
      then have "anc h hash" using up anc_trans by blast
      moreover have "map n_hash cs' = map n_hash cs" using imp deep by (simp add: imported_def)
      then have "\<forall>x\<in>set (map n_hash cs'). anc h x" using up by simp
      then have "\<forall>c\<in>set cs'. anc h (n_hash c)" by simp
      ultimately show ?thesis
        using imp deep lower step n by (auto simp: imported_def wf_forest_Cons wf_forest_Nil wf_node_eq)
    next
      case here
      then have "r = Inr (Some (hash, num hash, data))" "cs' = cs" using imp by (auto simp: imported_def)
      moreover have "wf_forest anc num (cs @ [Node hash (num hash) data []])"
        if "anc h hash"
        using wf here new by (auto simp: wf_forest_simps separate_def hashes_alt [of cs])
      ultimately show ?thesis
        using here lower step n up by (auto simp: imported_def wf_forest_Cons wf_forest_Nil wf_node_eq)
    qed
  qed
qed

lemma import_roots_imported:
  fixes isd :: "'h \<Rightarrow> 'h \<Rightarrow> (bool, 'e) result"
  assumes isd: "\<And>a b. isd a b = Ok (anc a b)"
    and "wf_forest anc num ts" "\<And>x. x \<in> hashes ts \<Longrightarrow> \<not> anc hash x"
  shows "imported anc num hash data ts (import_roots ts hash (num hash) data isd)"
  unfolding import_roots_children
proof (rule import_children_imported [OF assms(2,3)])
  fix c assume "c \<in> set ts"
  then have "wf_node anc num c" "\<And>x. x \<in> hashes [c] \<Longrightarrow> \<not> anc hash x"
    using assms(2,3) by (auto simp: wf_forest_def hashes_alt [of ts])
  then show "imported anc num hash data [c] (apsnd (\<lambda>c'. [c']) (node_import c hash (num hash) data isd))"
    by (rule node_import_imported [OF isd])
qed

end

section \<open>Search finds the deepest ancestor\<close>

definition candidate :: "('h \<Rightarrow> 'h \<Rightarrow> bool) \<Rightarrow> 'h \<Rightarrow> ('v \<Rightarrow> bool) \<Rightarrow> ('h, 'n, 'v) Node \<Rightarrow> bool" where
  "candidate anc hash p x \<longleftrightarrow> anc (n_hash x) hash \<and> p (n_data x)"

definition deepest ::
  "('h \<Rightarrow> 'h \<Rightarrow> bool) \<Rightarrow> 'h \<Rightarrow> ('v \<Rightarrow> bool) \<Rightarrow> ('h, 'n, 'v) Node list \<Rightarrow> ('h, 'n, 'v) Node \<Rightarrow> bool" where
  "deepest anc hash p xs x \<longleftrightarrow> x \<in> set xs \<and> candidate anc hash p x \<and>
     (\<forall>y\<in>set xs. candidate anc hash p y \<longrightarrow> y = x \<or> anc (n_hash y) (n_hash x))"

text \<open>What the search in a list of trees returns; \<open>i\<close> is the index of the first of them.\<close>

definition searched ::
  "('h \<Rightarrow> 'h \<Rightarrow> bool) \<Rightarrow> 'h \<Rightarrow> ('v \<Rightarrow> bool) \<Rightarrow> nat \<Rightarrow> ('h, 'n, 'v) Node list \<Rightarrow>
   (nat list FindOutcome, 'e ForkTreeError) result \<Rightarrow> bool" where
  "searched anc hash p i ts r \<longleftrightarrow>
     (\<exists>path k x. r = Ok (Found (path @ [i + k])) \<and> k < length ts \<and> node_at (ts ! k) path = Some x \<and>
        deepest anc hash p (forest ts) x) \<or>
     r = Ok (Failure (\<exists>t\<in>set ts. anc (n_hash t) hash)) \<and> (\<forall>x\<in>set (forest ts). \<not> candidate anc hash p x)"

definition node_searched ::
  "('h \<Rightarrow> 'h \<Rightarrow> bool) \<Rightarrow> 'h \<Rightarrow> ('v \<Rightarrow> bool) \<Rightarrow> ('h, 'n, 'v) Node \<Rightarrow>
   (nat list FindOutcome, 'e ForkTreeError) result \<Rightarrow> bool" where
  "node_searched anc hash p t r \<longleftrightarrow>
     (\<exists>path x. r = Ok (Found path) \<and> node_at t path = Some x \<and> deepest anc hash p (nodes t) x) \<or>
     r = Ok (Failure (anc (n_hash t) hash)) \<and> (\<forall>x\<in>set (nodes t). \<not> candidate anc hash p x)"

lemma node_at_simps:
  "node_at t [] = Some t"
  "k < length (n_children t) \<Longrightarrow> node_at t (path @ [k]) = node_at (n_children t ! k) path"
  by (simp_all add: node_at.simps)

lemma deepest_cong: "set xs = set ys \<Longrightarrow> deepest anc hash p xs x \<longleftrightarrow> deepest anc hash p ys x"
  by (simp add: deepest_def)

lemma deepest_append:
  "deepest anc hash p xs x \<Longrightarrow> \<forall>y\<in>set ys. \<not> candidate anc hash p y \<Longrightarrow> deepest anc hash p (xs @ ys) x"
  "deepest anc hash p ys x \<Longrightarrow> \<forall>y\<in>set xs. \<not> candidate anc hash p y \<Longrightarrow> deepest anc hash p (xs @ ys) x"
  by (auto simp: deepest_def)

lemma forest_set: "set (forest ts) = (\<Union>t\<in>set ts. insert t (set (forest (n_children t))))"
  by (induction ts) auto

context ancestry
begin

lemma no_candidate:
  assumes "wf_forest anc num ts" "\<And>t. t \<in> set ts \<Longrightarrow> \<not> anc (n_hash t) hash"
  shows "\<forall>x\<in>set (forest ts). \<not> candidate anc hash p x"
proof
  fix x assume x: "x \<in> set (forest ts)"
  then obtain t where t: "t \<in> set ts" "x = t \<or> x \<in> set (forest (n_children t))"
    by (auto simp: forest_set [of ts])
  then have "x = t \<or> anc (n_hash t) (n_hash x)"
    using below_node [of t "n_hash x"] assms(1) by (auto simp: wf_forest_def hashes_def)
  then show "\<not> candidate anc hash p x" using assms(2) [OF t(1)] anc_trans [of "n_hash t" "n_hash x" hash] by (auto simp: candidate_def)
qed

lemma rest_no_candidate:
  assumes "wf_forest anc num (t # ts)" "anc (n_hash t) hash"
  shows "\<forall>x\<in>set (forest ts). \<not> candidate anc hash p x" "\<forall>s\<in>set ts. \<not> anc (n_hash s) hash"
proof -
  have wf: "wf_forest anc num ts" using assms(1) by (simp add: wf_forest_Cons)
  note other = one_branch(2) [OF assms(1) disjI2 [OF assms(2)]]
  show "\<forall>x\<in>set (forest ts). \<not> candidate anc hash p x" by (rule no_candidate [OF wf other])
  show "\<forall>s\<in>set ts. \<not> anc (n_hash s) hash" using other by blast
qed

lemma candidate_below: "wf_node anc num t \<Longrightarrow> x \<in> set (nodes t) \<Longrightarrow> candidate anc hash p x \<Longrightarrow> anc (n_hash t) hash"
  using below_node [of t "n_hash x"] anc_trans [of "n_hash t" "n_hash x" hash]
  by (auto simp: nodes_eq candidate_def hashes_def)

lemma find_in_children_searched:
  fixes isd :: "'h \<Rightarrow> 'h \<Rightarrow> (bool, 'e) result"
  assumes "wf_forest anc num cs"
    and "\<And>c. c \<in> set cs \<Longrightarrow> node_searched anc hash p c (find_node_index_where c hash (num hash) isd p)"
  shows "searched anc hash p i cs (find_in_children i cs hash (num hash) isd p)"
  using assms
proof (induction cs arbitrary: i)
  case (Cons c cs)
  let ?r = "find_node_index_where c hash (num hash) isd p"
  have wf: "wf_node anc num c" using Cons.prems(1) by (simp add: wf_forest_Cons)
  have "node_searched anc hash p c ?r" using Cons.prems(2) by simp
  then consider (found) path x where "?r = Ok (Found path)" "node_at c path = Some x" "deepest anc hash p (nodes c) x"
    | (not) "?r = Ok (Failure (anc (n_hash c) hash))" "\<forall>x\<in>set (nodes c). \<not> candidate anc hash p x"
    by (auto simp: node_searched_def)
  then show ?case
  proof cases
    case found
    then have "anc (n_hash c) hash" using candidate_below [OF wf] by (auto simp: deepest_def)
    then have "deepest anc hash p (forest (c # cs)) x"
      using deepest_append(1) [OF found(3)] rest_no_candidate(1) [OF Cons.prems(1)] by (simp add: nodes_eq)
    then show ?thesis using found(1,2) unfolding searched_def
      by (intro disjI1 exI [of _ path] exI [of _ 0] exI [of _ x]) simp
  next
    case not
    show ?thesis
    proof (cases "anc (n_hash c) hash")
      case True
      then show ?thesis
        using not rest_no_candidate(1) [OF Cons.prems(1) True, of p] rest_no_candidate(2) [OF Cons.prems(1) True] by (auto simp: searched_def nodes_eq)
    next
      case False
      have "searched anc hash p (Suc i) cs (find_in_children (Suc i) cs hash (num hash) isd p)"
        using Cons.IH Cons.prems by (simp add: wf_forest_Cons)
      then consider (there) path k x where
          "find_in_children (Suc i) cs hash (num hash) isd p = Ok (Found (path @ [Suc i + k]))" "k < length cs"
          "node_at (cs ! k) path = Some x" "deepest anc hash p (forest cs) x"
        | (nowhere) "find_in_children (Suc i) cs hash (num hash) isd p = Ok (Failure (\<exists>t\<in>set cs. anc (n_hash t) hash))"
          "\<forall>x\<in>set (forest cs). \<not> candidate anc hash p x"
        by (auto simp: searched_def)
      then show ?thesis
      proof cases
        case there
        have "deepest anc hash p (forest (c # cs)) x"
          using deepest_append(2) [OF there(4) not(2)] by (simp add: nodes_eq)
        with there not(1) False show ?thesis
          unfolding searched_def by (intro disjI1 exI [of _ path] exI [of _ "Suc k"] exI [of _ x]) simp
      next
        case nowhere
        then show ?thesis using not False by (auto simp: searched_def nodes_eq)
      qed
    qed
  qed
qed (simp add: searched_def)

lemma find_node_index_searched:
  fixes isd :: "'h \<Rightarrow> 'h \<Rightarrow> (bool, 'e) result"
  assumes isd: "\<And>a b. isd a b = Ok (anc a b)" and "wf_node anc num t"
  shows "node_searched anc hash p t (find_node_index_where t hash (num hash) isd p)"
  using assms(2)
proof (induction t)
  case (Node h n d cs)
  let ?t = "Node h n d cs"
  have n: "n = num h" and wf: "wf_forest anc num cs" and up: "\<And>c. c \<in> set cs \<Longrightarrow> anc h (n_hash c)"
    using Node.prems by (auto simp: wf_forest_def)
  show ?case
  proof (cases "num hash < n")
    case True
    then have "\<not> anc h hash" using anc_num n order.asym by blast
    then have "\<forall>x\<in>set (nodes ?t). \<not> candidate anc hash p x"
      using candidate_below [OF Node.prems] by auto
    then show ?thesis using True \<open>\<not> anc h hash\<close> by (simp add: node_searched_def)
  next
    case False
    have "searched anc hash p 0 cs (find_in_children 0 cs hash (num hash) isd p)"
      using Node.IH wf by (intro find_in_children_searched) (auto simp: wf_forest_def)
    then consider (there) path k x where
        "find_in_children 0 cs hash (num hash) isd p = Ok (Found (path @ [k]))" "k < length cs"
        "node_at (cs ! k) path = Some x" "deepest anc hash p (forest cs) x"
      | (nowhere) "find_in_children 0 cs hash (num hash) isd p = Ok (Failure (\<exists>t\<in>set cs. anc (n_hash t) hash))"
        "\<forall>x\<in>set (forest cs). \<not> candidate anc hash p x"
      by (auto simp: searched_def)
    then show ?thesis
    proof cases
      case there
      then have "anc h (n_hash x)"
        using below_node [OF Node.prems, of "n_hash x"] by (simp add: deepest_def hashes_def)
      then have "deepest anc hash p (nodes ?t) x" using there(4) by (auto simp: deepest_def nodes_eq)
      moreover have "node_at ?t (path @ [k]) = Some x" using there(2,3) by (simp add: node_at_simps)
      ultimately show ?thesis using False there(1) by (simp add: node_searched_def)
    next
      case nowhere
      have "(\<exists>c\<in>set cs. anc (n_hash c) hash) \<Longrightarrow> anc h hash" using up anc_trans by blast
      then have r: "find_node_index_where ?t hash (num hash) isd p =
          (if anc h hash \<and> p d then Ok (Found []) else Ok (Failure (anc h hash)))"
        using False nowhere(1) isd by (auto simp: client_def)
      show ?thesis
      proof (cases "anc h hash \<and> p d")
        case True
        then have "deepest anc hash p (nodes ?t) ?t"
          using nowhere(2) by (auto simp: deepest_def nodes_eq candidate_def)
        then show ?thesis using True r by (simp add: node_searched_def node_at_simps)
      next
        case False
        then have "\<forall>x\<in>set (nodes ?t). \<not> candidate anc hash p x"
          using nowhere(2) by (auto simp: candidate_def nodes_eq)
        then show ?thesis using False r by (auto simp: node_searched_def)
      qed
    qed
  qed
qed

lemma find_in_roots_deepest:
  fixes isd :: "'h \<Rightarrow> 'h \<Rightarrow> (bool, 'e) result"
  assumes isd: "\<And>a b. isd a b = Ok (anc a b)" and "wf_forest anc num ts"
  shows "(\<exists>x. find_in_roots ts hash (num hash) isd p = Some (Ok (Some x)) \<and> deepest anc hash p (forest ts) x) \<or>
    find_in_roots ts hash (num hash) isd p = Some (Ok None) \<and> (\<forall>x\<in>set (forest ts). \<not> candidate anc hash p x)"
  using assms(2)
proof (induction ts)
  case (Cons t ts)
  have wf: "wf_node anc num t" "wf_forest anc num ts" using Cons.prems by (simp_all add: wf_forest_Cons)
  from find_node_index_searched [OF isd wf(1), of hash p]
  consider (found) path x where "find_node_index_where t hash (num hash) isd p = Ok (Found path)"
      "node_at t path = Some x" "deepest anc hash p (nodes t) x"
    | (not) "find_node_index_where t hash (num hash) isd p = Ok (Failure (anc (n_hash t) hash))"
      "\<forall>x\<in>set (nodes t). \<not> candidate anc hash p x"
    by (auto simp: node_searched_def)
  then show ?case
  proof cases
    case found
    then have "anc (n_hash t) hash" using candidate_below [OF wf(1)] by (auto simp: deepest_def)
    then have "deepest anc hash p (forest (t # ts)) x"
      using deepest_append(1) [OF found(3)] rest_no_candidate(1) [OF Cons.prems] by (simp add: nodes_eq)
    then show ?thesis using found(1,2) by (simp add: node_find_node_where_def)
  next
    case not
    then show ?thesis
      using Cons.IH [OF wf(2)] deepest_append(2) [of anc hash p "forest ts" _ "nodes t"]
      by (auto simp: node_find_node_where_def nodes_eq)
  qed
qed simp

end

text \<open>The mutable search finds the node that the other search finds.\<close>

lemma find_place_ge: "find_place k ts hash number isd p = Ok (Some (i, path)) \<Longrightarrow> k \<le> i"
  by (induction ts arbitrary: k) (auto split: sum.splits FindOutcome.splits dest: Suc_leD)

lemma find_place_node:
  "find_in_roots ts hash number isd p =
     (case find_place k ts hash number isd p of
        Inl e \<Rightarrow> Some (Err e)
      | Inr None \<Rightarrow> Some (Ok None)
      | Inr (Some (i, path)) \<Rightarrow> map_option (\<lambda>x. Ok (Some x)) (node_at (ts ! (i - k)) path))"
proof (induction ts arbitrary: k)
  case (Cons t ts)
  then show ?case
    using find_place_ge [of "Suc k" ts hash number isd p]
    by (force simp: node_find_node_where_def Suc_diff_le nth_Cons' split: sum.splits FindOutcome.splits option.splits prod.splits)
qed simp

lemma find_node_where_mut_place:
  "find_node_where t hash number isd p =
     (case find_node_where_mut t hash number isd p of
        Inl e \<Rightarrow> Some (Err e)
      | Inr None \<Rightarrow> Some (Ok None)
      | Inr (Some (i, path)) \<Rightarrow> map_option (\<lambda>x. Ok (Some x)) (node_at (roots t ! i) path))"
  using find_place_node [of "roots t" hash number isd p 0]
  by (simp add: find_node_where_def find_node_where_mut_def split: sum.splits option.splits prod.splits)

end
