(* ===== verification/Fork_Tree_Finality.thy ===== *)
theory Fork_Tree_Finality
  imports Fork_Tree_Order
begin

text \<open>
  What finalization and pruning leave of a fork tree in order: exactly the nodes on the right side of
  the finalized block.
\<close>

section \<open>Finalization keeps exactly the descendants\<close>

definition surviving :: "('h \<Rightarrow> 'h \<Rightarrow> bool) \<Rightarrow> 'h \<Rightarrow> ('h \<times> 'n \<times> 'v) multiset \<Rightarrow> ('h \<times> 'n \<times> 'v) multiset" where
  "surviving anc hash M = filter_mset (\<lambda>x. anc hash (fst x)) M"

lemma surviving_simps [simp]:
  "surviving anc hash {#} = {#}" "surviving anc hash (M + N) = surviving anc hash M + surviving anc hash N"
  "surviving anc hash (add_mset x M) =
     (if anc hash (fst x) then add_mset x (surviving anc hash M) else surviving anc hash M)"
  by (simp_all add: surviving_def)

lemma surviving_all: "\<forall>h\<in>hashes ts. anc hash h \<Longrightarrow> surviving anc hash (items ts) = items ts"
  by (simp add: surviving_def hashes_items filter_mset_eq_conv)

lemma surviving_none: "\<forall>h\<in>hashes ts. \<not> anc hash h \<Longrightarrow> surviving anc hash (items ts) = {#}"
  by (simp add: surviving_def hashes_items filter_mset_eq_conv)

lemma surviving_le: "surviving anc hash M \<subseteq># M"
  by (simp add: surviving_def)

lemma fst_item [simp]: "fst (item t) = n_hash t"
  by (simp add: item_def)

lemma length_forest_count: "length ts \<le> forest_count ts"
  by (induction ts) (simp_all add: node_count_children)

lemma swap_remove_items:
  "i < length ts \<Longrightarrow> items ts = add_mset (item (ts ! i)) (items (n_children (ts ! i)) + items (snd (swap_remove ts i)))"
  using items_mset [of ts "ts ! i # snd (swap_remove ts i)"] mset_swap_remove [of i ts] by simp

lemma swap_remove_wf:
  "i < length ts \<Longrightarrow> wf_forest anc num ts \<longleftrightarrow> wf_forest anc num (ts ! i # snd (swap_remove ts i))"
  by (rule wf_forest_mset) (simp add: mset_swap_remove)

lemma swap_remove_prefix: "j < i \<Longrightarrow> i < length ts \<Longrightarrow> snd (swap_remove ts i) ! j = ts ! j"
  by (simp add: swap_remove_def nth_butlast)

lemma swap_remove_length: "i < length ts \<Longrightarrow> length (snd (swap_remove ts i)) = length ts - 1"
  by (simp add: swap_remove_def)

text \<open>What the loop of \<open>finalize_with_ancestors\<close> leaves.\<close>

definition opened ::
  "('h \<Rightarrow> 'h \<Rightarrow> bool) \<Rightarrow> ('h \<Rightarrow> 'n) \<Rightarrow> 'h \<Rightarrow> bool \<Rightarrow> ('h, 'n, 'v) Node list \<Rightarrow>
   nat option \<times> ('h, 'n, 'v) Node list \<times> bool \<Rightarrow> bool" where
  "opened anc num hash changed ts r \<longleftrightarrow>
     (case r of
        (Some i, ts', _) \<Rightarrow>
          wf_forest anc num ts' \<and> i < length ts' \<and> n_hash (ts' ! i) = hash \<and> item (ts' ! i) \<in># items ts \<and>
          items (n_children (ts' ! i)) = surviving anc hash (items ts)
      | (None, ts', changed') \<Rightarrow>
          wf_forest anc num ts' \<and> hash \<notin> hashes ts \<and> items ts' = surviving anc hash (items ts) \<and>
          (changed' \<longleftrightarrow> changed \<or> items ts' \<noteq> items ts))"

lemma opened_drop:
  assumes "opened anc num hash True ss r" "items ts = items ss + M" "M \<noteq> {#}"
    and "\<forall>x\<in>#M. \<not> anc hash (fst x) \<and> fst x \<noteq> hash"
  shows "opened anc num hash changed ts r"
proof -
  have same: "surviving anc hash (items ts) = surviving anc hash (items ss)"
    using assms(2,4) by (simp add: surviving_def filter_mset_eq_conv)
  have "hash \<in> hashes ts \<longleftrightarrow> hash \<in> hashes ss" using assms(2,4) by (auto simp: hashes_items)
  moreover have "surviving anc hash (items ss) \<noteq> items ts"
    using surviving_le [of anc hash "items ss"] assms(2,3) by (metis add_cancel_left_right subset_mset.add_diff_inverse
      subset_mset.le_add_same_cancel1 subset_mset.add_le_same_cancel1 subset_mset.le_zero_eq)
  ultimately show ?thesis
    using assms(1,2) same by (auto simp: opened_def split: prod.splits option.splits)
qed

context ancestry
begin

lemma all_below: "wf_node anc num t \<Longrightarrow> n_hash t = hash \<or> anc hash (n_hash t) \<Longrightarrow> \<forall>h\<in>hashes (n_children t). anc hash h"
  using below_node anc_trans by blast

lemma none_below:
  assumes "wf_node anc num t" "n_hash t \<noteq> hash" "\<not> anc hash (n_hash t)" "\<not> anc (n_hash t) hash"
  shows "\<forall>h\<in>hashes [t]. \<not> anc hash h \<and> h \<noteq> hash"
  using below_node [OF assms(1)] assms(2-4) anc_linear by auto

lemma wf_open: "wf_forest anc num (t # ts) \<Longrightarrow> wf_forest anc num (ts @ n_children t)"
proof -
  assume wf: "wf_forest anc num (t # ts)"
  have "n_hash s \<noteq> n_hash c \<and> \<not> anc (n_hash s) (n_hash c) \<and> \<not> anc (n_hash c) (n_hash s)"
    if "s \<in> set ts" "c \<in> set (n_children t)" for s c
  proof -
    have c: "anc (n_hash t) (n_hash c)" using wf that(2) by (simp add: wf_forest_Cons wf_node_eq)
    have s: "n_hash s \<noteq> n_hash t" "\<not> anc (n_hash s) (n_hash t)" "\<not> anc (n_hash t) (n_hash s)"
      using wf that(1) by (auto simp: wf_forest_Cons)
    then show ?thesis using c anc_linear [OF c, of "n_hash s"] anc_trans [OF c, of "n_hash s"] by auto
  qed
  then show ?thesis using wf by (simp add: wf_forest_Cons wf_forest_append wf_node_eq)
qed

lemma others_die:
  assumes "wf_forest anc num (t # ts)" "n_hash t = hash"
  shows "\<forall>h\<in>hashes ts. \<not> anc hash h"
proof
  fix h assume "h \<in> hashes ts"
  then obtain s where s: "s \<in> set ts" "h \<in> hashes [s]" by (auto simp: hashes_alt [of ts])
  moreover have "wf_node anc num s" using assms(1) s(1) by (simp add: wf_forest_def)
  moreover have "n_hash s \<noteq> hash" "\<not> anc hash (n_hash s)" "\<not> anc (n_hash s) hash"
    using assms s(1) by (auto simp: wf_forest_Cons)
  ultimately show "\<not> anc hash h" using none_below by blast
qed

lemma open_ancestors_spec:
  fixes isd :: "'h \<Rightarrow> 'h \<Rightarrow> (bool, 'e) result"
  assumes isd: "\<And>a b. isd a b = Ok (anc a b)"
    and "wf_forest anc num ts" "idx \<le> length ts" "\<And>j. j < idx \<Longrightarrow> anc hash (n_hash (ts ! j))"
  shows "opened anc num hash changed ts (open_ancestors idx ts changed hash (num hash) isd)"
  using assms(2-)
proof (induction "forest_count ts - idx" arbitrary: idx ts changed rule: less_induct)
  case less
  note count = length_forest_count [of ts]
  show ?case
  proof (cases "idx < length ts")
    case False
    then have "\<forall>t\<in>set ts. anc hash (n_hash t)" using less.prems(2,3) by (metis in_set_conv_nth le_antisym not_less)
    then have "\<forall>h\<in>hashes ts. anc hash h"
      using less.prems(1) all_below by (auto simp: hashes_alt [of ts] wf_forest_def)
    then have "hash \<notin> hashes ts" "surviving anc hash (items ts) = items ts"
      using anc_irrefl [of hash] surviving_all [of ts anc hash] by auto
    then show ?thesis using False less.prems(1) by (simp add: open_ancestors.simps opened_def)
  next
    case True
    let ?t = "ts ! idx" and ?rest = "snd (swap_remove ts idx)"
    have wf: "wf_forest anc num (?t # ?rest)" using swap_remove_wf [OF True] less.prems(1) by blast
    then have t: "wf_node anc num ?t" "n_number ?t = num (n_hash ?t)" by (simp_all add: wf_forest_Cons wf_node_eq)
    note its = swap_remove_items [OF True]
    have pre: "anc hash (n_hash (?rest ! j))" if "j < idx" for j
      using less.prems(3) [OF that] swap_remove_prefix [OF that True] by simp
    have len: "idx \<le> length ?rest" using True swap_remove_length [OF True] by simp
    consider (found) "n_hash ?t = hash" | (desc) "anc hash (n_hash ?t)" | (ance) "anc (n_hash ?t) hash"
      | (other) "n_hash ?t \<noteq> hash" "\<not> anc hash (n_hash ?t)" "\<not> anc (n_hash ?t) hash" by blast
    then show ?thesis
    proof cases
      case found
      have "surviving anc hash (items ts) = items (n_children ?t)"
        using its found anc_irrefl surviving_all [of "n_children ?t" anc hash] all_below [OF t(1) disjI1 [OF found]]
          surviving_none [of ?rest anc hash] others_die [OF wf found] by simp
      then show ?thesis
        using True found less.prems(1) its by (simp add: open_ancestors.simps [of idx] opened_def Let_def)
    next
      case desc
      have "forest_count ts - Suc idx < forest_count ts - idx" using True count by simp
      moreover have "anc hash (n_hash (ts ! j))" if "j < Suc idx" for j
        using less.prems(3) desc that by (cases "j = idx") auto
      ultimately have "opened anc num hash changed ts (open_ancestors (Suc idx) ts changed hash (num hash) isd)"
        using less.hyps [of ts "Suc idx"] less.prems(1) True by simp
      then show ?thesis
        using True desc anc_neq [OF desc] anc_num [OF desc] isd t(2)
        by (simp add: open_ancestors.simps [of idx] Let_def)
    next
      case ance
      let ?ts = "?rest @ n_children ?t"
      have "forest_count ?ts - idx < forest_count ts - idx"
        using forest_count_swap_remove [OF True] node_count_children [of ?t] True count by simp
      moreover have "anc hash (n_hash (?ts ! j))" if "j < idx" for j
        using pre [OF that] that len by (simp add: nth_append)
      ultimately have "opened anc num hash True ?ts (open_ancestors idx ?ts True hash (num hash) isd)"
        using less.hyps [of ?ts idx] wf_open [OF wf] len by simp
      moreover have "items ts = items ?ts + {#item ?t#}" using its by simp
      ultimately have "opened anc num hash changed ts (open_ancestors idx ?ts True hash (num hash) isd)"
        by (rule opened_drop) (use anc_asym [OF ance] anc_neq [OF ance] in auto)
      then show ?thesis
        using True ance anc_neq [OF ance] anc_asym [OF ance] anc_num [OF ance] isd t(2)
        by (simp add: open_ancestors.simps [of idx ts] Let_def)
    next
      case other
      have "forest_count ?rest - idx < forest_count ts - idx"
        using forest_count_swap_remove [OF True] node_count_children [of ?t] True count by simp
      then have "opened anc num hash True ?rest (open_ancestors idx ?rest True hash (num hash) isd)"
        using less.hyps [of ?rest idx] wf len pre by (simp add: wf_forest_Cons)
      moreover have "items ts = items ?rest + items [?t]" using its by simp
      ultimately have "opened anc num hash changed ts (open_ancestors idx ?rest True hash (num hash) isd)"
        by (rule opened_drop) (use none_below [OF t(1) other] in \<open>simp_all add: hashes_items\<close>)
      then show ?thesis
        using True other isd by (simp add: open_ancestors.simps [of idx ts] Let_def)
    qed
  qed
qed

end

text \<open>
  What finalizing a block does: everything but its descendants goes, the block's number is recorded,
  and the result tells whether the block was in the tree and whether something went.
\<close>

definition finalized ::
  "('h \<Rightarrow> 'h \<Rightarrow> bool) \<Rightarrow> ('h \<Rightarrow> 'n) \<Rightarrow> 'h \<Rightarrow> ('h, 'n, 'v) ForkTree \<Rightarrow>
   ('v FinalizationResult, 'e ForkTreeError) result \<times> ('h, 'n, 'v) ForkTree \<Rightarrow> bool" where
  "finalized anc num hash t r \<longleftrightarrow>
     wf_forest anc num (roots (snd r)) \<and> best_finalized_number (snd r) = Some (num hash) \<and>
     items (roots (snd r)) = surviving anc hash (items (roots t)) \<and>
     (case fst r of
        Inl _ \<Rightarrow> False
      | Inr (Changed (Some data)) \<Rightarrow> (hash, num hash, data) \<in># items (roots t)
      | Inr (Changed None) \<Rightarrow> hash \<notin> hashes (roots t) \<and> items (roots (snd r)) \<noteq> items (roots t)
      | Inr Unchanged \<Rightarrow> hash \<notin> hashes (roots t) \<and> items (roots (snd r)) = items (roots t))"

lemma position_Some: "position p xs = Some i \<Longrightarrow> i < length xs \<and> p (xs ! i)"
  by (induction xs arbitrary: i) (auto split: if_splits)

lemma position_None: "position p xs = None \<Longrightarrow> x \<in> set xs \<Longrightarrow> \<not> p x"
  by (induction xs) (auto split: if_splits)

context ancestry
begin

lemma finalize_root_at_finalized:
  assumes "wf_forest anc num ts" "i < length ts" "n_hash (ts ! i) = hash"
    and "items (n_children (ts ! i)) = surviving anc hash (items (roots t))" "item (ts ! i) \<in># items (roots t)"
  shows "finalized anc num hash t
    (apfst (\<lambda>data. Ok (Changed (Some data))) (finalize_root_at i (t\<lparr>roots := ts\<rparr>)))"
proof -
  have "wf_node anc num (ts ! i)" using assms(1,2) by (simp add: wf_forest_def)
  then have "n_number (ts ! i) = num hash" "wf_forest anc num (n_children (ts ! i))"
    using assms(3) by (simp_all add: wf_node_eq)
  then show ?thesis
    using assms(3-) by (simp add: finalized_def finalize_root_at_def swap_remove_def item_def)
qed

lemma finalize_root_finalized:
  assumes "wf_forest anc num (roots t)" "finalize_root hash t = Some (data, t')"
  shows "finalized anc num hash t (Ok (Changed (Some data)), t')"
proof -
  obtain i where i: "position (\<lambda>node. n_hash node = hash) (roots t) = Some i" "(data, t') = finalize_root_at i t"
    using assms(2) by (auto simp: finalize_root_def)
  let ?x = "roots t ! i" and ?rest = "snd (swap_remove (roots t) i)"
  have i': "i < length (roots t)" "n_hash ?x = hash" using position_Some [OF i(1)] by auto
  have wf: "wf_forest anc num (?x # ?rest)" using swap_remove_wf [OF i'(1)] assms(1) by blast
  then have x: "wf_node anc num ?x" by (simp add: wf_forest_Cons)
  have "surviving anc hash (items (roots t)) = items (n_children ?x)"
    using swap_remove_items [OF i'(1)] i'(2) anc_irrefl surviving_all [of "n_children ?x" anc hash]
      all_below [OF x disjI1 [OF i'(2)]] surviving_none [of ?rest anc hash] others_die [OF wf i'(2)] by simp
  moreover have "item ?x \<in># items (roots t)" by (subst swap_remove_items [OF i'(1)]) simp
  ultimately have "finalized anc num hash t (apfst (\<lambda>data. Ok (Changed (Some data))) (finalize_root_at i t))"
    using finalize_root_at_finalized [OF assms(1) i', of t] by simp
  then show ?thesis by (simp add: i(2) [symmetric])
qed

lemma finalize_with_ancestors_finalized:
  fixes isd :: "'h \<Rightarrow> 'h \<Rightarrow> (bool, 'e) result"
  assumes isd: "\<And>a b. isd a b = Ok (anc a b)" and wf: "wf_forest anc num (roots t)"
    and "\<not> reverts t (num hash)"
  shows "finalized anc num hash t (finalize_with_ancestors t hash (num hash) isd)"
proof (cases "finalize_root hash t")
  case None
  obtain r ts ch where o: "open_ancestors 0 (roots t) False hash (num hash) isd = (r, ts, ch)" by (metis prod.exhaust)
  have opn: "opened anc num hash False (roots t) (r, ts, ch)"
    using open_ancestors_spec [OF isd wf, of 0 hash False] o by simp
  then show ?thesis
  proof (cases r)
    case (Some i)
    then have "finalize_with_ancestors t hash (num hash) isd =
        apfst (\<lambda>data. Ok (Changed (Some data))) (finalize_root_at i (t\<lparr>roots := ts\<rparr>))"
      using assms(3) None o by (simp add: finalize_with_ancestors_def split: prod.splits)
    moreover have "wf_forest anc num ts" "i < length ts" "n_hash (ts ! i) = hash" "item (ts ! i) \<in># items (roots t)"
      "items (n_children (ts ! i)) = surviving anc hash (items (roots t))"
      using opn Some by (simp_all add: opened_def)
    ultimately show ?thesis using finalize_root_at_finalized by simp
  qed (use assms(3) None o opn in \<open>auto simp: finalize_with_ancestors_def opened_def finalized_def finalization_def\<close>)
next
  case (Some a)
  then show ?thesis
    using finalize_root_finalized [OF wf] assms(3) by (cases a) (simp add: finalize_with_ancestors_def)
qed

end

lemma forest_induct:
  assumes "P []" "\<And>t ts. P (n_children t) \<Longrightarrow> P ts \<Longrightarrow> P (t # ts)"
  shows "P ts"
proof (induction "forest_count ts" arbitrary: ts rule: less_induct)
  case less
  show ?case
  proof (cases ts)
    case (Cons t us)
    then show ?thesis using less assms(2) by (simp add: node_count_children)
  qed (simp add: assms(1))
qed

lemma forest_below: "z \<in> set (forest us) \<Longrightarrow> set (forest (n_children z)) \<subseteq> set (forest us)"
  by (induction us rule: forest_induct) auto

lemma length_items: "size (items ts) = length (forest ts)"
  by (simp add: items_def)

lemma length_forest_filter:
  "length (forest (filter P ts)) \<le> length (forest ts)"
  "t \<in> set ts \<Longrightarrow> \<not> P t \<Longrightarrow> length (forest (filter P ts)) < length (forest ts)"
proof -
  show le: "length (forest (filter P ts)) \<le> length (forest ts)" for ts
    by (induction ts) auto
  show "length (forest (filter P ts)) < length (forest ts)" if "t \<in> set ts" "\<not> P t"
    using that
  proof (induction ts)
    case (Cons s ts)
    then show ?case using le [of ts] by (cases "t = s") (auto simp: less_Suc_eq_le)
  qed simp
qed

lemma items_filter: "items (filter P ts) = items ts \<longleftrightarrow> (\<forall>t\<in>set ts. P t)"
proof
  assume "items (filter P ts) = items ts"
  then have "length (forest (filter P ts)) = length (forest ts)" by (metis length_items)
  then show "\<forall>t\<in>set ts. P t" using length_forest_filter(2) by (metis less_irrefl)
qed (simp add: filter_id_conv [THEN iffD2])

lemma wf_forest_filter: "wf_forest anc num ts \<Longrightarrow> wf_forest anc num (filter P ts)"
  by (auto simp: wf_forest_def separate_def distinct_map_filter)

text \<open>The block itself or one of its ancestors, with data that passes the predicate.\<close>

definition enacted_by :: "('h \<Rightarrow> 'h \<Rightarrow> bool) \<Rightarrow> 'h \<Rightarrow> ('v \<Rightarrow> bool) \<Rightarrow> ('h, 'n, 'v) Node \<Rightarrow> bool" where
  "enacted_by anc hash p x \<longleftrightarrow> p (n_data x) \<and> (n_hash x = hash \<or> anc (n_hash x) hash)"

context ancestry
begin

lemma no_root_below_eq:
  fixes isd :: "'h \<Rightarrow> 'h \<Rightarrow> (bool, 'e) result"
  assumes isd: "\<And>a b. isd a b = Ok (anc a b)" and "\<forall>t\<in>set ts. wf_node anc num t"
  shows "no_root_below ts hash (num hash) isd =
    (if \<exists>t\<in>set ts. anc (n_hash t) hash then Err UnfinalizedAncestor else Ok ())"
  using assms(2) anc_num by (induction ts) (auto simp: isd wf_node_eq)

lemma children_unpassed_eq:
  fixes isd :: "'h \<Rightarrow> 'h \<Rightarrow> (bool, 'e) result"
  assumes isd: "\<And>a b. isd a b = Ok (anc a b)" and "\<forall>t\<in>set ts. wf_node anc num t"
  shows "children_unpassed ts hash (num hash) isd =
    (if \<exists>t\<in>set ts. anc (n_hash t) hash then Err UnfinalizedAncestor else Ok ())"
  using assms(2) anc_num by (induction ts) (auto simp: isd wf_node_eq dest: less_imp_le)

lemma first_finalized_eq:
  fixes isd :: "'h \<Rightarrow> 'h \<Rightarrow> (bool, 'e) result"
  assumes isd: "\<And>a b. isd a b = Ok (anc a b)" and "\<forall>t\<in>set ts. wf_node anc num t"
  shows "(\<forall>x\<in>set ts. \<not> enacted_by anc hash p x) \<and> first_finalized i ts hash (num hash) isd p = Ok None \<or>
    (\<exists>k<length ts. enacted_by anc hash p (ts ! k) \<and> (\<forall>j<k. \<not> enacted_by anc hash p (ts ! j)) \<and>
       first_finalized i ts hash (num hash) isd p =
         (if \<exists>c\<in>set (n_children (ts ! k)). anc (n_hash c) hash then Err UnfinalizedAncestor
          else Ok (Some (i + k, ts ! k))))"
  using assms(2)
proof (induction ts arbitrary: i)
  case (Cons t ts)
  show ?case
  proof (cases "enacted_by anc hash p t")
    case True
    have "\<forall>c\<in>set (n_children t). wf_node anc num c" using Cons.prems by (simp add: wf_node_eq [of _ _ t] wf_forest_def)
    then show ?thesis
      using True children_unpassed_eq [OF isd, of "n_children t" hash]
      by (intro disjI2 exI [of _ 0]) (auto simp: enacted_by_def isd client_def)
  next
    case False
    then have "first_finalized i (t # ts) hash (num hash) isd p = first_finalized (Suc i) ts hash (num hash) isd p"
      by (auto simp: enacted_by_def isd client_def)
    moreover from Cons.IH [of "Suc i"] Cons.prems consider
      (no) "\<forall>x\<in>set ts. \<not> enacted_by anc hash p x" "first_finalized (Suc i) ts hash (num hash) isd p = Ok None"
    | (yes) k where "k < length ts" "enacted_by anc hash p (ts ! k)" "\<forall>j<k. \<not> enacted_by anc hash p (ts ! j)"
        "first_finalized (Suc i) ts hash (num hash) isd p =
         (if \<exists>c\<in>set (n_children (ts ! k)). anc (n_hash c) hash then Err UnfinalizedAncestor
          else Ok (Some (Suc i + k, ts ! k)))"
      by auto
    then show ?thesis
    proof cases
      case no
      then show ?thesis using False calculation by simp
    next
      case yes
      then have "\<forall>j<Suc k. \<not> enacted_by anc hash p ((t # ts) ! j)" using False by (auto simp: less_Suc_eq_0_disj)
      then show ?thesis using yes calculation by (intro disjI2 exI [of _ "Suc k"]) simp
    qed
  qed
qed simp

text \<open>In the order of iteration a node comes after its ancestors.\<close>

lemma above_forest: "wf_forest anc num ts \<Longrightarrow> x \<in> set (forest ts) \<Longrightarrow> \<exists>t\<in>set ts. x = t \<or> anc (n_hash t) (n_hash x)"
  using below_node by (fastforce simp: forest_set [of ts] hashes_def wf_forest_def)

lemma branches: "a = x \<or> anc a x \<Longrightarrow> b = x \<or> anc b x \<Longrightarrow> a = b \<or> anc a b \<or> anc b a"
  using anc_linear [of a x b] by auto

lemma onto: "a = x \<or> anc a x \<Longrightarrow> anc x y \<Longrightarrow> a = y \<or> anc a y"
  using anc_trans [of a x y] by auto

lemma apart:
  assumes "wf_forest anc num (t # ts)" "x \<in> set (nodes t)" "y \<in> set (forest ts)"
  shows "n_hash x \<noteq> n_hash y" "\<not> anc (n_hash x) (n_hash y)" "\<not> anc (n_hash y) (n_hash x)"
proof -
  have x: "x = t \<or> anc (n_hash t) (n_hash x)"
    using assms(1,2) below_node [of t "n_hash x"] by (auto simp: nodes_eq hashes_def wf_forest_Cons)
  obtain s where s: "s \<in> set ts" "y = s \<or> anc (n_hash s) (n_hash y)"
    using above_forest [of ts y] assms(1,3) by (auto simp: wf_forest_Cons)
  have ts: "n_hash s \<noteq> n_hash t" "\<not> anc (n_hash s) (n_hash t)" "\<not> anc (n_hash t) (n_hash s)"
    using assms(1) s(1) by (auto simp: wf_forest_Cons)
  have no: False if "n_hash t = z \<or> anc (n_hash t) z" "n_hash s = z \<or> anc (n_hash s) z" for z
    using branches [OF that] ts by auto
  have x': "n_hash t = n_hash x \<or> anc (n_hash t) (n_hash x)" and y': "n_hash s = n_hash y \<or> anc (n_hash s) (n_hash y)"
    using x s(2) by auto
  show "n_hash x \<noteq> n_hash y" using no x' y' by metis
  show "\<not> anc (n_hash x) (n_hash y)" using no [OF onto [OF x'] y'] by blast
  show "\<not> anc (n_hash y) (n_hash x)" using no [OF x' onto [OF y']] by blast
qed

lemma preorder:
  assumes "wf_forest anc num ts"
  shows "sorted_wrt (\<lambda>x y. n_hash x \<noteq> n_hash y \<and> \<not> anc (n_hash y) (n_hash x)) (forest ts)"
  using assms
proof (induction ts rule: forest_induct)
  case (2 t ts)
  have t: "wf_node anc num t" "wf_forest anc num (n_children t)" "wf_forest anc num ts"
    using 2(3) by (simp_all add: wf_forest_Cons wf_node_eq)
  have "n_hash t \<noteq> n_hash y \<and> \<not> anc (n_hash y) (n_hash t)" if "y \<in> set (forest (n_children t))" for y
    using below_node [OF t(1), of "n_hash y"] that anc_asym anc_neq by (auto simp: hashes_def)
  then show ?case
    using 2(1,2) t(2,3) apart [OF 2(3)] by (auto simp: sorted_wrt_append nodes_eq)
qed simp

end

context ancestry
begin

lemma mirror:
  assumes "wf_forest anc num ts" "x \<in> set (forest ts)" "y \<in> set (forest ts)"
  shows "y \<in> set (forest (n_children x)) \<longleftrightarrow> anc (n_hash x) (n_hash y)"
  using assms
proof (induction ts arbitrary: x y rule: forest_induct)
  case (2 t ts)
  have t: "wf_node anc num t" "wf_forest anc num (n_children t)" "wf_forest anc num ts"
    using 2(3) by (simp_all add: wf_forest_Cons wf_node_eq)
  have down: "anc (n_hash t) (n_hash z)" if "z \<in> set (forest (n_children t))" for z
    using below_node [OF t(1)] that by (simp add: hashes_def)
  consider (top) "x = t" "y = t" | (child) "x = t" "y \<in> set (forest (n_children t))"
    | (up) "x \<in> set (forest (n_children t))" "y = t"
    | (both) "x \<in> set (forest (n_children t))" "y \<in> set (forest (n_children t))"
    | (left) "x \<in> set (nodes t)" "y \<in> set (forest ts)" | (right) "x \<in> set (forest ts)" "y \<in> set (nodes t)"
    | (rest) "x \<in> set (forest ts)" "y \<in> set (forest ts)"
    using 2(4,5) by (auto simp: nodes_eq)
  then show ?case
  proof cases
    case top
    then show ?thesis using down [of t] anc_irrefl by auto
  next
    case child
    then show ?thesis using down by simp
  next
    case up
    then show ?thesis using down [of t] down [of x] forest_below [OF up(1)] anc_asym anc_irrefl by blast
  next
    case left
    then show ?thesis using apart [OF 2(3) left] apart(1) [OF 2(3) _ left(2), of y] forest_below [of x "[t]"] by (auto simp: nodes_eq)
  next
    case right
    then show ?thesis using apart [OF 2(3) right(2,1)] apart(1) [OF 2(3) right(2), of y] forest_below [of x ts] by auto
  qed (use 2 t in auto)
qed simp

lemma retained_items:
  assumes "\<forall>t\<in>set ts. wf_node anc num t \<and> n_hash t \<noteq> hash \<and> \<not> anc (n_hash t) hash"
  shows "items (filter (\<lambda>t. anc hash (n_hash t)) ts) = surviving anc hash (items ts)"
  using assms
proof (induction ts)
  case (Cons t ts)
  then have t: "wf_node anc num t" "n_hash t \<noteq> hash" "\<not> anc (n_hash t) hash" by auto
  show ?case
  proof (cases "anc hash (n_hash t)")
    case True
    then show ?thesis
      using Cons surviving_all [of "n_children t" anc hash] all_below [OF t(1), of hash] by simp
  next
    case False
    then show ?thesis
      using Cons surviving_none [of "n_children t" anc hash] none_below [OF t(1,2) False t(3)] by simp
  qed
qed simp

lemma root_above:
  assumes "wf_forest anc num ts"
  shows "(\<exists>x\<in>hashes ts. anc x hash) \<longleftrightarrow> (\<exists>t\<in>set ts. anc (n_hash t) hash)"
proof
  assume "\<exists>x\<in>hashes ts. anc x hash"
  then obtain x where x: "x \<in> set (forest ts)" "anc (n_hash x) hash" by (auto simp: hashes_def)
  obtain t where "t \<in> set ts" "x = t \<or> anc (n_hash t) (n_hash x)" using above_forest [OF assms x(1)] by blast
  then show "\<exists>t\<in>set ts. anc (n_hash t) hash" using x(2) anc_trans [of "n_hash t" "n_hash x" hash] by auto
qed (auto simp: hashes_alt [of ts])

lemma finalize_finalized:
  fixes isd :: "'h \<Rightarrow> 'h \<Rightarrow> (bool, 'e) result"
  assumes isd: "\<And>a b. isd a b = Ok (anc a b)" and wf: "wf_forest anc num (roots t)"
    and "\<not> reverts t (num hash)"
  shows "if \<exists>x\<in>hashes (roots t). anc x hash then finalize t hash (num hash) isd = (Err UnfinalizedAncestor, t)
    else finalized anc num hash t (finalize t hash (num hash) isd)"
proof (cases "finalize_root hash t")
  case None
  then have no: "\<forall>x\<in>set (roots t). n_hash x \<noteq> hash"
    using position_None [of "\<lambda>node. n_hash node = hash" "roots t"] by (auto simp: finalize_root_def)
  have wf': "\<forall>x\<in>set (roots t). wf_node anc num x" using wf by (simp add: wf_forest_def)
  show ?thesis
  proof (cases "\<exists>x\<in>set (roots t). anc (n_hash x) hash")
    case True
    then show ?thesis
      using None assms(3) no_root_below_eq [OF isd wf', of hash] root_above [OF wf, of hash]
      by (simp add: finalize_def)
  next
    case False
    have num: "n_number x > num hash \<and> anc hash (n_hash x) \<longleftrightarrow> anc hash (n_hash x)" if "x \<in> set (roots t)" for x
      using wf' that anc_num [of hash "n_hash x"] by (auto simp: wf_node_eq)
    have nr: "no_root_below (roots t) hash (num hash) isd = Ok ()"
      using no_root_below_eq [OF isd wf', of hash] False by simp
    let ?ts = "filter (\<lambda>x. anc hash (n_hash x)) (roots t)"
    have f: "finalize t hash (num hash) isd = (Ok (finalization (\<exists>x\<in>set (roots t). \<not> anc hash (n_hash x))),
        t\<lparr>roots := ?ts, best_finalized_number := Some (num hash)\<rparr>)"
      by (simp add: finalize_def None assms(3) nr retain_def isd num cong: filter_cong)
    have "hash \<notin> hashes (roots t)" using not_below [OF wf, of hash] no False by auto
    moreover have "items ?ts = surviving anc hash (items (roots t))"
      using retained_items [of "roots t" hash] wf' no False by simp
    moreover have "surviving anc hash (items (roots t)) = items (roots t) \<longleftrightarrow> (\<forall>x\<in>set (roots t). anc hash (n_hash x))"
      using items_filter [of "\<lambda>x. anc hash (n_hash x)" "roots t"] calculation(2) by simp
    ultimately show ?thesis
      using f False root_above [OF wf, of hash] wf_forest_filter [OF wf]
      by (simp add: finalized_def finalization_def)
  qed
next
  case (Some a)
  obtain i where i: "position (\<lambda>node. n_hash node = hash) (roots t) = Some i" using Some by (auto simp: finalize_root_def)
  have x: "roots t ! i \<in> set (roots t)" "n_hash (roots t ! i) = hash" using position_Some [OF i] by auto
  have "\<not> (\<exists>x\<in>set (roots t). anc (n_hash x) hash)"
    using wf x by (auto simp: wf_forest_def separate_def)
  then show ?thesis
    using finalize_root_finalized [OF wf] assms(3) Some root_above [OF wf, of hash] by (cases a) (simp add: finalize_def)
qed

lemma kept_items:
  assumes "\<forall>t\<in>set ts. wf_node anc num t \<and> \<not> anc (n_hash t) hash"
  shows "items (filter (\<lambda>t. n_hash t = hash \<or> anc hash (n_hash t)) ts) =
    filter_mset (\<lambda>y. fst y = hash \<or> anc hash (fst y)) (items ts)"
  using assms
proof (induction ts)
  case (Cons t ts)
  then have t: "wf_node anc num t" "\<not> anc (n_hash t) hash" by auto
  have all: "filter_mset (\<lambda>y. fst y = hash \<or> anc hash (fst y)) (items (n_children t)) = items (n_children t)"
    if "n_hash t = hash \<or> anc hash (n_hash t)"
    using all_below [OF t(1) that] by (simp add: filter_mset_eq_conv hashes_items)
  have none: "filter_mset (\<lambda>y. fst y = hash \<or> anc hash (fst y)) (items (n_children t)) = {#}"
    if "\<not> (n_hash t = hash \<or> anc hash (n_hash t))"
    using none_below [OF t(1) _ _ t(2)] that by (simp add: filter_mset_eq_conv hashes_items)
  have IH: "items (filter (\<lambda>t. n_hash t = hash \<or> anc hash (n_hash t)) ts) =
      filter_mset (\<lambda>y. fst y = hash \<or> anc hash (fst y)) (items ts)"
    using Cons by simp
  show ?case
  proof (cases "n_hash t = hash \<or> anc hash (n_hash t)")
    case True
    then show ?thesis by (simp add: IH all [OF True])
  next
    case False
    then show ?thesis by (simp add: IH none [OF False])
  qed
qed simp

lemma only_branch:
  assumes wf: "wf_forest anc num (x # ts)" and x: "n_hash x = hash \<or> anc (n_hash x) hash"
  shows "filter_mset (\<lambda>y. fst y \<noteq> n_hash x \<and> (fst y = hash \<or> anc hash (fst y))) (items (x # ts)) =
    filter_mset (\<lambda>y. fst y = hash \<or> anc hash (fst y)) (items (n_children x))"
proof -
  have xw: "wf_node anc num x" using wf by (simp add: wf_forest_Cons)
  have other: "\<not> (h = hash \<or> anc hash h)" if h: "h \<in> hashes ts" for h
  proof -
    obtain y where y: "y \<in> set (forest ts)" "h = n_hash y" using h by (auto simp: hashes_def)
    have "n_hash x \<noteq> n_hash y" "\<not> anc (n_hash x) (n_hash y)"
      using apart [OF wf _ y(1), of x] by (simp_all add: nodes_eq)
    then show ?thesis using x onto [OF x, of h] y(2) by auto
  qed
  have self: "n_hash x \<notin> hashes (n_children x)" using below_node [OF xw] anc_irrefl by blast
  let ?P = "\<lambda>y. fst y \<noteq> n_hash x \<and> (fst y = hash \<or> anc hash (fst y))"
  have "filter_mset ?P (items ts) = {#}"
    using other by (simp add: hashes_items filter_mset_eq_conv)
  moreover have "filter_mset ?P (items (n_children x)) =
      filter_mset (\<lambda>y. fst y = hash \<or> anc hash (fst y)) (items (n_children x))"
    using self by (intro filter_mset_cong0) (auto simp: hashes_items image_iff)
  ultimately show ?thesis by simp
qed

end

text \<open>The topmost node enacted by a block.\<close>

definition topmost ::
  "('h \<Rightarrow> 'h \<Rightarrow> bool) \<Rightarrow> 'h \<Rightarrow> ('v \<Rightarrow> bool) \<Rightarrow> ('h, 'n, 'v) Node list \<Rightarrow> ('h, 'n, 'v) Node \<Rightarrow> bool" where
  "topmost anc hash p ts x \<longleftrightarrow> x \<in> set (forest ts) \<and> enacted_by anc hash p x \<and>
     (\<forall>y\<in>set (forest ts). enacted_by anc hash p y \<longrightarrow> y = x \<or> anc (n_hash x) (n_hash y))"

text \<open>The answer of \<open>finalizes_any_with_descendent_if\<close>.\<close>

definition answers ::
  "('h \<Rightarrow> 'h \<Rightarrow> bool) \<Rightarrow> 'h \<Rightarrow> ('v \<Rightarrow> bool) \<Rightarrow> ('h, 'n, 'v) Node list \<Rightarrow>
   (bool option, 'e ForkTreeError) result \<Rightarrow> bool" where
  "answers anc hash p ts r \<longleftrightarrow>
     (case r of
        Inl e \<Rightarrow> e = UnfinalizedAncestor \<and>
          (\<exists>x. topmost anc hash p ts x \<and> (\<exists>c\<in>set (n_children x). anc (n_hash c) hash))
      | Inr None \<Rightarrow> \<forall>x\<in>set (forest ts). \<not> enacted_by anc hash p x
      | Inr (Some is_root) \<Rightarrow>
          \<exists>x. topmost anc hash p ts x \<and> (\<forall>c\<in>set (n_children x). \<not> anc (n_hash c) hash) \<and>
            (is_root \<longleftrightarrow> x \<in> set ts))"

text \<open>The outcome of \<open>finalize_with_descendent_if\<close> when it does not revert.\<close>

definition enacts ::
  "('h \<Rightarrow> 'h \<Rightarrow> bool) \<Rightarrow> ('h \<Rightarrow> 'n) \<Rightarrow> 'h \<Rightarrow> ('v \<Rightarrow> bool) \<Rightarrow> ('h, 'n, 'v) ForkTree \<Rightarrow>
   ('v FinalizationResult, 'e ForkTreeError) result \<times> ('h, 'n, 'v) ForkTree \<Rightarrow> bool" where
  "enacts anc num hash p t r \<longleftrightarrow>
     (case fst r of
        Inl e \<Rightarrow> e = UnfinalizedAncestor \<and> snd r = t \<and>
          (\<exists>x\<in>set (roots t). enacted_by anc hash p x \<and> (\<exists>c\<in>set (n_children x). anc (n_hash c) hash))
      | Inr res \<Rightarrow>
          wf_forest anc num (roots (snd r)) \<and> best_finalized_number (snd r) = Some (num hash) \<and>
          (case res of
             Changed (Some data) \<Rightarrow>
               \<exists>x\<in>set (roots t). enacted_by anc hash p x \<and> n_data x = data \<and>
                 (\<forall>c\<in>set (n_children x). \<not> anc (n_hash c) hash) \<and>
                 items (roots (snd r)) =
                   filter_mset (\<lambda>y. fst y \<noteq> n_hash x \<and> (fst y = hash \<or> anc hash (fst y))) (items (roots t))
           | _ \<Rightarrow>
               (\<forall>x\<in>set (roots t). \<not> enacted_by anc hash p x) \<and>
               roots (snd r) = filter (\<lambda>x. n_hash x = hash \<or> anc hash (n_hash x) \<or> anc (n_hash x) hash) (roots t) \<and>
               (res = Unchanged \<longleftrightarrow> roots (snd r) = roots t)))"

context ancestry
begin

lemma wf_forest_nodes: "wf_forest anc num ts \<Longrightarrow> x \<in> set (forest ts) \<Longrightarrow> wf_node anc num x"
  by (induction ts rule: forest_induct) (auto simp: wf_forest_Cons wf_node_eq)

lemma first_topmost:
  assumes "wf_forest anc num ts" "k < length (forest ts)" "enacted_by anc hash p (forest ts ! k)"
    and "\<forall>j<k. \<not> enacted_by anc hash p (forest ts ! j)"
  shows "topmost anc hash p ts (forest ts ! k)"
proof -
  let ?xs = "forest ts"
  have "y = ?xs ! k \<or> anc (n_hash (?xs ! k)) (n_hash y)" if y: "y \<in> set ?xs" "enacted_by anc hash p y" for y
  proof -
    obtain j where j: "j < length ?xs" "y = ?xs ! j" using y(1) by (auto simp: in_set_conv_nth)
    have "k \<le> j" using assms(4) j(2) y(2) by (meson not_less)
    show ?thesis
    proof (cases "j = k")
      case False
      then have "n_hash (?xs ! k) \<noteq> n_hash y" "\<not> anc (n_hash y) (n_hash (?xs ! k))"
        using sorted_wrt_nth_less [OF preorder [OF assms(1)], of k j] \<open>k \<le> j\<close> j by auto
      then show ?thesis
        using branches [of "n_hash (?xs ! k)" hash "n_hash y"] assms(3) y(2) by (auto simp: enacted_by_def)
    qed (use j in simp)
  qed
  then show ?thesis using assms(2,3) by (simp add: topmost_def)
qed

lemma same_node:
  assumes "wf_forest anc num ts" "x \<in> set (forest ts)" "y \<in> set (forest ts)" "n_hash x = n_hash y"
  shows "x = y"
proof -
  obtain i j where "i < length (forest ts)" "j < length (forest ts)" "x = forest ts ! i" "y = forest ts ! j"
    using assms(2,3) by (metis in_set_conv_nth)
  then show ?thesis
    using sorted_wrt_nth_less [OF preorder [OF assms(1)], of i j] sorted_wrt_nth_less [OF preorder [OF assms(1)], of j i]
      assms(4) by (metis linorder_neqE_nat)
qed

lemma finalizes_any_answers:
  fixes isd :: "'h \<Rightarrow> 'h \<Rightarrow> (bool, 'e) result"
  assumes isd: "\<And>a b. isd a b = Ok (anc a b)" and wf: "wf_forest anc num (roots t)"
    and "\<not> reverts t (num hash)"
  shows "answers anc hash p (roots t) (finalizes_any_with_descendent_if t hash (num hash) isd p)"
proof -
  have wfr: "wf_forest anc num (rev (roots t))" using wf_forest_mset [of "rev (roots t)" "roots t"] wf by simp
  have sets: "set (forest (rev (roots t))) = set (forest (roots t))" by (auto simp: forest_set [of "rev _"] forest_set [of "roots t"])
  let ?xs = "forest (rev (roots t))"
  have it: "node_iter t = ?xs" by (simp add: node_iter_def iterate_forest)
  have nodes: "\<forall>x\<in>set ?xs. wf_node anc num x" using wf_forest_nodes [OF wfr] by blast
  from first_finalized_eq [OF isd nodes, of hash p 0] consider
    (no) "\<forall>x\<in>set ?xs. \<not> enacted_by anc hash p x" "first_finalized 0 ?xs hash (num hash) isd p = Ok None"
  | (yes) k where "k < length ?xs" "enacted_by anc hash p (?xs ! k)" "\<forall>j<k. \<not> enacted_by anc hash p (?xs ! j)"
      "first_finalized 0 ?xs hash (num hash) isd p =
         (if \<exists>c\<in>set (n_children (?xs ! k)). anc (n_hash c) hash then Err UnfinalizedAncestor
          else Ok (Some (k, ?xs ! k)))"
    by auto
  then show ?thesis
  proof cases
    case no
    then show ?thesis
      using assms(3) it sets by (simp add: answers_def finalizes_any_with_descendent_if_def)
  next
    case yes
    let ?x = "?xs ! k"
    have top: "topmost anc hash p (roots t) ?x"
      using first_topmost [OF wfr yes(1-3)] sets by (simp add: topmost_def)
    have "(\<exists>root\<in>set (roots t). n_hash root = n_hash ?x) \<longleftrightarrow> ?x \<in> set (roots t)"
      using same_node [OF wf] top by (auto simp: topmost_def forest_set [of "roots t"])
    then show ?thesis
      using yes(4) top assms(3) it by (auto simp: answers_def finalizes_any_with_descendent_if_def)
  qed
qed

lemma retained_root:
  fixes isd :: "'h \<Rightarrow> 'h \<Rightarrow> (bool, 'e) result"
  assumes isd: "\<And>a b. isd a b = Ok (anc a b)" and "wf_node anc num x"
  shows "n_number x > num hash \<and> unwrap_or (isd hash (n_hash x)) False \<or> n_number x = num hash \<and> n_hash x = hash \<or>
      unwrap_or (isd (n_hash x) hash) False \<longleftrightarrow>
    n_hash x = hash \<or> anc hash (n_hash x) \<or> anc (n_hash x) hash"
  using assms(2) anc_num [of hash "n_hash x"] by (auto simp: isd wf_node_eq)

lemma enacts_root:
  assumes wf: "wf_forest anc num (roots t)" and i: "i < length (roots t)"
    and e: "enacted_by anc hash p (roots t ! i)" "\<forall>c\<in>set (n_children (roots t ! i)). \<not> anc (n_hash c) hash"
  shows "enacts anc num hash p t (Ok (Changed (Some (n_data (roots t ! i)))),
    t\<lparr>roots := filter (\<lambda>c. n_hash c = hash \<or> anc hash (n_hash c) \<or> anc (n_hash c) hash) (n_children (roots t ! i)),
      best_finalized_number := Some (num hash)\<rparr>)"
proof -
  let ?x = "roots t ! i" and ?rest = "snd (swap_remove (roots t) i)"
  have wf': "wf_forest anc num (?x # ?rest)" using swap_remove_wf [OF i] wf by blast
  then have x: "wf_forest anc num (n_children ?x)" by (simp add: wf_forest_Cons wf_node_eq)
  have "filter (\<lambda>c. n_hash c = hash \<or> anc hash (n_hash c) \<or> anc (n_hash c) hash) (n_children ?x) =
      filter (\<lambda>c. n_hash c = hash \<or> anc hash (n_hash c)) (n_children ?x)"
    using e(2) by (auto intro: filter_cong)
  moreover have "items (filter (\<lambda>c. n_hash c = hash \<or> anc hash (n_hash c)) (n_children ?x)) =
      filter_mset (\<lambda>y. fst y = hash \<or> anc hash (fst y)) (items (n_children ?x))"
    using kept_items [of "n_children ?x" hash] e(2) x by (simp add: wf_forest_def)
  moreover have "\<dots> = filter_mset (\<lambda>y. fst y \<noteq> n_hash ?x \<and> (fst y = hash \<or> anc hash (fst y))) (items (?x # ?rest))"
    using only_branch [OF wf', of hash] e(1) by (simp add: enacted_by_def)
  moreover have "items (?x # ?rest) = items (roots t)" using swap_remove_items [OF i] by simp
  ultimately have it: "items (filter (\<lambda>c. n_hash c = hash \<or> anc hash (n_hash c) \<or> anc (n_hash c) hash) (n_children ?x)) =
      filter_mset (\<lambda>y. fst y \<noteq> n_hash ?x \<and> (fst y = hash \<or> anc hash (fst y))) (items (roots t))"
    by metis
  show ?thesis
    unfolding enacts_def using e it wf_forest_filter [OF x] nth_mem [OF i] by (auto intro!: bexI [of _ ?x])
qed

lemma finalize_with_descendent_if_enacts:
  fixes isd :: "'h \<Rightarrow> 'h \<Rightarrow> (bool, 'e) result"
  assumes isd: "\<And>a b. isd a b = Ok (anc a b)" and wf: "wf_forest anc num (roots t)"
    and rev: "\<not> reverts t (num hash)"
  shows "enacts anc num hash p t (finalize_with_descendent_if t hash (num hash) isd p)"
proof -
  let ?Q = "\<lambda>x. n_hash x = hash \<or> anc hash (n_hash x) \<or> anc (n_hash x) hash"
  have nodes: "\<forall>x\<in>set (roots t). wf_node anc num x" using wf by (simp add: wf_forest_def)
  have ret: "retain (\<lambda>root. n_number root > num hash \<and> unwrap_or (isd hash (n_hash root)) False \<or>
        n_number root = num hash \<and> n_hash root = hash \<or> unwrap_or (isd (n_hash root) hash) False) ts =
      (filter ?Q ts, \<exists>x\<in>set ts. \<not> ?Q x)" if "\<forall>x\<in>set ts. wf_node anc num x" for ts :: "('h, 'n, 'c) Node list"
    using that retained_root [OF isd] by (auto simp: retain_def intro: filter_cong)
  from first_finalized_eq [OF isd nodes, of hash p 0] consider
    (no) "\<forall>x\<in>set (roots t). \<not> enacted_by anc hash p x" "first_finalized 0 (roots t) hash (num hash) isd p = Ok None"
  | (stop) k where "k < length (roots t)" "enacted_by anc hash p (roots t ! k)"
      "\<exists>c\<in>set (n_children (roots t ! k)). anc (n_hash c) hash"
      "first_finalized 0 (roots t) hash (num hash) isd p = Err UnfinalizedAncestor"
  | (yes) k where "k < length (roots t)" "enacted_by anc hash p (roots t ! k)"
      "\<forall>c\<in>set (n_children (roots t ! k)). \<not> anc (n_hash c) hash"
      "first_finalized 0 (roots t) hash (num hash) isd p = Ok (Some (k, roots t ! k))"
    by (auto split: if_splits)
  then show ?thesis
  proof cases
    case no
    have "filter ?Q (roots t) = roots t \<longleftrightarrow> (\<forall>x\<in>set (roots t). ?Q x)" by (simp add: filter_id_conv)
    then show ?thesis
      using no(1) wf_forest_filter [OF wf]
      by (auto simp: finalize_with_descendent_if_def rev no(2) ret [OF nodes] enacts_def finalization_def)
  next
    case stop
    then show ?thesis
      using nth_mem [OF stop(1)] by (auto simp: finalize_with_descendent_if_def rev enacts_def)
  next
    case yes
    have "\<forall>x\<in>set (n_children (roots t ! k)). wf_node anc num x"
      using nodes yes(1) by (metis nth_mem wf_forest_def wf_node_eq)
    then have "finalize_with_descendent_if t hash (num hash) isd p = (Ok (Changed (Some (n_data (roots t ! k)))),
        t\<lparr>roots := filter ?Q (n_children (roots t ! k)), best_finalized_number := Some (num hash)\<rparr>)"
      by (simp add: finalize_with_descendent_if_def rev yes(4) ret swap_remove_def)
    then show ?thesis using enacts_root [OF wf yes(1-3)] by simp
  qed
qed

end

context ancestry
begin

lemma distinct_forest: "wf_forest anc num ts \<Longrightarrow> distinct (forest ts)"
proof -
  assume "wf_forest anc num ts"
  then have "sorted_wrt (\<noteq>) (forest ts)" by (intro sorted_wrt_mono_rel [OF _ preorder]) auto
  moreover have "sorted_wrt (\<noteq>) xs \<Longrightarrow> distinct xs" for xs :: "('h, 'n, 'c) Node list" by (induction xs) auto
  ultimately show ?thesis by blast
qed

lemma subtree_items:
  assumes "wf_forest anc num ts" "c \<in> set (forest ts)"
  shows "filter_mset (\<lambda>y. fst y = n_hash c \<or> anc (n_hash c) (fst y)) (items ts) = items [c]"
proof -
  let ?P = "\<lambda>x. n_hash x = n_hash c \<or> anc (n_hash c) (n_hash x)"
  have "wf_forest anc num [c]" using wf_forest_nodes [OF assms] by (simp add: wf_forest_Cons wf_forest_Nil)
  then have d: "distinct (forest [c])" "distinct (filter ?P (forest ts))"
    by (rule distinct_forest) (rule distinct_filter [OF distinct_forest [OF assms(1)]])
  have "set (filter ?P (forest ts)) = set (forest [c])"
    using assms(2) forest_below [OF assms(2)] mirror [OF assms] same_node [OF assms(1) _ assms(2)] by auto
  then have "mset (filter ?P (forest ts)) = mset (forest [c])"
    using set_eq_iff_mset_eq_distinct [OF d(2,1)] by blast
  then have "image_mset item (filter_mset ?P (mset (forest ts))) = items [c]"
    by (simp only: mset_filter items_def)
  then show ?thesis by (simp add: items_def filter_mset_image_mset comp_def)
qed

lemma one_child:
  assumes "wf_forest anc num cs"
  shows "take 1 (filter (\<lambda>c. n_hash c = hash \<or> anc (n_hash c) hash) cs) =
    filter (\<lambda>c. n_hash c = hash \<or> anc (n_hash c) hash) cs"
  using assms
proof (induction cs)
  case (Cons c cs)
  show ?case
  proof (cases "n_hash c = hash \<or> anc (n_hash c) hash")
    case True
    then have "filter (\<lambda>c. n_hash c = hash \<or> anc (n_hash c) hash) cs = []"
      using one_branch [OF Cons.prems True] by (simp add: filter_empty_conv)
    then show ?thesis by simp
  qed (use Cons in \<open>simp add: wf_forest_Cons\<close>)
qed simp

lemma keep_branch_items:
  fixes isd :: "'h \<Rightarrow> 'h \<Rightarrow> (bool, 'e) result" and hash :: 'h
  assumes isd: "\<And>a b. isd a b = Ok (anc a b)" and wf: "wf_forest anc num ts" and x: "x \<in> set (forest ts)"
  defines "x' \<equiv> keep_branch hash (num hash) isd x"
  shows "wf_forest anc num [x']"
    and "items [x'] = add_mset (item x) (filter_mset (\<lambda>y. \<exists>c\<in>set (n_children x).
      (n_hash c = hash \<or> anc (n_hash c) hash) \<and> (fst y = n_hash c \<or> anc (n_hash c) (fst y))) (items ts))"
proof -
  let ?K = "\<lambda>c. n_hash c = hash \<or> anc (n_hash c) hash"
  have xw: "wf_node anc num x" using wf_forest_nodes [OF wf x] .
  then have cs: "wf_forest anc num (n_children x)" by (simp add: wf_node_eq)
  have K: "n_number c = num hash \<and> n_hash c = hash \<or> n_number c < num hash \<and> unwrap_or (isd (n_hash c) hash) False \<longleftrightarrow> ?K c"
    if "c \<in> set (n_children x)" for c
  proof -
    have "wf_node anc num c" using cs that by (simp add: wf_forest_def)
    then show ?thesis using anc_num [of "n_hash c" hash] by (auto simp: isd wf_node_eq)
  qed
  have x': "x' = Node (n_hash x) (n_number x) (n_data x) (filter ?K (n_children x))"
    using one_child [OF cs, of hash] K by (simp add: x'_def keep_branch_def cong: filter_cong)
  show "wf_forest anc num [x']"
    using xw wf_forest_filter [OF cs] by (simp add: x' wf_forest_Cons wf_forest_Nil wf_node_eq)
  have "items (filter ?K (n_children x)) = filter_mset (\<lambda>y. \<exists>c\<in>set (filter ?K (n_children x)).
      fst y = n_hash c \<or> anc (n_hash c) (fst y)) (items ts)"
  proof (cases "filter ?K (n_children x)")
    case (Cons c rest)
    then have "rest = []" using one_child [OF cs, of hash] by (cases rest) auto
    moreover have "c \<in> set (n_children x)" using Cons by (metis filter_is_subset list.set_intros(1) subsetD)
    then have "c \<in> set (forest ts)" using forest_below [OF x] by (auto simp: forest_set [of "n_children x"])
    ultimately show ?thesis using subtree_items [OF wf] Cons by simp
  qed simp
  then show "items [x'] = add_mset (item x) (filter_mset (\<lambda>y. \<exists>c\<in>set (n_children x).
      ?K c \<and> (fst y = n_hash c \<or> anc (n_hash c) (fst y))) (items ts))"
    by (simp add: x' item_def Bex_def conj_assoc)
qed

end

section \<open>The effect of import and pruning\<close>

context ancestry
begin

lemma import_effect:
  fixes isd :: "'h \<Rightarrow> 'h \<Rightarrow> (bool, 'e) result"
  assumes isd: "\<And>a b. isd a b = Ok (anc a b)" and wf: "wf_forest anc num (roots t)"
    and "\<And>x. x \<in> hashes (roots t) \<Longrightarrow> \<not> anc hash x"
  shows "\<exists>r t'. import t hash (num hash) data isd = (r, t') \<and> wf_forest anc num (roots t') \<and>
    best_finalized_number t' = best_finalized_number t \<and>
    (if reverts t (num hash) then r = Err Revert \<and> t' = t
     else if hash \<in> hashes (roots t) then r = Err Duplicate \<and> t' = t
     else r = Ok (\<forall>x\<in>hashes (roots t). \<not> anc x hash) \<and>
       items (roots t') = add_mset (hash, num hash, data) (items (roots t)))"
proof -
  obtain r ts where r: "import_roots (roots t) hash (num hash) data isd = (r, ts)" by fastforce
  have imp: "imported anc num hash data (roots t) (r, ts)"
    using import_roots_imported [OF isd wf, of hash data] assms(3) r by simp
  note above = root_above [OF wf, of hash]
  consider (rev) "reverts t (num hash)" | (dup) "\<not> reverts t (num hash)" "hash \<in> hashes (roots t)"
    | (child) "\<not> reverts t (num hash)" "hash \<notin> hashes (roots t)" "\<exists>x\<in>set (roots t). anc (n_hash x) hash"
    | (root) "\<not> reverts t (num hash)" "hash \<notin> hashes (roots t)" "\<not> (\<exists>x\<in>set (roots t). anc (n_hash x) hash)"
    by blast
  then show ?thesis
  proof cases
    case rev
    then show ?thesis using wf by (simp add: import_def)
  next
    case dup
    then show ?thesis using imp r wf by (simp add: import_def imported_def)
  next
    case child
    then show ?thesis using imp r above by (auto simp: import_def imported_def)
  next
    case root
    let ?ts = "roots t @ [Node hash (num hash) data []]"
    have "wf_forest anc num ?ts"
      using wf assms(3) root(2,3)
      by (auto simp: wf_forest_simps separate_def hashes_alt [of "roots t"])
    then have "wf_forest anc num (roots (rebalance (t\<lparr>roots := ?ts\<rparr>)))"
      by (simp add: rebalance_def wf_rebalance_all)
    moreover have "items (roots (rebalance (t\<lparr>roots := ?ts\<rparr>))) = items ?ts"
      using items_mset [of "by_depth ?ts" ?ts] by (simp add: rebalance_def items_rebalance_all)
    ultimately show ?thesis
      using root imp r above by (auto simp: import_def imported_def rebalance_def)
  qed
qed

lemma prune_effect:
  fixes isd :: "'h \<Rightarrow> 'h \<Rightarrow> (bool, 'e) result"
  assumes isd: "\<And>a b. isd a b = Ok (anc a b)" and wf: "wf_forest anc num (roots t)"
  shows "\<exists>t'. prune t hash (num hash) isd p = Some (Ok (), t') \<and> wf_forest anc num (roots t') \<and>
    best_finalized_number t' = best_finalized_number t \<and>
    (if \<exists>x\<in>set (forest (roots t)). candidate anc hash p x
     then \<exists>x. deepest anc hash p (forest (roots t)) x \<and>
       items (roots t') = add_mset (item x) (filter_mset (\<lambda>y. \<exists>c\<in>set (n_children x).
         (n_hash c = hash \<or> anc (n_hash c) hash) \<and> (fst y = n_hash c \<or> anc (n_hash c) (fst y))) (items (roots t)))
     else items (roots t') = items (roots t))"
  using find_in_roots_deepest [OF isd wf, of hash p]
proof (elim disjE exE conjE)
  fix x assume x: "find_in_roots (roots t) hash (num hash) isd p = Some (Ok (Some x))"
    "deepest anc hash p (forest (roots t)) x"
  then have "x \<in> set (forest (roots t))" "\<exists>x\<in>set (forest (roots t)). candidate anc hash p x"
    by (auto simp: deepest_def)
  note keep = keep_branch_items [OF isd wf this(1), of hash] this(2)
  let ?x = "keep_branch hash (num hash) isd x"
  have "items (map node_rebalance (by_depth [?x])) = items [?x]"
    using items_mset [of "by_depth [?x]" "[?x]"] by (simp only: items_rebalance_all mset_by_depth)
  then show ?thesis
    using x keep by (auto simp: prune_def find_node_where_def rebalance_def wf_rebalance_all)
next
  assume "find_in_roots (roots t) hash (num hash) isd p = Some (Ok None)"
    "\<forall>x\<in>set (forest (roots t)). \<not> candidate anc hash p x"
  then show ?thesis
    using wf items_mset [of "by_depth (roots t)" "roots t"]
    by (auto simp: prune_def find_node_where_def rebalance_def wf_rebalance_all items_rebalance_all)
qed

end

end
