(* ===== verification/Fork_Tree_Props.thy ===== *)
theory Fork_Tree_Props
  imports Fork_Tree_Finality
begin

text \<open>
  The contract of the fork tree: what each operation does to a tree in the order of the chain, when the
  caller's ancestry function answers for an ancestry.
\<close>

text \<open>A tree for the witnesses: hashes are lists, a block descends from its proper prefixes.\<close>

definition prefix_test :: "nat list \<Rightarrow> nat list \<Rightarrow> (bool, unit) result" where
  "prefix_test a b = Ok (strict_prefix a b)"

definition small_tree :: "(nat list, nat, nat) ForkTree" where
  "small_tree = \<lparr>roots = [Node [1] 1 7 [Node [1, 2] 2 8 [], Node [1, 3] 2 9 []], Node [4] 1 5 []],
     best_finalized_number = None\<rparr>"

lemma prefix_ancestry: "ancestry strict_prefix length"
proof unfold_locales
  show "strict_prefix a c \<Longrightarrow> strict_prefix b c \<Longrightarrow> a = b \<or> strict_prefix a b \<or> strict_prefix b a"
    for a b c :: "'a list"
    using prefix_same_cases [of a c b] by (auto simp: strict_prefix_def)
qed (auto simp: prefix_length_less)

lemma prefix_isd: "\<And>a b. prefix_test a b = Ok (strict_prefix a b)"
  by (simp add: prefix_test_def)

lemma small_tree_wf: "wf_forest strict_prefix length (roots small_tree)"
  by (auto simp: small_tree_def wf_forest_def separate_def strict_prefix_def)

lemma small_tree_hashes: "hashes (roots small_tree) = {[1], [1, 2], [1, 3], [4]}"
  by (auto simp: small_tree_def)

lemma small_tree_items:
  "items (roots small_tree) = {#([1], 1, 7), ([1, 2], 2, 8), ([1, 3], 2, 9), ([4], 1, 5)#}"
  by (simp add: small_tree_def)

lemma small_tree_reverts: "\<not> reverts small_tree n"
  by (simp add: reverts_def small_tree_def)

text \<open>
  C22. Importing a block keeps the tree in the order of the chain. The block is refused as a revert at or
  below the best finalized number, and as a duplicate when it is in the tree, both without a change;
  otherwise it is added, exactly once, and the answer tells whether it became a root, that is, whether
  no node of the tree is an ancestor of it. Blocks of a branch have to be imported in order.
\<close>

theorem import_correct:
  assumes "ancestry anc num" "\<And>a b. isd a b = Ok (anc a b)" "wf_forest anc num (roots t)"
    and "\<And>x. x \<in> hashes (roots t) \<Longrightarrow> \<not> anc hash x"
  shows "\<exists>r t'. import t hash (num hash) data isd = (r, t') \<and> wf_forest anc num (roots t') \<and>
    best_finalized_number t' = best_finalized_number t \<and>
    (if reverts t (num hash) then r = Err Revert \<and> t' = t
     else if hash \<in> hashes (roots t) then r = Err Duplicate \<and> t' = t
     else r = Ok (\<forall>x\<in>hashes (roots t). \<not> anc x hash) \<and>
       items (roots t') = add_mset (hash, num hash, data) (items (roots t)))"
  by (rule ancestry.import_effect [OF assms])

theorem import_correct_witness:
  "\<exists>t'. import small_tree [1, 2, 5] (length [1, 2, 5 :: nat]) 6 prefix_test = (Ok False, t') \<and>
     items (roots t') = add_mset ([1, 2, 5], length [1, 2, 5 :: nat], 6) (items (roots small_tree))"
proof -
  have new: "\<not> strict_prefix [1, 2, 5] x" if "x \<in> hashes (roots small_tree)" for x
    using that by (auto simp: small_tree_hashes strict_prefix_def)
  have "\<not> (\<forall>x\<in>hashes (roots small_tree). \<not> strict_prefix x [1, 2, 5])"
    by (auto simp: small_tree_hashes strict_prefix_def)
  then show ?thesis
    using import_correct [OF prefix_ancestry prefix_isd small_tree_wf new, of 6]
    by (auto simp: small_tree_hashes small_tree_reverts)
qed

text \<open>
  C23. The search returns the deepest node that is an ancestor of the block and passes the predicate, and
  nothing if there is no such node; its indices never lead out of the tree.
\<close>

theorem find_node_where_correct:
  assumes "ancestry anc num" "\<And>a b. isd a b = Ok (anc a b)" "wf_forest anc num (roots t)"
  shows "\<exists>r. find_node_where t hash (num hash) isd p = Some (Ok r) \<and>
    (case r of
       Some x \<Rightarrow> deepest anc hash p (forest (roots t)) x
     | None \<Rightarrow> \<forall>x\<in>set (forest (roots t)). \<not> candidate anc hash p x)"
  using ancestry.find_in_roots_deepest [OF assms, of hash p] by (auto simp: find_node_where_def)

theorem find_node_where_correct_witness:
  "\<exists>x. find_node_where small_tree [1, 2, 5] (length [1, 2, 5 :: nat]) prefix_test (\<lambda>d. d = 7) = Some (Ok (Some x)) \<and> n_hash x = [1]"
proof -
  have "\<not> (\<forall>x\<in>set (forest (roots small_tree)). \<not> candidate strict_prefix [1, 2, 5] (\<lambda>d. d = 7) x)"
    by (auto simp: small_tree_def candidate_def strict_prefix_def)
  then show ?thesis
    using find_node_where_correct [OF prefix_ancestry prefix_isd small_tree_wf, of "[1, 2, 5]" "\<lambda>d. d = 7"]
    by (auto simp: deepest_def candidate_def small_tree_def split: option.splits)
qed

text \<open>
  C24. Finalizing a block, with or without its ancestors, leaves exactly its descendants in the tree and
  records its number; a block at or below the best finalized number is refused. Without its ancestors
  it is refused when an ancestor of it is still in the tree, and nothing changes then.
\<close>

theorem finalize_correct:
  assumes "ancestry anc num" "\<And>a b. isd a b = Ok (anc a b)" "wf_forest anc num (roots t)"
  shows "if reverts t (num hash)
    then finalize t hash (num hash) isd = (Err Revert, t) \<and>
      finalize_with_ancestors t hash (num hash) isd = (Err Revert, t)
    else finalized anc num hash t (finalize_with_ancestors t hash (num hash) isd) \<and>
      (if \<exists>x\<in>hashes (roots t). anc x hash
       then finalize t hash (num hash) isd = (Err UnfinalizedAncestor, t)
       else finalized anc num hash t (finalize t hash (num hash) isd))"
proof (cases "reverts t (num hash)")
  case True
  then show ?thesis by (simp add: finalize_def finalize_with_ancestors_def)
next
  case False
  then show ?thesis
    using ancestry.finalize_finalized [OF assms False] ancestry.finalize_with_ancestors_finalized [OF assms False]
    by simp
qed

theorem finalize_correct_witness:
  "finalized strict_prefix length [1, 2] small_tree (finalize_with_ancestors small_tree [1, 2] (length [1, 2 :: nat]) prefix_test) \<and>
   finalize small_tree [1, 2] (length [1, 2 :: nat]) prefix_test = (Err UnfinalizedAncestor, small_tree)"
proof -
  have "\<exists>x\<in>hashes (roots small_tree). strict_prefix x [1, 2]" by (auto simp: small_tree_hashes strict_prefix_def)
  then show ?thesis
    using finalize_correct [OF prefix_ancestry prefix_isd small_tree_wf, of "[1, 2]"] by (simp add: small_tree_reverts)
qed

text \<open>
  C25. Finalizing a block enacts a root only if the root passes the predicate and is the block or an
  ancestor of it, and never past a child of the root that is an ancestor of the block, which is an
  error. The enacted root gives its data and makes room for those of its children that are the block or
  descend from it; if no root is enacted, the roots on the branch of the block stay and the others go.
\<close>

theorem finalize_with_descendent_if_correct:
  assumes "ancestry anc num" "\<And>a b. isd a b = Ok (anc a b)" "wf_forest anc num (roots t)"
  shows "if reverts t (num hash) then finalize_with_descendent_if t hash (num hash) isd p = (Err Revert, t)
    else enacts anc num hash p t (finalize_with_descendent_if t hash (num hash) isd p)"
proof (cases "reverts t (num hash)")
  case True
  then show ?thesis by (simp add: finalize_with_descendent_if_def)
next
  case False
  then show ?thesis using ancestry.finalize_with_descendent_if_enacts [OF assms False] by simp
qed

theorem finalize_with_descendent_if_correct_witness:
  "enacts strict_prefix length [1, 2] (\<lambda>d. d = 7) small_tree
     (finalize_with_descendent_if small_tree [1, 2] (length [1, 2 :: nat]) prefix_test (\<lambda>d. d = 7))"
  using finalize_with_descendent_if_correct [OF prefix_ancestry prefix_isd small_tree_wf, of "[1, 2]" "\<lambda>d. d = 7"]
  by (simp add: small_tree_reverts)

text \<open>
  C26. The check whether finalizing a block would enact a node finds the topmost node that passes the
  predicate and is the block or an ancestor of it, although it looks through the nodes one by one; it
  is an error if the block lies beyond a child of that node.
\<close>

theorem finalizes_any_correct:
  assumes "ancestry anc num" "\<And>a b. isd a b = Ok (anc a b)" "wf_forest anc num (roots t)"
  shows "if reverts t (num hash) then finalizes_any_with_descendent_if t hash (num hash) isd p = Err Revert
    else answers anc hash p (roots t) (finalizes_any_with_descendent_if t hash (num hash) isd p)"
proof (cases "reverts t (num hash)")
  case True
  then show ?thesis by (simp add: finalizes_any_with_descendent_if_def)
next
  case False
  then show ?thesis using ancestry.finalizes_any_answers [OF assms False] by simp
qed

theorem finalizes_any_correct_witness:
  "answers strict_prefix [1, 2] (\<lambda>d. d = 7) (roots small_tree)
     (finalizes_any_with_descendent_if small_tree [1, 2] (length [1, 2 :: nat]) prefix_test (\<lambda>d. d = 7))"
  using finalizes_any_correct [OF prefix_ancestry prefix_isd small_tree_wf, of "[1, 2]" "\<lambda>d. d = 7"]
  by (simp add: small_tree_reverts)

text \<open>
  C27. Pruning always returns and keeps the order of the tree. If some node is an ancestor of the block and
  passes the predicate, the tree is re-rooted at the deepest such node, with the branch of the one child
  that is the block or an ancestor of it; otherwise the contents stay.
\<close>

theorem prune_correct:
  assumes "ancestry anc num" "\<And>a b. isd a b = Ok (anc a b)" "wf_forest anc num (roots t)"
  shows "\<exists>t'. prune t hash (num hash) isd p = Some (Ok (), t') \<and> wf_forest anc num (roots t') \<and>
    best_finalized_number t' = best_finalized_number t \<and>
    (if \<exists>x\<in>set (forest (roots t)). candidate anc hash p x
     then \<exists>x. deepest anc hash p (forest (roots t)) x \<and>
       items (roots t') = add_mset (item x) (filter_mset (\<lambda>y. \<exists>c\<in>set (n_children x).
         (n_hash c = hash \<or> anc (n_hash c) hash) \<and> (fst y = n_hash c \<or> anc (n_hash c) (fst y))) (items (roots t)))
     else items (roots t') = items (roots t))"
  by (rule ancestry.prune_effect [OF assms])

theorem prune_correct_witness:
  "\<exists>t'. prune small_tree [1, 2, 5] (length [1, 2, 5 :: nat]) prefix_test (\<lambda>d. d = 7) = Some (Ok (), t') \<and>
     wf_forest strict_prefix length (roots t')"
  using prune_correct [OF prefix_ancestry prefix_isd small_tree_wf, of "[1, 2, 5]" "\<lambda>d. d = 7"] by blast

text \<open>Pruning also removes nodes of the canonical branch that come after the block.\<close>

lemma prune_drops_descendants:
  "prune small_tree [1] (length [1 :: nat]) prefix_test (\<lambda>d. True) = Some (Ok (), rebalance small_tree)"
  "hashes (roots (snd (the (prune (small_tree\<lparr>roots := [Node [] 0 7 [Node [1, 2] 2 8 []]]\<rparr>) [1] 1 prefix_test (\<lambda>d. True))))) =
     {[]}"
  by (simp_all add: small_tree_def prune_def find_node_where_def node_find_node_where_def prefix_test_def client_def
    strict_prefix_def keep_branch_def node_at_simps rebalance_def by_depth_def)

end
