(* ===== verification/Grandpa_Authorities.thy ===== *)
theory Grandpa_Authorities
  imports Fork_Tree_Props "HOL-Library.Product_Lexorder"
begin

text \<open>
  Authority sets of the finality gadget (\<open>client/finality-grandpa/src/authorities.rs\<close>): the current
  set, the standard changes that wait for finality in a fork tree, and the forced changes that wait
  for the depth of the best chain in a sorted vector. Block numbers are natural numbers; the set id is
  a 64 bit counter.
\<close>

section \<open>State\<close>

datatype DelayKind = Finalized | Best (median_last_finalized: nat)

record ('h, 'a) PendingChange =
  next_authorities :: "('a \<times> nat) list"
  delay :: nat
  canon_height :: nat
  canon_hash :: 'h
  delay_kind :: DelayKind

record ('h, 'a) AuthoritySet =
  current_authorities :: "('a \<times> nat) list"
  set_id :: nat
  pending_standard_changes :: "('h, nat, ('h, 'a) PendingChange) ForkTree"
  pending_forced_changes :: "('h, 'a) PendingChange list"

record 'h Status =
  changed :: bool
  new_set_block :: "('h \<times> nat) option"

definition effective_number :: "('h, 'a) PendingChange \<Rightarrow> nat" where
  "effective_number change = canon_height change + delay change"

definition genesis :: "('a \<times> nat) list \<Rightarrow> ('h, 'a) AuthoritySet" where
  "genesis initial = \<lparr>current_authorities = initial, set_id = 0, pending_standard_changes = new,
     pending_forced_changes = []\<rparr>"

definition current :: "('h, 'a) AuthoritySet \<Rightarrow> nat \<times> ('a \<times> nat) list" where
  "current s = (set_id s, current_authorities s)"

section \<open>Adding changes\<close>

text \<open>
  \<open>slice::binary_search_by_key\<close>: halving a window \<open>base .. base + size\<close>; the position of an equal key
  on the right, the place to insert on the left.
\<close>

function narrow :: "('k::linorder) list \<Rightarrow> 'k \<Rightarrow> nat \<Rightarrow> nat \<Rightarrow> nat" where
  "narrow ks k base len =
     (if len > 1
      then let half = len div 2; mid = base + half in
           narrow ks k (if ks ! mid > k then base else mid) (len - half)
      else base)"
  by pat_completeness auto

termination
  by (relation "measure (\<lambda>(_, _, _, len). len)") auto

definition binary_search :: "('k::linorder) list \<Rightarrow> 'k \<Rightarrow> (nat, nat) result" where
  "binary_search ks k =
     (if ks = [] then Err 0
      else let base = narrow ks k 0 (length ks) in
           if ks ! base = k then Ok base else Err (base + (if ks ! base < k then 1 else 0)))"

definition forced_key :: "('h, 'a) PendingChange \<Rightarrow> nat \<times> nat" where
  "forced_key change = (effective_number change, canon_height change)"

definition add_standard_change ::
  "('h, 'a) PendingChange \<Rightarrow> ('h, 'e) descendent_test \<Rightarrow> ('h, 'a) AuthoritySet \<Rightarrow>
   (unit, 'e ForkTreeError) result \<times> ('h, 'a) AuthoritySet" where
  "add_standard_change pending isd s =
     (case import (pending_standard_changes s) (canon_hash pending) (canon_height pending) pending isd of
        (Inl e, t) \<Rightarrow> (Err e, s\<lparr>pending_standard_changes := t\<rparr>)
      | (Inr _, t) \<Rightarrow> (Ok (), s\<lparr>pending_standard_changes := t\<rparr>))"

text \<open>The loop that refuses a forced change on the branch of another one.\<close>

fun on_forced_branch ::
  "('h, 'a) PendingChange list \<Rightarrow> 'h \<Rightarrow> ('h, 'e) descendent_test \<Rightarrow> (unit, 'e ForkTreeError) result" where
  "on_forced_branch [] h isd = Ok ()"
| "on_forced_branch (change # rest) h isd =
     (case (if canon_hash change = h then Ok True else client (isd (canon_hash change) h)) of
        Inl e \<Rightarrow> Err e
      | Inr b \<Rightarrow> if b then Err UnfinalizedAncestor else on_forced_branch rest h isd)"

definition insert_at :: "nat \<Rightarrow> 'x \<Rightarrow> 'x list \<Rightarrow> 'x list" where
  "insert_at i x xs = take i xs @ x # drop i xs"

definition add_forced_change ::
  "('h, 'a) PendingChange \<Rightarrow> ('h, 'e) descendent_test \<Rightarrow> ('h, 'a) AuthoritySet \<Rightarrow>
   (unit, 'e ForkTreeError) result \<times> ('h, 'a) AuthoritySet" where
  "add_forced_change pending isd s =
     (case on_forced_branch (pending_forced_changes s) (canon_hash pending) isd of
        Inl e \<Rightarrow> (Err e, s)
      | Inr _ \<Rightarrow>
          let idx = (case binary_search (map forced_key (pending_forced_changes s)) (forced_key pending) of
                       Inr i \<Rightarrow> i | Inl i \<Rightarrow> i)
          in (Ok (), s\<lparr>pending_forced_changes := insert_at idx pending (pending_forced_changes s)\<rparr>))"

definition add_pending_change ::
  "('h, 'a) PendingChange \<Rightarrow> ('h, 'e) descendent_test \<Rightarrow> ('h, 'a) AuthoritySet \<Rightarrow>
   (unit, 'e ForkTreeError) result \<times> ('h, 'a) AuthoritySet" where
  "add_pending_change pending isd s =
     (case delay_kind pending of
        Best _ \<Rightarrow> add_forced_change pending isd s
      | Finalized \<Rightarrow> add_standard_change pending isd s)"

definition pending_changes :: "('h, 'a) AuthoritySet \<Rightarrow> ('h, 'a) PendingChange list" where
  "pending_changes s = map (\<lambda>(_, _, c). c) (iter (pending_standard_changes s)) @ pending_forced_changes s"

text \<open>\<open>Iterator::min_by_key\<close>: the first of the least elements.\<close>

fun min_by_key :: "('x \<Rightarrow> 'k::linorder) \<Rightarrow> 'x list \<Rightarrow> 'x option" where
  "min_by_key f [] = None"
| "min_by_key f (x # xs) =
     (case min_by_key f xs of None \<Rightarrow> Some x | Some y \<Rightarrow> if f y < f x then Some y else Some x)"

definition current_limit :: "nat \<Rightarrow> ('h, 'a) AuthoritySet \<Rightarrow> nat option" where
  "current_limit m s =
     map_option (\<lambda>(_, _, c). effective_number c)
       (min_by_key (\<lambda>(_, _, c). effective_number c)
         (filter (\<lambda>(_, _, c). effective_number c \<ge> m) (root_items (pending_standard_changes s))))"

section \<open>Applying changes\<close>

text \<open>
  The loop over the forced changes that take effect at a block; \<open>None\<close> is the panic on a change that is
  not a forced one.
\<close>

fun first_forced ::
  "('h, 'a) PendingChange list \<Rightarrow> 'h \<Rightarrow> nat \<Rightarrow> ('h, 'e) descendent_test \<Rightarrow>
   ((nat \<times> ('h, 'a) AuthoritySet) option, 'e) result option" where
  "first_forced [] best_hash sid isd = Some (Ok None)"
| "first_forced (change # rest) best_hash sid isd =
     (case isd (canon_hash change) best_hash of
        Inl e \<Rightarrow> Some (Err e)
      | Inr b \<Rightarrow>
          if b
          then (case delay_kind change of
                  Best median \<Rightarrow>
                    Some (Ok (Some (median, \<lparr>current_authorities = next_authorities change,
                      set_id = wrapping_add 64 sid 1, pending_standard_changes = new, pending_forced_changes = []\<rparr>)))
                | Finalized \<Rightarrow> None)
          else first_forced rest best_hash sid isd)"

definition apply_forced_changes ::
  "'h \<Rightarrow> nat \<Rightarrow> ('h, 'e) descendent_test \<Rightarrow> ('h, 'a) AuthoritySet \<Rightarrow>
   ((nat \<times> ('h, 'a) AuthoritySet) option, 'e) result option" where
  "apply_forced_changes best_hash best_number isd s =
     first_forced
       (filter (\<lambda>c. effective_number c = best_number)
         (takeWhile (\<lambda>c. effective_number c \<le> best_number) (pending_forced_changes s)))
       best_hash (set_id s) isd"

definition apply_standard_changes ::
  "'h \<Rightarrow> nat \<Rightarrow> ('h, 'e) descendent_test \<Rightarrow> ('h, 'a) AuthoritySet \<Rightarrow>
   ('h Status, 'e ForkTreeError) result \<times> ('h, 'a) AuthoritySet" where
  "apply_standard_changes finalized_hash finalized_number isd s =
     (case finalize_with_descendent_if (pending_standard_changes s) finalized_hash finalized_number isd
             (\<lambda>change. effective_number change \<le> finalized_number) of
        (Inl e, t) \<Rightarrow> (Err e, s\<lparr>pending_standard_changes := t\<rparr>)
      | (Inr Unchanged, t) \<Rightarrow>
          (Ok \<lparr>changed = False, new_set_block = None\<rparr>, s\<lparr>pending_standard_changes := t\<rparr>)
      | (Inr (Changed None), t) \<Rightarrow>
          (Ok \<lparr>changed = True, new_set_block = None\<rparr>,
           s\<lparr>pending_standard_changes := t, pending_forced_changes := []\<rparr>)
      | (Inr (Changed (Some change)), t) \<Rightarrow>
          (Ok \<lparr>changed = True, new_set_block = Some (finalized_hash, finalized_number)\<rparr>,
           s\<lparr>current_authorities := next_authorities change, set_id := wrapping_add 64 (set_id s) 1,
             pending_standard_changes := t, pending_forced_changes := []\<rparr>))"

definition enacts_standard_change ::
  "'h \<Rightarrow> nat \<Rightarrow> ('h, 'e) descendent_test \<Rightarrow> ('h, 'a) AuthoritySet \<Rightarrow> (bool option, 'e ForkTreeError) result" where
  "enacts_standard_change finalized_hash finalized_number isd s =
     finalizes_any_with_descendent_if (pending_standard_changes s) finalized_hash finalized_number isd
       (\<lambda>change. effective_number change = finalized_number)"

declare narrow.simps [simp del]

end
