(* ===== verification/Grandpa_Props.thy ===== *)
theory Grandpa_Props
  imports Grandpa_Authorities
begin

text \<open>
  What the authority set guarantees: its invariant along every sequence of operations, which change a
  finalized block enacts, and that the check made before finalizing agrees with what is applied.
\<close>

section \<open>Binary search\<close>

lemma narrow_spec:
  assumes "sorted ks" "0 < len" "base + len \<le> length ks" "base = 0 \<or> ks ! base \<le> k"
    and "\<forall>j. base + len \<le> j \<and> j < length ks \<longrightarrow> k < ks ! j"
  shows "narrow ks k base len < length ks \<and> (narrow ks k base len = 0 \<or> ks ! narrow ks k base len \<le> k) \<and>
    (\<forall>j. narrow ks k base len < j \<and> j < length ks \<longrightarrow> k < ks ! j)"
  using assms
proof (induction ks k base len rule: narrow.induct)
  case (1 ks k base len)
  show ?case
  proof (cases "len > 1")
    case False
    then have "len = 1" using 1(3) by simp
    then show ?thesis using 1 by (simp add: narrow.simps)
  next
    case True
    let ?mid = "base + len div 2"
    have mid: "?mid < length ks" "0 < len - len div 2" "len div 2 < len" using True 1(4) by auto
    have up: "k < ks ! j" if "k < ks ! ?mid" "?mid \<le> j" "j < length ks" for j
      using sorted_nth_mono [OF 1(2) that(2,3)] that(1) by simp
    let ?base = "if k < ks ! ?mid then base else ?mid"
    have step: "narrow ks k base len = narrow ks k ?base (len - len div 2)"
      using True by (simp add: narrow.simps [of ks k base len] Let_def)
    have bound: "?base + (len - len div 2) \<le> length ks" using 1(4) by auto
    have above: "\<forall>j. ?base + (len - len div 2) \<le> j \<and> j < length ks \<longrightarrow> k < ks ! j"
    proof (cases "k < ks ! ?mid")
      case True
      moreover have "?mid \<le> base + (len - len div 2)" by simp
      ultimately show ?thesis using up order_trans by auto
    qed (use 1(6) mid(3) in auto)
    have start: "?base = 0 \<or> ks ! ?base \<le> k" using 1(5) by auto
    show ?thesis unfolding step by (rule 1(1) [OF True refl refl 1(2) mid(2) bound start above])
  qed
qed

definition found_index :: "(nat, nat) result \<Rightarrow> nat" where
  "found_index r = (case r of Inr i \<Rightarrow> i | Inl i \<Rightarrow> i)"

lemma split_at_index:
  assumes "sorted ks" "i \<le> length ks" "i = 0 \<or> ks ! (i - 1) \<le> k" "i < length ks \<longrightarrow> k \<le> ks ! i"
  shows "(\<forall>x\<in>set (take i ks). x \<le> k) \<and> (\<forall>x\<in>set (drop i ks). k \<le> x)"
proof (intro conjI ballI)
  fix x assume "x \<in> set (take i ks)"
  then obtain j where j: "j < i" "x = ks ! j" by (auto simp: in_set_conv_nth)
  then show "x \<le> k" using sorted_nth_mono [OF assms(1), of j "i - 1"] assms(2,3) by fastforce
next
  fix x assume "x \<in> set (drop i ks)"
  then obtain j where "i + j < length ks" "x = ks ! (i + j)"
    using assms(2) by (auto simp: in_set_conv_nth less_diff_conv add.commute)
  then show "k \<le> x" using sorted_nth_mono [OF assms(1), of i "i + j"] assms(4) by fastforce
qed

lemma binary_search_splits:
  assumes "sorted ks" "i = found_index (binary_search ks k)"
  shows "i \<le> length ks" "(\<forall>x\<in>set (take i ks). x \<le> k) \<and> (\<forall>x\<in>set (drop i ks). k \<le> x)"
proof -
  define r where "r = narrow ks k 0 (length ks)"
  have r: "r < length ks" "r = 0 \<or> ks ! r \<le> k" "\<forall>j. r < j \<and> j < length ks \<longrightarrow> k < ks ! j" if "ks \<noteq> []"
  proof -
    have "\<forall>j. 0 + length ks \<le> j \<and> j < length ks \<longrightarrow> k < ks ! j" by auto
    note narrow_spec [OF assms(1) _ _ disjI1 [OF refl] this]
    then show "r < length ks" "r = 0 \<or> ks ! r \<le> k" "\<forall>j. r < j \<and> j < length ks \<longrightarrow> k < ks ! j"
      using that by (auto simp: r_def)
  qed
  have i: "i = (if ks = [] then 0 else if ks ! r = k then r else r + (if ks ! r < k then 1 else 0))"
    using assms(2) by (simp add: binary_search_def found_index_def Let_def r_def)
  show len: "i \<le> length ks" using r(1) i by auto
  have "i = 0 \<or> ks ! (i - 1) \<le> k"
  proof (cases "ks = []")
    case False
    then show ?thesis
      using i r(1,2) sorted_nth_mono [OF assms(1), of "r - 1" r] by (auto split: if_splits)
  qed (simp add: i)
  moreover have "i < length ks \<longrightarrow> k \<le> ks ! i"
    using i r by (auto split: if_splits intro: less_imp_le)
  ultimately show "(\<forall>x\<in>set (take i ks). x \<le> k) \<and> (\<forall>x\<in>set (drop i ks). k \<le> x)"
    by (rule split_at_index [OF assms(1) len])
qed

lemma insert_at_sorted:
  assumes "sorted (map f xs)"
  shows "sorted (map f (insert_at (found_index (binary_search (map f xs) (f x))) x xs))"
proof -
  let ?i = "found_index (binary_search (map f xs) (f x))"
  have "sorted (take ?i (map f xs) @ f x # drop ?i (map f xs))"
    using binary_search_splits(2) [OF assms refl, of "f x"] sorted_wrt_take [OF assms] sorted_wrt_drop [OF assms]
    by (auto simp: sorted_append intro: order_trans)
  then show ?thesis by (simp add: insert_at_def take_map drop_map)
qed

lemma set_insert_at: "set (insert_at i x xs) = insert x (set xs)"
  using set_append [of "take i xs" "drop i xs"] by (simp add: insert_at_def)

lemma mset_insert_at: "mset (insert_at i x xs) = add_mset x (mset xs)"
  by (metis append_take_drop_id insert_at_def mset.simps(2) mset_append union_mset_add_mset_right)

section \<open>The invariant\<close>

text \<open>
  Standard changes are filed under the block that announced them, in the order of the chain. Forced
  changes are sorted by the block where they take effect and then by the block that announced them, and
  no two of them are on one branch.
\<close>

definition standard_ok :: "('h \<Rightarrow> 'h \<Rightarrow> bool) \<Rightarrow> ('h \<Rightarrow> nat) \<Rightarrow> ('h, nat, ('h, 'a) PendingChange) ForkTree \<Rightarrow> bool" where
  "standard_ok anc num t \<longleftrightarrow> wf_forest anc num (roots t) \<and>
     (\<forall>x\<in>#items (roots t). canon_hash (snd (snd x)) = fst x \<and> canon_height (snd (snd x)) = num (fst x))"

definition forced_ok :: "('h \<Rightarrow> 'h \<Rightarrow> bool) \<Rightarrow> ('h, 'a) PendingChange list \<Rightarrow> bool" where
  "forced_ok anc cs \<longleftrightarrow> sorted (map forced_key cs) \<and> distinct (map canon_hash cs) \<and>
     (\<forall>c\<in>set cs. delay_kind c \<noteq> Finalized) \<and>
     (\<forall>c\<in>set cs. \<forall>d\<in>set cs. \<not> anc (canon_hash c) (canon_hash d))"

definition authorities_ok :: "('h \<Rightarrow> 'h \<Rightarrow> bool) \<Rightarrow> ('h \<Rightarrow> nat) \<Rightarrow> ('h, 'a) AuthoritySet \<Rightarrow> bool" where
  "authorities_ok anc num s \<longleftrightarrow> set_id s < 2 ^ 64 \<and>
     standard_ok anc num (pending_standard_changes s) \<and> forced_ok anc (pending_forced_changes s)"

text \<open>The operations of the gadget; changes of a branch are announced in order.\<close>

inductive authority_step ::
  "('h \<Rightarrow> 'h \<Rightarrow> bool) \<Rightarrow> ('h \<Rightarrow> nat) \<Rightarrow> ('h, 'e) descendent_test \<Rightarrow> ('h, 'a) AuthoritySet \<Rightarrow> ('h, 'a) AuthoritySet \<Rightarrow> bool"
  for anc num isd where
  announce: "add_pending_change pending isd s = (r, s') \<Longrightarrow> canon_height pending = num (canon_hash pending) \<Longrightarrow>
    (\<And>x. x \<in> hashes (roots (pending_standard_changes s)) \<Longrightarrow> \<not> anc (canon_hash pending) x) \<Longrightarrow>
    (\<And>c. c \<in> set (pending_forced_changes s) \<Longrightarrow> \<not> anc (canon_hash pending) (canon_hash c)) \<Longrightarrow>
    authority_step anc num isd s s'"
| finality: "apply_standard_changes h (num h) isd s = (r, s') \<Longrightarrow> authority_step anc num isd s s'"
| force: "apply_forced_changes h n isd s = Some (Ok (Some (median, s'))) \<Longrightarrow> authority_step anc num isd s s'"

inductive_cases authority_stepE: "authority_step anc num isd s s'"

lemma standard_ok_new: "ancestry anc num \<Longrightarrow> standard_ok anc num new"
  by (simp add: standard_ok_def new_def ancestry.wf_forest_Nil)

lemma on_forced_branch_eq:
  assumes "\<And>a b. isd a b = Ok (anc a b)"
  shows "on_forced_branch cs h isd =
    (if \<exists>c\<in>set cs. canon_hash c = h \<or> anc (canon_hash c) h then Err UnfinalizedAncestor else Ok ())"
  by (induction cs) (auto simp: assms client_def)

lemma add_forced_ok:
  assumes "forced_ok anc cs" "delay_kind pending \<noteq> Finalized"
    and "\<not> (\<exists>c\<in>set cs. canon_hash c = canon_hash pending \<or> anc (canon_hash c) (canon_hash pending))"
    and "\<And>c. c \<in> set cs \<Longrightarrow> \<not> anc (canon_hash pending) (canon_hash c)" "\<not> anc (canon_hash pending) (canon_hash pending)"
  shows "forced_ok anc (insert_at (found_index (binary_search (map forced_key cs) (forced_key pending))) pending cs)"
proof -
  let ?cs = "insert_at (found_index (binary_search (map forced_key cs) (forced_key pending))) pending cs"
  have "mset (map canon_hash ?cs) = mset (canon_hash pending # map canon_hash cs)" by (simp add: mset_insert_at)
  then have "distinct (map canon_hash ?cs) \<longleftrightarrow> distinct (canon_hash pending # map canon_hash cs)"
    by (rule mset_eq_imp_distinct_iff)
  moreover have "canon_hash pending \<notin> canon_hash ` set cs" using assms(3) by auto
  ultimately show ?thesis
    using assms insert_at_sorted [of forced_key cs pending] by (auto simp: forced_ok_def set_insert_at)
qed

lemma add_forced_change_ok:
  assumes anc: "ancestry anc num" and isd: "\<And>a b. isd a b = Ok (anc a b)"
    and s: "authorities_ok anc num s" "delay_kind pending \<noteq> Finalized"
    and new: "\<And>c. c \<in> set (pending_forced_changes s) \<Longrightarrow> \<not> anc (canon_hash pending) (canon_hash c)"
  shows "authorities_ok anc num (snd (add_forced_change pending isd s))"
proof (cases "\<exists>c\<in>set (pending_forced_changes s). canon_hash c = canon_hash pending \<or> anc (canon_hash c) (canon_hash pending)")
  case True
  then show ?thesis using s by (simp add: add_forced_change_def on_forced_branch_eq [OF isd])
next
  case False
  then show ?thesis
    using s add_forced_ok [of anc "pending_forced_changes s" pending] new ancestry.anc_irrefl [OF anc]
    by (auto simp: add_forced_change_def on_forced_branch_eq [OF isd] authorities_ok_def found_index_def)
qed

lemma add_standard_change_ok:
  assumes anc: "ancestry anc num" and isd: "\<And>a b. isd a b = Ok (anc a b)"
    and s: "authorities_ok anc num s" "canon_height pending = num (canon_hash pending)"
    and new: "\<And>x. x \<in> hashes (roots (pending_standard_changes s)) \<Longrightarrow> \<not> anc (canon_hash pending) x"
  shows "authorities_ok anc num (snd (add_standard_change pending isd s))"
proof -
  let ?t = "pending_standard_changes s" and ?h = "canon_hash pending"
  have wf: "wf_forest anc num (roots ?t)" using s by (simp add: authorities_ok_def standard_ok_def)
  obtain r t' where t': "import ?t ?h (num ?h) pending isd = (r, t')" "wf_forest anc num (roots t')"
    "t' = ?t \<or> items (roots t') = add_mset (?h, num ?h, pending) (items (roots ?t))"
    using ancestry.import_effect [OF anc isd wf new, of pending] by (auto split: if_splits)
  then have "standard_ok anc num t'" using s by (auto simp: authorities_ok_def standard_ok_def)
  then show ?thesis
    using s t'(1) by (auto simp: add_standard_change_def authorities_ok_def split: sum.splits)
qed

lemma items_filter_le: "items (filter P ts) \<subseteq># items ts"
proof -
  have "mset ts = mset (filter P ts @ filter (\<lambda>t. \<not> P t) ts)" by (simp flip: multiset_partition)
  then have "items ts = items (filter P ts) + items (filter (\<lambda>t. \<not> P t) ts)" by (metis items_mset items_simps(3))
  then show ?thesis by simp
qed

lemma standard_ok_subset:
  "standard_ok anc num t \<Longrightarrow> wf_forest anc num (roots t') \<Longrightarrow> items (roots t') \<subseteq># items (roots t) \<Longrightarrow> standard_ok anc num t'"
  by (auto simp: standard_ok_def dest: mset_subset_eqD)

text \<open>The four outcomes of a finality trigger.\<close>

definition takes_effect :: "nat \<Rightarrow> ('h, 'a) PendingChange \<Rightarrow> bool" where
  "takes_effect n change \<longleftrightarrow> effective_number change \<le> n"

lemma apply_standard_changes_cases:
  assumes anc: "ancestry anc num" and isd: "\<And>a b. isd a b = Ok (anc a b)"
    and ok: "standard_ok anc num (pending_standard_changes s)"
  obtains (revert) "reverts (pending_standard_changes s) (num h)" "apply_standard_changes h (num h) isd s = (Err Revert, s)"
  | (beyond) x where "\<not> reverts (pending_standard_changes s) (num h)" "x \<in> set (roots (pending_standard_changes s))"
      "enacted_by anc h (takes_effect (num h)) x" "\<exists>c\<in>set (n_children x). anc (n_hash c) h"
      "apply_standard_changes h (num h) isd s = (Err UnfinalizedAncestor, s)"
  | (none) b t' where "\<not> reverts (pending_standard_changes s) (num h)"
      "\<forall>x\<in>set (roots (pending_standard_changes s)). \<not> enacted_by anc h (takes_effect (num h)) x"
      "apply_standard_changes h (num h) isd s = (Ok \<lparr>changed = b, new_set_block = None\<rparr>,
         s\<lparr>pending_standard_changes := t', pending_forced_changes := if b then [] else pending_forced_changes s\<rparr>)"
      "standard_ok anc num t'"
      "roots t' = filter (\<lambda>x. n_hash x = h \<or> anc h (n_hash x) \<or> anc (n_hash x) h) (roots (pending_standard_changes s))"
      "b \<longleftrightarrow> roots t' \<noteq> roots (pending_standard_changes s)"
  | (change) x t' where "\<not> reverts (pending_standard_changes s) (num h)" "x \<in> set (roots (pending_standard_changes s))"
      "enacted_by anc h (takes_effect (num h)) x" "\<forall>c\<in>set (n_children x). \<not> anc (n_hash c) h"
      "apply_standard_changes h (num h) isd s = (Ok \<lparr>changed = True, new_set_block = Some (h, num h)\<rparr>,
         s\<lparr>current_authorities := next_authorities (n_data x), set_id := wrapping_add 64 (set_id s) 1,
           pending_standard_changes := t', pending_forced_changes := []\<rparr>)"
      "standard_ok anc num t'"
      "items (roots t') = filter_mset (\<lambda>y. fst y \<noteq> n_hash x \<and> (fst y = h \<or> anc h (fst y))) (items (roots (pending_standard_changes s)))"
proof -
  let ?t = "pending_standard_changes s"
  have wf: "wf_forest anc num (roots ?t)" using ok by (simp add: standard_ok_def)
  obtain r t' where f: "finalize_with_descendent_if ?t h (num h) isd (takes_effect (num h)) = (r, t')" by fastforce
  have app: "apply_standard_changes h (num h) isd s =
      (case r of
         Inl e \<Rightarrow> (Err e, s\<lparr>pending_standard_changes := t'\<rparr>)
       | Inr Unchanged \<Rightarrow> (Ok \<lparr>changed = False, new_set_block = None\<rparr>, s\<lparr>pending_standard_changes := t'\<rparr>)
       | Inr (Changed None) \<Rightarrow> (Ok \<lparr>changed = True, new_set_block = None\<rparr>,
           s\<lparr>pending_standard_changes := t', pending_forced_changes := []\<rparr>)
       | Inr (Changed (Some change)) \<Rightarrow> (Ok \<lparr>changed = True, new_set_block = Some (h, num h)\<rparr>,
           s\<lparr>current_authorities := next_authorities change, set_id := wrapping_add 64 (set_id s) 1,
             pending_standard_changes := t', pending_forced_changes := []\<rparr>))"
    using f by (simp add: apply_standard_changes_def takes_effect_def [abs_def])
  show ?thesis
  proof (cases "reverts ?t (num h)")
    case True
    then show ?thesis using f app by (intro revert) (auto simp: finalize_with_descendent_if_def)
  next
    case False
    have e: "enacts anc num h (takes_effect (num h)) ?t (r, t')"
      using ancestry.finalize_with_descendent_if_enacts [OF anc isd wf False, of "takes_effect (num h)"] f by simp
    show ?thesis
    proof (cases r)
      case (Inl err)
      then show ?thesis using e app False by (auto simp: enacts_def intro: beyond)
    next
      case (Inr res)
      note w = e [unfolded enacts_def Inr, simplified]
      show ?thesis
      proof (cases "res = Changed None \<or> res = Unchanged")
        case True
        have rs: "roots t' = filter (\<lambda>x. n_hash x = h \<or> anc h (n_hash x) \<or> anc (n_hash x) h) (roots ?t)"
          using w True by auto
        have "items (roots t') \<subseteq># items (roots ?t)" unfolding rs by (rule items_filter_le)
        then have "standard_ok anc num t'" using standard_ok_subset [OF ok] w True by auto
        then show ?thesis
          using w True app Inr False rs by (intro none [of "res = Changed None" t']) auto
      next
        case stays: False
        then obtain data where c: "res = Changed (Some data)" by (metis FinalizationResult.exhaust option.exhaust)
        obtain x where x: "x \<in> set (roots ?t)" "enacted_by anc h (takes_effect (num h)) x" "n_data x = data"
          "\<forall>c\<in>set (n_children x). \<not> anc (n_hash c) h"
          "items (roots t') = filter_mset (\<lambda>y. fst y \<noteq> n_hash x \<and> (fst y = h \<or> anc h (fst y))) (items (roots ?t))"
          using w c by auto
        have "standard_ok anc num t'" using standard_ok_subset [OF ok] w x(5) by simp
        then show ?thesis using app Inr c False x by (intro change [of x t']) auto
      qed
    qed
  qed
qed

lemma wrapping_add_bound: "wrapping_add w a b < 2 ^ w"
  by (simp add: wrapping_add_def)

lemma first_forced_new:
  "first_forced cs h sid isd = Some (Ok (Some (median, s'))) \<Longrightarrow>
     \<exists>c\<in>set cs. delay_kind c = Best median \<and> isd (canon_hash c) h = Ok True \<and>
       s' = \<lparr>current_authorities = next_authorities c, set_id = wrapping_add 64 sid 1,
         pending_standard_changes = new, pending_forced_changes = []\<rparr>"
  by (induction cs) (auto split: sum.splits if_splits DelayKind.splits)

lemma authority_step_invariant:
  assumes "authority_step anc num isd s s'" "ancestry anc num" "\<And>a b. isd a b = Ok (anc a b)" "authorities_ok anc num s"
  shows "authorities_ok anc num s'"
  using assms(1)
proof cases
  case (announce pending r)
  then show ?thesis
    using add_forced_change_ok [OF assms(2,3,4), of pending] add_standard_change_ok [OF assms(2,3,4), of pending]
    by (cases "delay_kind pending") (simp_all add: add_pending_change_def)
next
  case (finality h r)
  have "standard_ok anc num (pending_standard_changes s)" using assms(4) by (simp add: authorities_ok_def)
  then show ?thesis
    by (cases rule: apply_standard_changes_cases [OF assms(2,3), of s h])
       (use finality assms(4) wrapping_add_bound [of 64 "set_id s" 1] in \<open>auto simp: authorities_ok_def forced_ok_def\<close>)
next
  case (force h n median)
  then obtain auths where "s' = \<lparr>current_authorities = auths, set_id = wrapping_add 64 (set_id s) 1,
      pending_standard_changes = new, pending_forced_changes = []\<rparr>"
    unfolding apply_forced_changes_def by (blast dest: first_forced_new)
  then show ?thesis
    using standard_ok_new [OF assms(2)] wrapping_add_bound [of 64 "set_id s" 1]
    by (simp add: authorities_ok_def forced_ok_def)
qed

lemma effective_sorted: "sorted (map forced_key cs) \<Longrightarrow> sorted (map effective_number cs)"
  by (auto simp: sorted_map forced_key_def elim!: sorted_wrt_mono_rel [rotated])

lemma takeWhile_effective:
  "sorted (map effective_number cs) \<Longrightarrow>
     filter (\<lambda>c. effective_number c = n) (takeWhile (\<lambda>c. effective_number c \<le> n) cs) = filter (\<lambda>c. effective_number c = n) cs"
proof (induction cs)
  case (Cons c cs)
  then have "n < effective_number c \<Longrightarrow> filter (\<lambda>c. effective_number c = n) cs = []" by (auto simp: filter_empty_conv)
  then show ?case using Cons by auto
qed simp

lemma first_forced_returns:
  assumes "\<And>a b. isd a b = Ok (anc a b)" "\<forall>c\<in>set cs. delay_kind c \<noteq> Finalized"
  shows "(\<exists>c\<in>set cs. anc (canon_hash c) h \<and> first_forced cs h sid isd =
      Some (Ok (Some (median_last_finalized (delay_kind c), \<lparr>current_authorities = next_authorities c,
        set_id = wrapping_add 64 sid 1, pending_standard_changes = new, pending_forced_changes = []\<rparr>)))) \<or>
    (\<forall>c\<in>set cs. \<not> anc (canon_hash c) h) \<and> first_forced cs h sid isd = Some (Ok None)"
  using assms(2) by (induction cs) (auto simp: assms(1) split: DelayKind.splits)

text \<open>Changes and a set for the witnesses.\<close>

definition small_change :: "(nat list, nat) PendingChange" where
  "small_change = \<lparr>next_authorities = [(7, 1)], delay = 1, canon_height = 1, canon_hash = [1], delay_kind = Finalized\<rparr>"

definition small_forced :: "(nat list, nat) PendingChange" where
  "small_forced = \<lparr>next_authorities = [(8, 1)], delay = 1, canon_height = 1, canon_hash = [4], delay_kind = Best 0\<rparr>"

definition small_set :: "(nat list, nat) AuthoritySet" where
  "small_set = \<lparr>current_authorities = [(6, 1)], set_id = 0,
     pending_standard_changes = \<lparr>roots = [Node [1] 1 small_change []], best_finalized_number = None\<rparr>,
     pending_forced_changes = [small_forced]\<rparr>"

lemma small_set_ok: "authorities_ok strict_prefix length small_set"
  by (simp add: authorities_ok_def standard_ok_def forced_ok_def small_set_def small_change_def small_forced_def
    wf_forest_def separate_def)

lemma small_set_enacts: "enacts_standard_change [1, 2] (length [1, 2 :: nat]) prefix_test small_set = Ok (Some True)"
  by (simp add: enacts_standard_change_def finalizes_any_with_descendent_if_def reverts_def small_set_def
    node_iter_def iterate_forest prefix_test_def client_def small_change_def effective_number_def strict_prefix_def)

section \<open>Properties\<close>

text \<open>
  C28. Along every sequence of operations of the finality gadget the authority set stays in order: standard
  changes mirror the chain, forced changes are sorted by where they take effect with at most one per
  branch, and the panic in \<open>apply_forced_changes\<close> is never reached.
\<close>

theorem authority_set_invariant:
  assumes "ancestry anc num" "\<And>a b. isd a b = Ok (anc a b)" "(authority_step anc num isd)\<^sup>*\<^sup>* (genesis initial) s"
  shows "authorities_ok anc num s \<and> (\<forall>h n. apply_forced_changes h n isd s \<noteq> None)"
proof -
  have "authorities_ok anc num s"
    using assms(3)
  proof (induction rule: rtranclp_induct)
    case base
    then show ?case
      using standard_ok_new [OF assms(1)] by (simp add: genesis_def authorities_ok_def forced_ok_def)
  next
    case (step s s')
    then show ?case using authority_step_invariant [OF _ assms(1,2)] by blast
  qed
  moreover have "apply_forced_changes h n isd s \<noteq> None" for h n
  proof -
    let ?cs = "filter (\<lambda>c. effective_number c = n) (takeWhile (\<lambda>c. effective_number c \<le> n) (pending_forced_changes s))"
    have "\<forall>c\<in>set ?cs. delay_kind c \<noteq> Finalized"
      using calculation by (auto simp: authorities_ok_def forced_ok_def dest: set_takeWhileD)
    from first_forced_returns [where isd = isd and anc = anc and h = h and sid = "set_id s", OF assms(2) this] show ?thesis
      by (auto simp: apply_forced_changes_def)
  qed
  ultimately show ?thesis by blast
qed

theorem authority_set_invariant_witness:
  "authorities_ok strict_prefix length (snd (add_pending_change small_change prefix_test (genesis [])))"
proof -
  let ?s = "snd (add_pending_change small_change prefix_test (genesis []))"
  have "authority_step strict_prefix length prefix_test (genesis []) ?s"
    by (rule announce [of small_change _ _ "fst (add_pending_change small_change prefix_test (genesis []))"])
       (simp_all add: genesis_def new_def small_change_def)
  then show ?thesis using authority_set_invariant [OF prefix_ancestry prefix_isd, of "[]" ?s] by blast
qed



text \<open>
  C30. The check made before finalizing agrees with what finalizing does: if it announces that the block
  enacts a change that can be applied, then applying it succeeds and installs a new set at that block.
\<close>

theorem enacts_then_applies:
  assumes "ancestry anc num" "\<And>a b. isd a b = Ok (anc a b)" "authorities_ok anc num s"
    and "enacts_standard_change h (num h) isd s = Ok (Some True)"
  shows "\<exists>s' x. apply_standard_changes h (num h) isd s = (Ok \<lparr>changed = True, new_set_block = Some (h, num h)\<rparr>, s') \<and>
    x \<in> set (roots (pending_standard_changes s)) \<and> effective_number (n_data x) = num h \<and>
    current s' = (wrapping_add 64 (set_id s) 1, next_authorities (n_data x))"
proof -
  let ?t = "pending_standard_changes s"
  have ok: "standard_ok anc num ?t" and wf: "wf_forest anc num (roots ?t)"
    using assms(3) by (simp_all add: authorities_ok_def standard_ok_def)
  have rev: "\<not> reverts ?t (num h)"
    using assms(4) by (auto simp: enacts_standard_change_def finalizes_any_with_descendent_if_def)
  have "answers anc h (\<lambda>c. effective_number c = num h) (roots ?t) (enacts_standard_change h (num h) isd s)"
    using ancestry.finalizes_any_answers [OF assms(1,2) wf rev] by (simp add: enacts_standard_change_def)
  then obtain x where x: "x \<in> set (roots ?t)" "enacted_by anc h (\<lambda>c. effective_number c = num h) x"
    "\<forall>c\<in>set (n_children x). \<not> anc (n_hash c) h"
    using assms(4) by (auto simp: answers_def topmost_def)
  then have e: "enacted_by anc h (takes_effect (num h)) x" by (simp add: enacted_by_def takes_effect_def)
  have only: "y = x" if "y \<in> set (roots ?t)" "enacted_by anc h (takes_effect (num h)) y" for y
    using wf x(1) e that ancestry.branches [OF assms(1), of "n_hash x" h "n_hash y"]
    by (auto simp: wf_forest_def separate_def enacted_by_def dest: inj_on_eq_iff simp: distinct_map)
  have "effective_number (n_data x) = num h" using x(2) by (simp add: enacted_by_def)
  note x = x(1,3) this
  show ?thesis
  proof (rule apply_standard_changes_cases [OF assms(1,2) ok, of h], goal_cases)
    case 1
    then show ?thesis using rev by blast
  next
    case (2 y)
    then show ?thesis using only [of y] x(2) by blast
  next
    case 3
    then show ?thesis using x(1) e by blast
  next
    case (4 y t')
    moreover have "y = x" using only 4(2,3) by blast
    ultimately show ?thesis using x by (auto simp: current_def)
  qed
qed

theorem enacts_then_applies_witness:
  "\<exists>s'. apply_standard_changes [1, 2] (length [1, 2 :: nat]) prefix_test small_set =
     (Ok \<lparr>changed = True, new_set_block = Some ([1, 2], length [1, 2 :: nat])\<rparr>, s')"
  using enacts_then_applies [OF prefix_ancestry prefix_isd small_set_ok small_set_enacts] by blast

text \<open>
  C31. A best block trigger applies a forced change exactly if one takes effect at that block on its
  branch, and then starts over with that change's authorities, the next set id and no pending changes.
\<close>

theorem apply_forced_changes_correct:
  assumes "ancestry anc num" "\<And>a b. isd a b = Ok (anc a b)" "authorities_ok anc num s"
  shows "(\<exists>c\<in>set (pending_forced_changes s). effective_number c = n \<and> anc (canon_hash c) h \<and>
      apply_forced_changes h n isd s = Some (Ok (Some (median_last_finalized (delay_kind c),
        \<lparr>current_authorities = next_authorities c, set_id = wrapping_add 64 (set_id s) 1,
          pending_standard_changes = new, pending_forced_changes = []\<rparr>)))) \<or>
    (\<forall>c\<in>set (pending_forced_changes s). effective_number c = n \<longrightarrow> \<not> anc (canon_hash c) h) \<and>
      apply_forced_changes h n isd s = Some (Ok None)"
proof -
  have f: "forced_ok anc (pending_forced_changes s)" using assms(3) by (simp add: authorities_ok_def)
  then have "apply_forced_changes h n isd s =
      first_forced (filter (\<lambda>c. effective_number c = n) (pending_forced_changes s)) h (set_id s) isd"
    by (simp add: apply_forced_changes_def forced_ok_def takeWhile_effective effective_sorted)
  then show ?thesis
    using first_forced_returns [where isd = isd and anc = anc and h = h and sid = "set_id s" and
        cs = "filter (\<lambda>c. effective_number c = n) (pending_forced_changes s)", OF assms(2)] f
    by (auto simp: forced_ok_def)
qed

theorem apply_forced_changes_correct_witness:
  "\<exists>s'. apply_forced_changes [4, 1] 2 prefix_test small_set = Some (Ok (Some (0, s')))"
  using apply_forced_changes_correct [OF prefix_ancestry prefix_isd small_set_ok, of 2 "[4, 1]"]
  by (auto simp: small_set_def small_forced_def effective_number_def strict_prefix_def)

end
