(* ===== verification/Epoch_Changes.thy ===== *)
theory Epoch_Changes
  imports Header_Metadata Fork_Tree_Props "HOL-Library.Word"
begin

text \<open>
  Epochs of slot based consensus (\<open>client/consensus/epochs/src/lib.rs\<close>): the tree of announced epochs
  across forks, the epoch under which a block is verified, and BABE's epochs
  (\<open>client/consensus/babe/src/lib.rs\<close>). Hashes are lists of bytes; block numbers are natural numbers;
  slots are 64 bit.
\<close>

unbundle bit_operations_syntax

section \<open>Epochs\<close>

text \<open>The trait \<open>Epoch\<close>.\<close>

record ('ep, 'd) EpochT =
  increment :: "'ep \<Rightarrow> 'd \<Rightarrow> 'ep"
  end_slot :: "'ep \<Rightarrow> nat"
  start_slot :: "'ep \<Rightarrow> nat"

datatype 'ep ViableEpoch = Genesis 'ep | Regular 'ep

datatype 'ep PersistedEpoch = PersistedGenesis 'ep 'ep | PersistedRegular 'ep

datatype 'ep IncrementedEpoch = IncrementedEpoch "'ep PersistedEpoch"

fun viable_as_ref :: "'ep ViableEpoch \<Rightarrow> 'ep" where
  "viable_as_ref (Genesis e) = e"
| "viable_as_ref (Regular e) = e"

definition into_inner :: "'ep ViableEpoch \<Rightarrow> 'ep" where
  "into_inner v = (case v of Genesis e \<Rightarrow> e | Regular e \<Rightarrow> e)"

definition viable_increment :: "('ep, 'd) EpochT \<Rightarrow> 'ep ViableEpoch \<Rightarrow> 'd \<Rightarrow> 'ep IncrementedEpoch" where
  "viable_increment T v next_descriptor =
     (let next = increment T (viable_as_ref v) next_descriptor in
      IncrementedEpoch (case v of Genesis epoch_0 \<Rightarrow> PersistedGenesis epoch_0 next | Regular _ \<Rightarrow> PersistedRegular next))"

fun incremented_as_ref :: "'ep IncrementedEpoch \<Rightarrow> 'ep" where
  "incremented_as_ref (IncrementedEpoch (PersistedGenesis _ epoch_1)) = epoch_1"
| "incremented_as_ref (IncrementedEpoch (PersistedRegular epoch_n)) = epoch_n"

section \<open>The tree of epochs\<close>

type_synonym 'ep EpochChanges = "(8 word list, nat, 'ep PersistedEpoch) ForkTree"

type_synonym 'e descendent_builder = "(8 word list \<times> 8 word list) option \<Rightarrow> (8 word list, 'e) descendent_test"

definition epoch_changes_new :: "'ep EpochChanges" where
  "epoch_changes_new = new"

definition epoch_rebalance :: "'ep EpochChanges \<Rightarrow> 'ep EpochChanges" where
  "epoch_rebalance s = rebalance s"

text \<open>Flipping the first bit; \<open>None\<close> is the panic on a hash without bytes.\<close>

definition fake_head_hash :: "8 word list \<Rightarrow> 8 word list option" where
  "fake_head_hash h = (case h of [] \<Rightarrow> None | b # bs \<Rightarrow> Some ((b XOR 0x80) # bs))"

definition ended :: "('ep, 'd) EpochT \<Rightarrow> nat \<Rightarrow> 'ep PersistedEpoch \<Rightarrow> bool" where
  "ended T slot epoch =
     (case epoch of
        PersistedGenesis _ epoch_1 \<Rightarrow> slot \<ge> end_slot T epoch_1
      | PersistedRegular epoch_n \<Rightarrow> slot \<ge> end_slot T epoch_n)"

definition prune_finalized ::
  "('ep, 'd) EpochT \<Rightarrow> 'e descendent_builder \<Rightarrow> 8 word list \<Rightarrow> nat \<Rightarrow> nat \<Rightarrow> 'ep EpochChanges \<Rightarrow>
   ((unit, 'e ForkTreeError) result \<times> 'ep EpochChanges) option" where
  "prune_finalized T build h number slot s = prune s h number (build None) (ended T slot)"

definition started :: "('ep, 'd) EpochT \<Rightarrow> nat \<Rightarrow> 'ep PersistedEpoch \<Rightarrow> bool" where
  "started T slot epoch =
     (case epoch of
        PersistedGenesis epoch_0 _ \<Rightarrow> start_slot T epoch_0 \<le> slot
      | PersistedRegular epoch_n \<Rightarrow> start_slot T epoch_n \<le> slot)"

text \<open>Which epoch of a node is meant: of a genesis node the second one, once it has started.\<close>

definition epoch_at :: "('ep, 'd) EpochT \<Rightarrow> nat \<Rightarrow> 'ep PersistedEpoch \<Rightarrow> 'ep" where
  "epoch_at T slot epoch =
     (case epoch of
        PersistedGenesis epoch_0 epoch_1 \<Rightarrow> if start_slot T epoch_1 \<le> slot then epoch_1 else epoch_0
      | PersistedRegular epoch_n \<Rightarrow> epoch_n)"

definition epoch_for_child_of ::
  "('ep, 'd) EpochT \<Rightarrow> 'e descendent_builder \<Rightarrow> 8 word list \<Rightarrow> nat \<Rightarrow> nat \<Rightarrow> (nat \<Rightarrow> 'ep) \<Rightarrow> 'ep EpochChanges \<Rightarrow>
   ('ep ViableEpoch option, 'e ForkTreeError) result option" where
  "epoch_for_child_of T build parent_hash parent_number slot_number make_genesis s =
     (case fake_head_hash parent_hash of
        None \<Rightarrow> None
      | Some fake \<Rightarrow>
          let isd = build (Some (fake, parent_hash)) in
          if parent_number = 0 then Some (Ok (Some (Genesis (make_genesis slot_number))))
          else
            (case find_node_where s fake (parent_number + 1) isd (started T slot_number) of
               None \<Rightarrow> None
             | Some (Inl e) \<Rightarrow> Some (Err e)
             | Some (Inr n) \<Rightarrow> Some (Ok (map_option (\<lambda>node. Regular (epoch_at T slot_number (n_data node))) n))))"

definition epoch_import ::
  "'e descendent_builder \<Rightarrow> 8 word list \<Rightarrow> nat \<Rightarrow> 8 word list \<Rightarrow> 'ep IncrementedEpoch \<Rightarrow> 'ep EpochChanges \<Rightarrow>
   (unit, 'e ForkTreeError) result \<times> 'ep EpochChanges" where
  "epoch_import build h number parent_hash epoch s =
     (case epoch of
        IncrementedEpoch persisted \<Rightarrow>
          (case import s h number persisted (build (Some (h, parent_hash))) of
             (Inr _, s') \<Rightarrow> (Ok (), s')
           | (Inl Duplicate, s') \<Rightarrow> (Ok (), s')
           | (Inl e, s') \<Rightarrow> (Err e, s')))"

section \<open>BABE's epochs\<close>

record 'a NextEpochDescriptor =
  nd_authorities :: "('a \<times> nat) list"
  nd_randomness :: "8 word list"

record 'a BabeEpoch =
  epoch_index :: nat
  babe_start_slot :: nat
  duration :: nat
  authorities :: "('a \<times> nat) list"
  randomness :: "8 word list"

definition babe_increment :: "'a BabeEpoch \<Rightarrow> 'a NextEpochDescriptor \<Rightarrow> 'a BabeEpoch" where
  "babe_increment e descriptor =
     \<lparr>epoch_index = wrapping_add 64 (epoch_index e) 1,
      babe_start_slot = wrapping_add 64 (babe_start_slot e) (duration e),
      duration = duration e, authorities = nd_authorities descriptor, randomness = nd_randomness descriptor\<rparr>"

definition babe_end_slot :: "'a BabeEpoch \<Rightarrow> nat" where
  "babe_end_slot e = wrapping_add 64 (babe_start_slot e) (duration e)"

definition babe_epoch :: "('a BabeEpoch, 'a NextEpochDescriptor) EpochT" where
  "babe_epoch = \<lparr>increment = babe_increment, end_slot = babe_end_slot, start_slot = babe_start_slot\<rparr>"

end
