(* ===== verification/Epoch_Props.thy ===== *)
theory Epoch_Props
  imports Epoch_Changes
begin

text \<open>
  Which epoch a block is verified under: the header tree provides the ancestry, the fork tree the
  search. The last property says that pruning at a finalized block does not change the answer.
\<close>

section \<open>Epochs follow each other\<close>

locale epoch =
  fixes T :: "('ep, 'd) EpochT"
  assumes contiguous: "start_slot T (increment T e d) = end_slot T e"
begin

lemma viable_increment_starts: "start_slot T (incremented_as_ref (viable_increment T v d)) = end_slot T (viable_as_ref v)"
  by (cases v) (simp_all add: viable_increment_def contiguous Let_def)

end

interpretation babe: epoch babe_epoch
  by unfold_locales (simp add: babe_epoch_def babe_increment_def babe_end_slot_def)

section \<open>Epoch trees on a header tree\<close>

definition epochs_on :: "8 word list headers \<Rightarrow> 'ep EpochChanges \<Rightarrow> bool" where
  "epochs_on H s \<longleftrightarrow> wf_forest (header_anc H) (num_of H) (roots s) \<and> hashes (roots s) \<subseteq> dom H"

definition on_branch :: "8 word list headers \<Rightarrow> 8 word list \<Rightarrow> 8 word list \<Rightarrow> bool" where
  "on_branch H parent h \<longleftrightarrow> h = parent \<or> header_anc H h parent"

text \<open>The epoch announced last on the branch of a block among those that have started by a slot.\<close>

definition latest_started ::
  "('ep, 'd) EpochT \<Rightarrow> 8 word list headers \<Rightarrow> 8 word list \<Rightarrow> nat \<Rightarrow>
   (8 word list \<times> nat \<times> 'ep PersistedEpoch) multiset \<Rightarrow> 'ep PersistedEpoch option \<Rightarrow> bool" where
  "latest_started T H parent slot M r \<longleftrightarrow>
     (case r of
        None \<Rightarrow> \<forall>y\<in>#M. on_branch H parent (fst y) \<longrightarrow> \<not> started T slot (snd (snd y))
      | Some d \<Rightarrow> \<exists>x\<in>#M. snd (snd x) = d \<and> on_branch H parent (fst x) \<and> started T slot d \<and>
          (\<forall>y\<in>#M. on_branch H parent (fst y) \<and> started T slot (snd (snd y)) \<longrightarrow>
             fst y = fst x \<or> header_anc H (fst y) (fst x)))"

lemma root_hash: "t \<in> set ts \<Longrightarrow> n_hash t \<in> hashes ts"
  by (auto simp: hashes_alt [of ts])

lemma wf_forest_cong:
  assumes "ancestry anc num" "ancestry anc' num'" "wf_forest anc num ts"
    and "\<And>a b. a \<in> hashes ts \<Longrightarrow> b \<in> hashes ts \<Longrightarrow> anc' a b \<longleftrightarrow> anc a b" "\<And>a. a \<in> hashes ts \<Longrightarrow> num' a = num a"
  shows "wf_forest anc' num' ts"
  using assms(3-)
proof (induction ts rule: forest_induct)
  case 1
  then show ?case using ancestry.wf_forest_Nil [OF assms(2)] by simp
next
  case (2 t ts)
  have t: "wf_forest anc num (n_children t)" "wf_forest anc num ts" "n_number t = num (n_hash t)"
    using 2(3) by (simp_all add: ancestry.wf_forest_Cons [OF assms(1)] wf_node_eq)
  have "wf_forest anc' num' (n_children t)" "wf_forest anc' num' ts"
    using 2(1) [OF t(1)] 2(2) [OF t(2)] 2(4,5) by simp_all
  moreover have "anc' (n_hash t) (n_hash c)" if c: "c \<in> set (n_children t)" for c
  proof -
    have "anc (n_hash t) (n_hash c)" using 2(3) c by (simp add: ancestry.wf_forest_Cons [OF assms(1)] wf_node_eq)
    then show ?thesis using 2(4) [of "n_hash t" "n_hash c"] root_hash [OF c] by simp
  qed
  moreover have "n_hash s \<noteq> n_hash t \<and> \<not> anc' (n_hash s) (n_hash t) \<and> \<not> anc' (n_hash t) (n_hash s)" if s: "s \<in> set ts" for s
  proof -
    have "n_hash s \<noteq> n_hash t \<and> \<not> anc (n_hash s) (n_hash t) \<and> \<not> anc (n_hash t) (n_hash s)"
      using 2(3) s by (simp add: ancestry.wf_forest_Cons [OF assms(1)])
    then show ?thesis using 2(4) [of "n_hash t" "n_hash s"] 2(4) [of "n_hash s" "n_hash t"] root_hash [OF s] by simp
  qed
  ultimately show ?case
    using t(3) 2(5) [of "n_hash t"] by (simp add: ancestry.wf_forest_Cons [OF assms(2)] wf_node_eq)
qed

lemma epochs_on_extended:
  assumes "wf_headers H" "epochs_on H s" "H h = None" "H p \<noteq> None"
  shows "wf_forest (header_anc (extended (Some (h, p)) H)) (num_of (extended (Some (h, p)) H)) (roots s)"
proof (rule wf_forest_cong [OF header_tree.ancestry_axioms header_tree.ancestry_axioms])
  show "wf_forest (header_anc H) (num_of H) (roots s)" using assms(2) by (simp add: epochs_on_def)
  have known: "H a \<noteq> None" if "a \<in> hashes (roots s)" for a using assms(2) that by (auto simp: epochs_on_def)
  show "header_anc (extended (Some (h, p)) H) a b \<longleftrightarrow> header_anc H a b" if "a \<in> hashes (roots s)" "b \<in> hashes (roots s)" for a b
    using extended_anc(1) [OF assms(1,3,4) known [OF that(2)]] by (simp add: extended_def)
  show "num_of (extended (Some (h, p)) H) a = num_of H a" if "a \<in> hashes (roots s)" for a
    using known [OF that] assms(3) by (auto simp: extended_def num_of_def)
qed

lemma header_ancestry: "ancestry (header_anc H) (num_of H)"
  by (rule header_tree.ancestry_axioms)

lemma item_in: "x \<in> set (forest ts) \<Longrightarrow> item x \<in># items ts"
  by (simp add: items_def)

lemma items_ball: "(\<forall>y\<in>#items ts. P (fst y) (snd (snd y))) \<longleftrightarrow> (\<forall>x\<in>set (forest ts). P (n_hash x) (n_data x))"
  by (auto simp: items_def item_def)

lemma epoch_for_child_of_latest:
  fixes build :: "'e descendent_builder"
  assumes build: "\<And>current a b. build current a b = Ok (header_anc (extended current H) a b)"
    and H: "wf_headers H" "epochs_on H s" "H parent \<noteq> None" "num_of H parent \<noteq> 0"
    and fake: "fake_head_hash parent = Some fake" "H fake = None"
  shows "\<exists>r. epoch_for_child_of T build parent (num_of H parent) slot mk s =
      Some (Ok (map_option (\<lambda>d. Regular (epoch_at T slot d)) r)) \<and>
    latest_started T H parent slot (items (roots s)) r"
proof -
  let ?H = "extended (Some (fake, parent)) H" and ?isd = "build (Some (fake, parent))"
  let ?p = "started T slot"
  have wf: "wf_forest (header_anc ?H) (num_of ?H) (roots s)"
    using epochs_on_extended [OF H(1,2) fake(2) H(3)] .
  have num: "num_of ?H fake = num_of H parent + 1" by (simp add: extended_def num_of_def)
  have branch: "header_anc ?H a fake \<longleftrightarrow> on_branch H parent a" for a
    using extended_anc(2) [OF H(1) fake(2) H(3)] by (simp add: extended_def on_branch_def)
  have anc: "header_anc ?H a b \<longleftrightarrow> header_anc H a b" if "b \<in> hashes (roots s)" for a b
    using extended_anc(1) [OF H(1) fake(2) H(3)] that H(2) by (auto simp: extended_def epochs_on_def)
  have "(\<exists>x. find_node_where s fake (num_of H parent + 1) ?isd ?p = Some (Ok (Some x)) \<and>
      deepest (header_anc ?H) fake ?p (forest (roots s)) x) \<or>
    find_node_where s fake (num_of H parent + 1) ?isd ?p = Some (Ok None) \<and>
      (\<forall>x\<in>set (forest (roots s)). \<not> candidate (header_anc ?H) fake ?p x)"
    using ancestry.find_in_roots_deepest [OF header_ancestry build wf, of fake ?p]
    by (simp add: find_node_where_def num)
  then show ?thesis
  proof (elim disjE exE conjE)
    fix x assume x: "find_node_where s fake (num_of H parent + 1) ?isd ?p = Some (Ok (Some x))"
      "deepest (header_anc ?H) fake ?p (forest (roots s)) x"
    have xs: "x \<in> set (forest (roots s))" "on_branch H parent (n_hash x)" "?p (n_data x)"
      using x(2) branch by (auto simp: deepest_def candidate_def)
    have "n_hash x \<in> hashes (roots s)" using xs(1) by (simp add: hashes_def)
    then have "\<forall>y\<in>set (forest (roots s)). on_branch H parent (n_hash y) \<and> ?p (n_data y) \<longrightarrow>
        n_hash y = n_hash x \<or> header_anc H (n_hash y) (n_hash x)"
      using x(2) branch anc by (auto simp: deepest_def candidate_def)
    then have "latest_started T H parent slot (items (roots s)) (Some (n_data x))"
      using xs item_in [OF xs(1)]
        items_ball [of "roots s" "\<lambda>h d. on_branch H parent h \<and> ?p d \<longrightarrow> h = n_hash x \<or> header_anc H h (n_hash x)"]
      by (auto simp: latest_started_def item_def intro!: bexI [of _ "item x"])
    then show ?thesis
      using x(1) fake(1) H(4) by (intro exI [of _ "Some (n_data x)"]) (simp add: epoch_for_child_of_def)
  next
    assume n: "find_node_where s fake (num_of H parent + 1) ?isd ?p = Some (Ok None)"
      "\<forall>x\<in>set (forest (roots s)). \<not> candidate (header_anc ?H) fake ?p x"
    then have "latest_started T H parent slot (items (roots s)) None"
      using items_ball [of "roots s" "\<lambda>h d. on_branch H parent h \<longrightarrow> \<not> ?p d"] branch
      by (auto simp: latest_started_def candidate_def)
    then show ?thesis
      using n(1) fake(1) H(4) by (intro exI [of _ None]) (simp add: epoch_for_child_of_def)
  qed
qed

lemma epoch_prune_effect:
  fixes build :: "'e descendent_builder"
  assumes build: "\<And>current a b. build current a b = Ok (header_anc (extended current H) a b)"
    and H: "wf_headers H" "epochs_on H s"
  obtains s' where "prune_finalized T build f (num_of H f) slot s = Some (Ok (), s')" "epochs_on H s'"
    "(\<forall>x\<in>set (forest (roots s)). \<not> candidate (header_anc H) f (ended T slot) x) \<and> items (roots s') = items (roots s) \<or>
     (\<exists>x. deepest (header_anc H) f (ended T slot) (forest (roots s)) x \<and>
       items (roots s') = add_mset (item x) (filter_mset (\<lambda>y. \<exists>c\<in>set (n_children x).
         (n_hash c = f \<or> header_anc H (n_hash c) f) \<and> (fst y = n_hash c \<or> header_anc H (n_hash c) (fst y))) (items (roots s))))"
proof -
  have wf: "wf_forest (header_anc H) (num_of H) (roots s)" using H(2) by (simp add: epochs_on_def)
  have isd: "build None a b = Ok (header_anc H a b)" for a b using build [of None] by (simp add: extended_def)
  obtain s' where s': "prune s f (num_of H f) (build None) (ended T slot) = Some (Ok (), s')"
    "wf_forest (header_anc H) (num_of H) (roots s')"
    "if \<exists>x\<in>set (forest (roots s)). candidate (header_anc H) f (ended T slot) x
     then \<exists>x. deepest (header_anc H) f (ended T slot) (forest (roots s)) x \<and>
       items (roots s') = add_mset (item x) (filter_mset (\<lambda>y. \<exists>c\<in>set (n_children x).
         (n_hash c = f \<or> header_anc H (n_hash c) f) \<and> (fst y = n_hash c \<or> header_anc H (n_hash c) (fst y))) (items (roots s)))
     else items (roots s') = items (roots s)"
    using ancestry.prune_effect [OF header_ancestry isd wf, of f "ended T slot"] by blast
  have "set_mset (items (roots s')) \<subseteq> set_mset (items (roots s))"
    using s'(3) item_in by (auto simp: deepest_def split: if_splits)
  then have "hashes (roots s') \<subseteq> hashes (roots s)" by (auto simp: hashes_items)
  then have "epochs_on H s'" using s'(2) H(2) by (auto simp: epochs_on_def)
  then show ?thesis using s' by (intro that [of s']) (auto simp: prune_finalized_def split: if_splits)
qed

lemma items_unique:
  assumes "epochs_on H s" "y \<in># items (roots s)" "z \<in># items (roots s)" "fst y = fst z"
  shows "y = z"
proof -
  obtain a b where "a \<in> set (forest (roots s))" "b \<in> set (forest (roots s))" "y = item a" "z = item b"
    using assms(2,3) by (auto simp: items_def)
  then show ?thesis
    using ancestry.same_node [OF header_ancestry, of H "roots s" a b] assms(1,4) by (simp add: epochs_on_def)
qed

lemma latest_started_unique:
  assumes "epochs_on H s" "latest_started T H p slot (items (roots s)) r" "set_mset M' \<subseteq> set_mset (items (roots s))"
    and "latest_started T H p slot M' r'"
    and "\<And>y. y \<in># items (roots s) \<Longrightarrow> on_branch H p (fst y) \<Longrightarrow> started T slot (snd (snd y)) \<Longrightarrow>
      (\<forall>z\<in>#items (roots s). on_branch H p (fst z) \<and> started T slot (snd (snd z)) \<longrightarrow> fst z = fst y \<or> header_anc H (fst z) (fst y)) \<Longrightarrow>
      y \<in># M'"
  shows "r' = r"
proof (cases r)
  case None
  then show ?thesis using assms(2-4) by (cases r') (auto simp: latest_started_def)
next
  case (Some d)
  then obtain y where y: "y \<in># items (roots s)" "snd (snd y) = d" "on_branch H p (fst y)" "started T slot d"
    and max: "\<forall>z\<in>#items (roots s). on_branch H p (fst z) \<and> started T slot (snd (snd z)) \<longrightarrow> fst z = fst y \<or> header_anc H (fst z) (fst y)"
    using assms(2) by (auto simp: latest_started_def)
  have y': "y \<in># M'" using assms(5) [OF y(1,3) _ max] y(2,4) by simp
  obtain d' where d': "r' = Some d'" using assms(4) y' y by (cases r') (auto simp: latest_started_def)
  obtain z where z: "z \<in># M'" "snd (snd z) = d'" "on_branch H p (fst z)" "started T slot d'"
    "\<forall>w\<in>#M'. on_branch H p (fst w) \<and> started T slot (snd (snd w)) \<longrightarrow> fst w = fst z \<or> header_anc H (fst w) (fst z)"
    using assms(4) d' unfolding latest_started_def by auto
  have "z \<in># items (roots s)" using z(1) assms(3) by blast
  moreover have "fst z = fst y \<or> header_anc H (fst z) (fst y)" using max calculation z(2,3,4) by blast
  moreover have "fst y = fst z \<or> header_anc H (fst y) (fst z)" using z(5) y' y by blast
  ultimately have "y = z" using items_unique [OF assms(1) y(1)] header_tree.anc_asym [of H "fst z" "fst y"] by metis
  then show ?thesis using Some d' y(2) z(2) by simp
qed

text \<open>The epoch announced last is among those that pruning keeps.\<close>

lemma kept_latest:
  assumes "epochs_on H s" "deepest (header_anc H) f p (forest (roots s)) x"
    and "\<And>c. c \<in> set (n_children x) \<Longrightarrow> \<not> header_anc H f (n_hash c)"
    and its: "items (roots s') = add_mset (item x) (filter_mset (\<lambda>y. \<exists>c\<in>set (n_children x).
      (n_hash c = f \<or> header_anc H (n_hash c) f) \<and> (fst y = n_hash c \<or> header_anc H (n_hash c) (fst y))) (items (roots s)))"
    and "n_hash x = fst y \<or> header_anc H (n_hash x) (fst y)"
    and y: "y \<in># items (roots s)" "on_branch H parent (fst y)" and f: "parent = f \<or> header_anc H f parent"
  shows "y \<in># items (roots s')"
proof (cases "n_hash x = fst y")
  case True
  have "item x \<in># items (roots s)" using assms(2) item_in by (auto simp: deepest_def)
  then have "y = item x" using items_unique [OF assms(1) y(1)] True by simp
  then show ?thesis using its by simp
next
  case False
  then have xy: "header_anc H (n_hash x) (fst y)" using assms(5) by blast
  have wf: "wf_forest (header_anc H) (num_of H) (roots s)" using assms(1) by (simp add: epochs_on_def)
  obtain b where b: "b \<in> set (forest (roots s))" "y = item b" using y(1) by (auto simp: items_def)
  have "x \<in> set (forest (roots s))" using assms(2) by (simp add: deepest_def)
  then have "b \<in> set (forest (n_children x))"
    using ancestry.mirror [OF header_ancestry wf _ b(1)] xy b(2) by simp
  moreover have "wf_forest (header_anc H) (num_of H) (n_children x)"
    using ancestry.wf_forest_nodes [OF header_ancestry wf \<open>x \<in> set (forest (roots s))\<close>] by (simp add: wf_node_eq)
  ultimately obtain c where c: "c \<in> set (n_children x)" "b = c \<or> header_anc H (n_hash c) (n_hash b)"
    using ancestry.above_forest [OF header_ancestry] by blast
  then have cp: "n_hash c = parent \<or> header_anc H (n_hash c) parent"
    using y(2) b(2) header_tree.anc_trans [of H "n_hash c" "n_hash b" parent] by (auto simp: on_branch_def)
  have "n_hash c = f \<or> header_anc H (n_hash c) f \<or> header_anc H f (n_hash c)"
    using ancestry.branches [OF header_ancestry cp, of f] f by auto
  then have "n_hash c = f \<or> header_anc H (n_hash c) f" using assms(3) c(1) by blast
  then show ?thesis using its c y(1) b(2) by auto
qed

section \<open>Properties\<close>

text \<open>
  C32. The epoch for a child of a block, at a slot, is always found out: after the genesis block it is the
  genesis epoch; otherwise it is, of all epochs announced at the block or before it on its branch and
  started by the slot, the one announced last, and there is no epoch if none has started.
\<close>

theorem epoch_for_child_of_correct:
  assumes "\<And>current a b. build current a b = Ok (header_anc (extended current H) a b)"
    and "wf_headers H" "epochs_on H s" "H parent \<noteq> None" "fake_head_hash parent = Some fake" "H fake = None"
  shows "\<exists>r. epoch_for_child_of T build parent (num_of H parent) slot mk s = Some (Ok r) \<and>
    (if num_of H parent = 0 then r = Some (Genesis (mk slot))
     else \<exists>d. latest_started T H parent slot (items (roots s)) d \<and> r = map_option (\<lambda>d. Regular (epoch_at T slot d)) d)"
proof (cases "num_of H parent = 0")
  case True
  then show ?thesis using assms(5) by (simp add: epoch_for_child_of_def)
next
  case False
  then show ?thesis
    using epoch_for_child_of_latest [OF assms(1,2,3,4) False assms(5,6), of T slot mk] by auto
qed

text \<open>
  C33. Importing the epoch a new block announces files it under the block, and the tree is in the order of
  the chain with the block added; only a block at or below the best finalized number is refused.
\<close>

theorem epoch_import_correct:
  assumes "\<And>current a b. build current a b = Ok (header_anc (extended current H) a b)"
    and "wf_headers H" "epochs_on H s" "H parent \<noteq> None" "H h = None"
  shows "\<exists>r s'. epoch_import build h (Suc (num_of H parent)) parent (IncrementedEpoch e) s = (r, s') \<and>
    epochs_on (extended (Some (h, parent)) H) s' \<and>
    (if reverts s (Suc (num_of H parent)) then r = Err Revert \<and> s' = s
     else r = Ok () \<and> items (roots s') = add_mset (h, Suc (num_of H parent), e) (items (roots s)))"
proof -
  let ?H = "extended (Some (h, parent)) H"
  have wf: "wf_forest (header_anc ?H) (num_of ?H) (roots s)"
    using epochs_on_extended [OF assms(2,3,5,4)] .
  have dom: "hashes (roots s) \<subseteq> dom H" using assms(3) by (simp add: epochs_on_def)
  have num: "num_of ?H h = Suc (num_of H parent)" by (simp add: extended_def num_of_def)
  have dom': "dom ?H = insert h (dom H)" by (simp add: extended_def)
  have fresh: "h \<notin> hashes (roots s)" using dom assms(5) by auto
  have last: "\<not> header_anc ?H h x" if "x \<in> hashes (roots s)" for x
  proof -
    have "H x \<noteq> None" using dom that by auto
    then have "header_anc ?H h x \<longleftrightarrow> header_anc H h x"
      using extended_anc(1) [OF assms(2,5,4)] by (simp add: extended_def)
    then show ?thesis using above_known [of H h x] \<open>H x \<noteq> None\<close> assms(5) by (auto simp: above_def)
  qed
  obtain r s' where imp: "import s h (num_of ?H h) e (build (Some (h, parent))) = (r, s')"
    "wf_forest (header_anc ?H) (num_of ?H) (roots s')"
    "if reverts s (num_of ?H h) then r = Err Revert \<and> s' = s
     else r = Ok (\<forall>x\<in>hashes (roots s). \<not> header_anc ?H x h) \<and>
       items (roots s') = add_mset (h, num_of ?H h, e) (items (roots s))"
    using ancestry.import_effect [OF header_ancestry assms(1) wf last, of e] fresh by (auto split: if_splits)
  then have "hashes (roots s') \<subseteq> dom ?H" using dom dom' by (auto simp: hashes_items split: if_splits)
  then have "epochs_on ?H s'" using imp(2) by (simp add: epochs_on_def)
  then show ?thesis using imp(1,3) num by (auto simp: epoch_import_def split: if_splits)
qed


section \<open>A small chain of blocks and epochs\<close>

text \<open>Block 1 announces the epoch from slot 10 to 20, block 2 the one from slot 20 to 30.\<close>

definition small_headers :: "8 word list headers" where
  "small_headers = [[0] \<mapsto> (0, [9]), [1] \<mapsto> (1, [0]), [2] \<mapsto> (2, [1]), [3] \<mapsto> (3, [2])]"

definition small_epoch :: "nat \<Rightarrow> nat BabeEpoch" where
  "small_epoch i = \<lparr>epoch_index = i, babe_start_slot = 10 * i, duration = 10, authorities = [], randomness = []\<rparr>"

definition small_epochs :: "nat BabeEpoch EpochChanges" where
  "small_epochs = \<lparr>roots = [Node [1] 1 (PersistedGenesis (small_epoch 0) (small_epoch 1))
     [Node [2] 2 (PersistedRegular (small_epoch 2)) []]], best_finalized_number = None\<rparr>"

definition small_build :: "unit descendent_builder" where
  "small_build current a b = Ok (header_anc (extended current small_headers) a b)"

lemma small_headers_wf: "wf_headers small_headers"
  by (auto simp: small_headers_def wf_headers_def num_of_def parent_of_def)

lemma small_anc: "header_anc small_headers [1] [2]"
  using parents.one [of small_headers "[2]" "[1]"] small_headers_wf
  by (simp add: header_anc_def) (simp add: small_headers_def parent_of_def)

lemma small_epochs_on: "epochs_on small_headers small_epochs"
proof -
  have "wf_forest (header_anc small_headers) (num_of small_headers) (roots small_epochs)"
    using header_tree.anc_num [of small_headers "[1]" "[1]"] header_tree.anc_num [of small_headers "[2]" "[2]"] small_anc
    by (auto simp: small_epochs_def wf_forest_def separate_def) (simp_all add: small_headers_def num_of_def)
  then show ?thesis by (simp add: epochs_on_def) (simp add: small_epochs_def small_headers_def)
qed

lemma small_later: "\<not> header_anc small_headers [3] (n_hash c)"
  if "deepest (header_anc small_headers) f p (forest (roots small_epochs)) x" "c \<in> set (n_children x)"
proof
  assume "header_anc small_headers [3] (n_hash c)"
  then have "num_of small_headers [3] < num_of small_headers (n_hash c)" by (rule header_tree.anc_num)
  moreover have "n_hash c = [2]" using that by (auto simp: deepest_def small_epochs_def)
  ultimately show False by (simp add: small_headers_def num_of_def)
qed

theorem epoch_for_child_of_correct_witness:
  "\<exists>d. latest_started babe_epoch small_headers [3] 25 (items (roots small_epochs)) d \<and>
     epoch_for_child_of babe_epoch small_build [3] 3 25 small_epoch small_epochs =
       Some (Ok (map_option (\<lambda>d. Regular (epoch_at babe_epoch 25 d)) d))"
  using epoch_for_child_of_correct [OF _ small_headers_wf small_epochs_on, of small_build "[3]" "[0x83]" babe_epoch 25 small_epoch]
  by (auto simp: small_build_def small_headers_def num_of_def fake_head_hash_def)

theorem epoch_import_correct_witness:
  "\<exists>s'. epoch_import small_build [4] 4 [3] (IncrementedEpoch (PersistedRegular (small_epoch 3))) small_epochs = (Ok (), s') \<and>
     items (roots s') = add_mset ([4], 4, PersistedRegular (small_epoch 3)) (items (roots small_epochs))"
  using epoch_import_correct [OF _ small_headers_wf small_epochs_on, of small_build "[3]" "[4]" "PersistedRegular (small_epoch 3)"]
  by (auto simp: small_build_def small_headers_def num_of_def reverts_def small_epochs_def)


end
