(* ===== verification/Allocator.thy ===== *)
theory Allocator
  imports Era "HOL-Library.Word"
begin

text \<open>
  The freeing bump allocator of the runtime's linear memory
  (\<open>primitives/allocator/src/freeing_bump.rs\<close>). Pointers and sizes are 32 bit words and headers 64 bit
  words, with the operators of a release build. The trait \<open>Memory\<close> is a record of operations; the slice
  of bytes implements it. An outer \<open>None\<close> is a panic.
\<close>

unbundle bit_operations_syntax

section \<open>Errors and the trait Memory\<close>

datatype AllocError = RequestedAllocationTooLarge | AllocatorOutOfSpace | AllocOther string

record 'm Memory =
  read_le_u64 :: "'m \<Rightarrow> 32 word \<Rightarrow> (64 word, AllocError) result"
  write_le_u64 :: "'m \<Rightarrow> 32 word \<Rightarrow> 64 word \<Rightarrow> (unit, AllocError) result \<times> 'm"
  mem_size :: "'m \<Rightarrow> 32 word option"

section \<open>Slices of bytes\<close>

definition from_le_bytes :: "8 word list \<Rightarrow> 64 word" where
  "from_le_bytes bs = foldr (\<lambda>b acc. ucast b OR push_bit 8 acc) bs 0"

definition to_le_bytes :: "64 word \<Rightarrow> 8 word list" where
  "to_le_bytes v = map (\<lambda>i. ucast (drop_bit (8 * i) v)) [0..<8]"

definition heap_range :: "32 word \<Rightarrow> 32 word \<Rightarrow> nat \<Rightarrow> (nat \<times> nat) option" where
  "heap_range offset len heap_len =
     (case checked_add 32 (unat offset) (unat len) of
        None \<Rightarrow> None
      | Some e \<Rightarrow> if e \<le> heap_len then Some (unat offset, e) else None)"

definition slice_read :: "8 word list \<Rightarrow> 32 word \<Rightarrow> (64 word, AllocError) result" where
  "slice_read m ptr =
     (case heap_range ptr 8 (length m) of
        None \<Rightarrow> Err (AllocOther ''read out of heap bounds'')
      | Some (a, b) \<Rightarrow> Ok (from_le_bytes (take (b - a) (drop a m))))"

definition slice_write :: "8 word list \<Rightarrow> 32 word \<Rightarrow> 64 word \<Rightarrow> (unit, AllocError) result \<times> 8 word list" where
  "slice_write m ptr val =
     (case heap_range ptr 8 (length m) of
        None \<Rightarrow> (Err (AllocOther ''write out of heap bounds''), m)
      | Some (a, b) \<Rightarrow> (Ok (), take a m @ to_le_bytes val @ drop b m))"

definition slice_size :: "8 word list \<Rightarrow> 32 word option" where
  "slice_size m = (if length m < 2 ^ 32 then Some (of_nat (length m)) else None)"

definition slice_memory :: "8 word list Memory" where
  "slice_memory = \<lparr>read_le_u64 = slice_read, write_le_u64 = slice_write, mem_size = slice_size\<rparr>"

section \<open>Orders\<close>

definition ALIGNMENT :: "32 word" where "ALIGNMENT = 8"

definition N_ORDERS :: nat where "N_ORDERS = 22"

definition MAX_POSSIBLE_ALLOCATION :: "32 word" where "MAX_POSSIBLE_ALLOCATION = 16777216"

definition MIN_POSSIBLE_ALLOCATION :: "32 word" where "MIN_POSSIBLE_ALLOCATION = 8"

definition HEADER_SIZE :: "32 word" where "HEADER_SIZE = 8"

datatype Order = Order (raw_order: "32 word")

definition order_from_raw :: "32 word \<Rightarrow> (Order, AllocError) result" where
  "order_from_raw order =
     (if order < of_nat N_ORDERS then Ok (Order order) else Err (AllocOther ''invalid order''))"

text \<open>\<open>u32::next_power_of_two\<close> and \<open>u32::trailing_zeros\<close>.\<close>

definition next_power_of_two :: "32 word \<Rightarrow> 32 word" where
  "next_power_of_two n = (case next_pow2_from 32 1 (unat n) of Some p \<Rightarrow> of_nat p | None \<Rightarrow> 0)"

definition word_trailing_zeros :: "32 word \<Rightarrow> 32 word" where
  "word_trailing_zeros n = of_nat (trailing_zeros_from 32 (unat n))"

definition order_from_size :: "32 word \<Rightarrow> (Order, AllocError) result" where
  "order_from_size sz =
     (if sz > MAX_POSSIBLE_ALLOCATION then Err RequestedAllocationTooLarge
      else let clamped_size = (if sz < MIN_POSSIBLE_ALLOCATION then MIN_POSSIBLE_ALLOCATION else sz);
               power_of_two_size = next_power_of_two clamped_size;
               order = word_trailing_zeros power_of_two_size - word_trailing_zeros MIN_POSSIBLE_ALLOCATION
           in Ok (Order order))"

text \<open>The shift distance of a release build is taken modulo the width.\<close>

definition order_size :: "Order \<Rightarrow> 32 word" where
  "order_size order = push_bit (unat (raw_order order) mod 32) MIN_POSSIBLE_ALLOCATION"

section \<open>Links and headers\<close>

definition EMPTY_MARKER :: "32 word" where "EMPTY_MARKER = - 1"

datatype Link = Null | Ptr "32 word"

definition link_from_raw :: "32 word \<Rightarrow> Link" where
  "link_from_raw raw = (if raw \<noteq> EMPTY_MARKER then Ptr raw else Null)"

fun link_into_raw :: "Link \<Rightarrow> 32 word" where
  "link_into_raw Null = EMPTY_MARKER"
| "link_into_raw (Ptr ptr) = ptr"

datatype Header = Free Link | Occupied Order

definition header_read_from :: "'m Memory \<Rightarrow> 'm \<Rightarrow> 32 word \<Rightarrow> (Header, AllocError) result" where
  "header_read_from M memory header_ptr =
     and_then (read_le_u64 M memory header_ptr) (\<lambda>raw_header.
       let occupied = (raw_header AND 0x100000000 \<noteq> 0);
           header_data = ucast raw_header
       in if occupied then and_then (order_from_raw header_data) (\<lambda>order. Ok (Occupied order))
          else Ok (Free (link_from_raw header_data)))"

definition header_raw :: "Header \<Rightarrow> 64 word" where
  "header_raw h =
     (let (header_data, occupied_mask) =
        (case h of Occupied order \<Rightarrow> (raw_order order, 0x100000000) | Free link \<Rightarrow> (link_into_raw link, 0))
      in ucast header_data OR occupied_mask)"

definition header_write_into ::
  "'m Memory \<Rightarrow> Header \<Rightarrow> 'm \<Rightarrow> 32 word \<Rightarrow> (unit, AllocError) result \<times> 'm" where
  "header_write_into M h memory header_ptr = write_le_u64 M memory header_ptr (header_raw h)"

fun into_occupied :: "Header \<Rightarrow> Order option" where
  "into_occupied (Occupied order) = Some order"
| "into_occupied (Free _) = None"

fun into_free :: "Header \<Rightarrow> Link option" where
  "into_free (Free link) = Some link"
| "into_free (Occupied _) = None"

section \<open>Free lists\<close>

record FreeLists =
  heads :: "Link list"

definition free_lists_new :: FreeLists where
  "free_lists_new = \<lparr>heads = replicate N_ORDERS Null\<rparr>"

definition free_lists_index :: "FreeLists \<Rightarrow> Order \<Rightarrow> Link option" where
  "free_lists_index f i =
     (if unat (raw_order i) < length (heads f) then Some (heads f ! unat (raw_order i)) else None)"

definition free_lists_put :: "FreeLists \<Rightarrow> Order \<Rightarrow> Link \<Rightarrow> FreeLists option" where
  "free_lists_put f i l =
     (if unat (raw_order i) < length (heads f) then Some (f\<lparr>heads := (heads f)[unat (raw_order i) := l]\<rparr>) else None)"

definition free_lists_replace :: "FreeLists \<Rightarrow> Order \<Rightarrow> Link \<Rightarrow> (Link \<times> FreeLists) option" where
  "free_lists_replace f order new =
     (case free_lists_index f order of
        None \<Rightarrow> None
      | Some prev \<Rightarrow> map_option (\<lambda>f'. (prev, f')) (free_lists_put f order new))"

section \<open>The allocator\<close>

record FreeingBumpHeapAllocator =
  bumper :: "32 word"
  free_lists :: FreeLists
  total_size :: "32 word"

definition allocator_new :: "32 word \<Rightarrow> FreeingBumpHeapAllocator" where
  "allocator_new heap_base =
     (let aligned_heap_base = (heap_base + ALIGNMENT - 1) div ALIGNMENT * ALIGNMENT in
      \<lparr>bumper = aligned_heap_base, free_lists = free_lists_new, total_size = 0\<rparr>)"

definition bump ::
  "32 word \<Rightarrow> 32 word \<Rightarrow> FreeingBumpHeapAllocator \<Rightarrow> (32 word, AllocError) result \<times> FreeingBumpHeapAllocator" where
  "bump sz heap_end s =
     (if bumper s + sz > heap_end then (Err AllocatorOutOfSpace, s)
      else (Ok (bumper s), s\<lparr>bumper := bumper s + sz\<rparr>))"

text \<open>The \<open>match\<close> of \<open>allocate\<close>, which finds the chunk for an allocation.\<close>

definition find_chunk ::
  "'m Memory \<Rightarrow> 'm \<Rightarrow> Order \<Rightarrow> FreeingBumpHeapAllocator \<Rightarrow>
   ((32 word, AllocError) result \<times> FreeingBumpHeapAllocator) option" where
  "find_chunk M mem order s =
     (case free_lists_index (free_lists s) order of
        None \<Rightarrow> None
      | Some (Ptr header_ptr) \<Rightarrow>
          (case mem_size M mem of
             None \<Rightarrow> None
           | Some n \<Rightarrow>
               if \<not> header_ptr + order_size order + HEADER_SIZE \<le> n then None
               else (case and_then (header_read_from M mem header_ptr)
                            (\<lambda>h. ok_or (into_free h) (AllocOther ''free list points to a occupied header'')) of
                       Inl e \<Rightarrow> Some (Err e, s)
                     | Inr next_free \<Rightarrow>
                         map_option (\<lambda>f. (Ok header_ptr, s\<lparr>free_lists := f\<rparr>))
                           (free_lists_put (free_lists s) order next_free)))
      | Some Null \<Rightarrow>
          (case mem_size M mem of
             None \<Rightarrow> None
           | Some n \<Rightarrow> Some (bump (order_size order + HEADER_SIZE) n s)))"

definition allocate ::
  "'m Memory \<Rightarrow> 32 word \<Rightarrow> FreeingBumpHeapAllocator \<Rightarrow> 'm \<Rightarrow>
   ((32 word, AllocError) result \<times> FreeingBumpHeapAllocator \<times> 'm) option" where
  "allocate M sz s mem =
     (case order_from_size sz of
        Inl e \<Rightarrow> Some (Err e, s, mem)
      | Inr order \<Rightarrow>
          (case find_chunk M mem order s of
             None \<Rightarrow> None
           | Some (Inl e, s1) \<Rightarrow> Some (Err e, s1, mem)
           | Some (Inr header_ptr, s1) \<Rightarrow>
               (case header_write_into M (Occupied order) mem header_ptr of
                  (Inl e, mem1) \<Rightarrow> Some (Err e, s1, mem1)
                | (Inr _, mem1) \<Rightarrow>
                    Some (Ok (header_ptr + HEADER_SIZE),
                      s1\<lparr>total_size := total_size s1 + (order_size order + HEADER_SIZE)\<rparr>, mem1))))"

definition deallocate ::
  "'m Memory \<Rightarrow> 32 word \<Rightarrow> FreeingBumpHeapAllocator \<Rightarrow> 'm \<Rightarrow>
   ((unit, AllocError) result \<times> FreeingBumpHeapAllocator \<times> 'm) option" where
  "deallocate M ptr s mem =
     (if ptr < HEADER_SIZE then Some (Err (AllocOther ''Invalid pointer for deallocation''), s, mem)
      else let header_ptr = ptr - HEADER_SIZE in
        case and_then (header_read_from M mem header_ptr)
               (\<lambda>h. ok_or (into_occupied h) (AllocOther ''the allocation points to an empty header'')) of
          Inl e \<Rightarrow> Some (Err e, s, mem)
        | Inr order \<Rightarrow>
            (case free_lists_replace (free_lists s) order (Ptr header_ptr) of
               None \<Rightarrow> None
             | Some (prev_head, f) \<Rightarrow>
                 let s1 = s\<lparr>free_lists := f\<rparr> in
                 (case header_write_into M (Free prev_head) mem header_ptr of
                    (Inl e, mem1) \<Rightarrow> Some (Err e, s1, mem1)
                  | (Inr _, mem1) \<Rightarrow>
                      if total_size s1 < order_size order + HEADER_SIZE
                      then Some (Err (AllocOther ''Unable to subtract from total heap size without overflow''), s1, mem1)
                      else Some (Ok (), s1\<lparr>total_size := total_size s1 - (order_size order + HEADER_SIZE)\<rparr>, mem1))))"

end
