(* ===== verification/Allocator_Props.thy ===== *)
theory Allocator_Props
  imports Allocator
begin

text \<open>
  The allocator hands out blocks that are aligned, lie in the memory and never overlap. An abstract
  specification says what a heap of blocks promises, and the allocator on a linear memory is shown to
  implement it, for every program that writes to its own blocks only.
\<close>

section \<open>Sizes and orders\<close>

abbreviation block_size :: "nat \<Rightarrow> nat" where
  "block_size k \<equiv> 8 * 2 ^ k"

lemma block_size_bound: "k < 22 \<Longrightarrow> block_size k \<le> 2 ^ 24"
  using power_increasing [of k 21 "2::nat"] by simp

lemma unat_order_size: "k < 22 \<Longrightarrow> unat (order_size (Order (of_nat k))) = block_size k"
proof -
  assume k: "k < 22"
  have "(push_bit k 8 :: 32 word) = of_nat (block_size k)" by (simp add: push_bit_eq_mult)
  moreover have "unat (of_nat k :: 32 word) = k" using k by (simp add: unat_of_nat take_bit_nat_eq_self)
  ultimately show ?thesis
    using block_size_bound [OF k] k
    by (simp add: order_size_def MIN_POSSIBLE_ALLOCATION_def unat_of_nat take_bit_nat_eq_self del: of_nat_mult of_nat_power)
qed

lemma unat_chunk_size: "k < 22 \<Longrightarrow> unat (order_size (Order (of_nat k)) + HEADER_SIZE) = block_size k + 8"
  using block_size_bound [of k] by (simp add: unat_word_ariths unat_order_size HEADER_SIZE_def)

lemma next_pow2_from_enough:
  "n \<le> p * 2 ^ j \<Longrightarrow> j < i \<Longrightarrow> \<exists>k\<le>j. next_pow2_from i p n = Some (p * 2 ^ k) \<and> n \<le> p * 2 ^ k \<and>
    (k = 0 \<or> p * 2 ^ k < 2 * n)"
proof (induction j arbitrary: i p)
  case 0
  then show ?case by (cases i) auto
next
  case (Suc j)
  then obtain i' where i: "i = Suc i'" by (cases i) auto
  show ?case
  proof (cases "n \<le> p")
    case True
    then show ?thesis using i by (intro exI [of _ 0]) simp
  next
    case False
    obtain k where "k \<le> j" "next_pow2_from i' (2 * p) n = Some (2 * p * 2 ^ k)" "n \<le> 2 * p * 2 ^ k"
      "k = 0 \<or> 2 * p * 2 ^ k < 2 * n"
      using Suc.IH [of "2 * p" i'] Suc.prems i by auto
    then show ?thesis using False i by (intro exI [of _ "Suc k"]) (auto simp: ac_simps)
  qed
qed

text \<open>Requests of up to 16 MiB get the order of a block that holds them.\<close>

lemma order_from_size_ok:
  assumes "unat sz \<le> 2 ^ 24"
  shows "\<exists>k<22. order_from_size sz = Ok (Order (of_nat k)) \<and> unat sz \<le> block_size k \<and> block_size k < 2 * max 8 (unat sz)"
proof -
  let ?c = "if sz < MIN_POSSIBLE_ALLOCATION then MIN_POSSIBLE_ALLOCATION else sz"
  have c: "8 \<le> unat ?c" "unat ?c \<le> 2 ^ 24" "unat sz \<le> unat ?c" "unat ?c = max 8 (unat sz)"
    using assms by (auto simp: MIN_POSSIBLE_ALLOCATION_def word_less_nat_alt)
  obtain j where j: "j \<le> 24" "next_pow2_from 32 1 (unat ?c) = Some (2 ^ j)" "unat ?c \<le> 2 ^ j"
      "j = 0 \<or> 2 ^ j < 2 * unat ?c"
    using next_pow2_from_enough [of "unat ?c" 1 24 32] c(2) by auto
  have "3 \<le> j"
  proof (rule ccontr)
    assume "\<not> 3 \<le> j"
    then have "2 ^ j \<le> (2::nat) ^ 2" by (intro power_increasing) auto
    then show False using c(1) j(3) by simp
  qed
  then obtain k where k: "j = k + 3" by (metis add.commute le_Suc_ex)
  have "(2::nat) ^ j < 2 ^ 32" using j(1) by (intro power_strict_increasing) auto
  then have "unat (of_nat (2 ^ j) :: 32 word) = 2 ^ j" by (simp add: unat_of_nat take_bit_nat_eq_self del: of_nat_power)
  then have "next_power_of_two ?c = of_nat (2 ^ j)" "word_trailing_zeros (of_nat (2 ^ j)) = of_nat j"
    using j trailing_zeros_from_pow2 [of j 32] by (simp_all add: next_power_of_two_def word_trailing_zeros_def del: of_nat_power)
  moreover have "word_trailing_zeros MIN_POSSIBLE_ALLOCATION = 3"
    using trailing_zeros_from_pow2 [of 3 32] by (simp add: word_trailing_zeros_def MIN_POSSIBLE_ALLOCATION_def)
  moreover have "\<not> sz > MAX_POSSIBLE_ALLOCATION" using assms by (simp add: MAX_POSSIBLE_ALLOCATION_def word_less_nat_alt)
  ultimately have "order_from_size sz = Ok (Order (of_nat k))" by (simp add: order_from_size_def Let_def k del: of_nat_power)
  then show ?thesis using j(1,3,4) c(3,4) k by (intro exI [of _ k]) (simp add: power_add)
qed

lemma order_from_size_large: "2 ^ 24 < unat sz \<Longrightarrow> order_from_size sz = Err RequestedAllocationTooLarge"
  by (simp add: order_from_size_def MAX_POSSIBLE_ALLOCATION_def word_less_nat_alt)

section \<open>Headers in memory\<close>

text \<open>What a header encodes to and decodes from: valid orders, and links other than the end marker.\<close>

fun header_ok :: "Header \<Rightarrow> bool" where
  "header_ok (Occupied order) \<longleftrightarrow> unat (raw_order order) < 22"
| "header_ok (Free Null) \<longleftrightarrow> True"
| "header_ok (Free (Ptr p)) \<longleftrightarrow> p \<noteq> EMPTY_MARKER"

lemma mask_bit: "bit (0x100000000 :: 64 word) n \<longleftrightarrow> n = 32"
proof -
  have "(0x100000000 :: 64 word) = 2 ^ 32" by simp
  then show ?thesis by (simp only: bit_exp_iff) auto
qed

lemma occupied_bit: "raw AND (0x100000000 :: 64 word) \<noteq> 0 \<longleftrightarrow> bit raw 32"
proof -
  have "(0x100000000 :: 64 word) = 2 ^ 32" by simp
  then show ?thesis by (simp only: and_exp_eq_0_iff_not_bit) simp
qed

lemma header_data:
  "ucast (ucast (x :: 32 word) OR (0x100000000 :: 64 word)) = x" "ucast (ucast (x :: 32 word) :: 64 word) = x"
proof -
  show "ucast (ucast x OR (0x100000000 :: 64 word)) = x"
  proof (rule bit_word_eqI)
    fix n assume "n < LENGTH(32)"
    then show "bit (ucast (ucast x OR (0x100000000 :: 64 word)) :: 32 word) n = bit x n"
      by (simp only: bit_simps mask_bit) auto
  qed
  show "ucast (ucast x :: 64 word) = x" by (rule bit_word_eqI) (simp add: bit_simps)
qed

lemma header_bit: "bit (header_raw h) 32 \<longleftrightarrow> (\<exists>order. h = Occupied order)"
  by (cases h) (auto simp: header_raw_def bit_simps mask_bit dest: bit_imp_le_length)

lemma header_roundtrip:
  assumes "read_le_u64 M m p = Ok (header_raw h)" "header_ok h"
  shows "header_read_from M m p = Ok h"
proof (cases h)
  case (Occupied order)
  then have "ucast (header_raw h) = raw_order order" by (simp add: header_raw_def header_data)
  moreover have "raw_order order < of_nat N_ORDERS" using assms(2) Occupied by (simp add: word_less_nat_alt N_ORDERS_def)
  ultimately show ?thesis
    using assms(1) Occupied header_bit [of h] by (simp add: header_read_from_def occupied_bit order_from_raw_def)
next
  case (Free l)
  have "ucast (header_raw h) = link_into_raw l" by (simp add: header_raw_def Free header_data)
  moreover have "link_from_raw (link_into_raw l) = l" using assms(2) Free by (cases l) (simp_all add: link_from_raw_def)
  ultimately show ?thesis using assms(1) Free header_bit [of h] by (simp add: header_read_from_def occupied_bit)
qed

section \<open>Linear memories\<close>

text \<open>
  What the allocator relies on of a memory. The function \<open>byte\<close> says what is stored at an address;
  reading a header depends on its eight bytes, and writing one changes no other byte.
\<close>

definition header_set :: "'m Memory \<Rightarrow> ('m \<Rightarrow> nat \<Rightarrow> 8 word) \<Rightarrow> 'm \<Rightarrow> 32 word \<Rightarrow> Header \<Rightarrow> 'm \<Rightarrow> bool" where
  "header_set M byte m p h m' \<longleftrightarrow> mem_size M m' = mem_size M m \<and> header_read_from M m' p = Ok h \<and>
     (\<forall>a. a < unat p \<or> unat p + 8 \<le> a \<longrightarrow> byte m' a = byte m a) \<and>
     (\<forall>q :: 32 word. unat q + 8 \<le> unat p \<or> unat p + 8 \<le> unat q \<longrightarrow> header_read_from M m' q = header_read_from M m q)"

lemma header_setD:
  assumes "header_set M byte m p h m'"
  shows "mem_size M m' = mem_size M m" "header_read_from M m' p = Ok h"
    "a < unat p \<or> unat p + 8 \<le> a \<Longrightarrow> byte m' a = byte m a"
    "unat (q :: 32 word) + 8 \<le> unat p \<or> unat p + 8 \<le> unat q \<Longrightarrow> header_read_from M m' q = header_read_from M m q"
  using assms unfolding header_set_def by blast+

locale linear_memory =
  fixes M :: "'m Memory" and byte :: "'m \<Rightarrow> nat \<Rightarrow> 8 word"
  assumes read_cong: "mem_size M m = Some n \<Longrightarrow> mem_size M m' = Some n \<Longrightarrow>
      (\<And>a. unat p \<le> a \<Longrightarrow> a < unat p + 8 \<Longrightarrow> byte m' a = byte m a) \<Longrightarrow> read_le_u64 M m' p = read_le_u64 M m p"
    and write_ok: "mem_size M m = Some n \<Longrightarrow> unat p + 8 \<le> unat n \<Longrightarrow>
      \<exists>m'. write_le_u64 M m p v = (Ok (), m') \<and> mem_size M m' = Some n \<and> read_le_u64 M m' p = Ok v \<and>
        (\<forall>a. a < unat p \<or> unat p + 8 \<le> a \<longrightarrow> byte m' a = byte m a)"
begin

lemma header_read_cong:
  assumes "mem_size M m = Some n" "mem_size M m' = Some n" "\<And>a. unat p \<le> a \<Longrightarrow> a < unat p + 8 \<Longrightarrow> byte m' a = byte m a"
  shows "header_read_from M m' p = header_read_from M m p"
  by (simp add: header_read_from_def read_cong [OF assms])

lemma header_write:
  assumes "mem_size M m = Some n" "unat p + 8 \<le> unat n" "header_ok h"
  shows "\<exists>m'. header_write_into M h m p = (Ok (), m') \<and> header_set M byte m p h m'"
proof -
  obtain m' where m': "write_le_u64 M m p (header_raw h) = (Ok (), m')" "mem_size M m' = Some n"
      "read_le_u64 M m' p = Ok (header_raw h)" "\<And>a. a < unat p \<or> unat p + 8 \<le> a \<Longrightarrow> byte m' a = byte m a"
    using write_ok [OF assms(1,2), of "header_raw h"] by blast
  have "header_read_from M m' q = header_read_from M m q" if "unat q + 8 \<le> unat p \<or> unat p + 8 \<le> unat q" for q :: "32 word"
    using that by (intro header_read_cong [OF assms(1) m'(2)]) (use m'(4) in auto)
  then show ?thesis
    using m'(1,2,4) assms(1) header_roundtrip [OF m'(3) assms(3)] by (simp add: header_write_into_def header_set_def)
qed

end

text \<open>Slices of bytes are linear memories.\<close>

lemma from_le_to_le: "from_le_bytes (to_le_bytes v) = v"
proof -
  have *: "foldr (\<lambda>b acc. ucast b OR push_bit 8 acc) (map (\<lambda>i. ucast (drop_bit (8 * i) w) :: 8 word) [0..<n]) (0 :: 64 word) =
      take_bit (8 * n) w" for n and w :: "64 word"
  proof (induction n arbitrary: w)
    case (Suc n)
    have "map (\<lambda>i. ucast (drop_bit (8 * i) w) :: 8 word) [0..<Suc n] =
        ucast w # map (\<lambda>i. ucast (drop_bit (8 * i) (drop_bit 8 w))) [0..<n]"
      by (simp add: upt_conv_Cons map_Suc_upt [symmetric] add.commute del: upt_Suc)
    moreover have "ucast (ucast w :: 8 word) OR push_bit 8 (take_bit (8 * n) (drop_bit 8 w)) = take_bit (8 * Suc n) w"
      by (rule bit_word_eqI) (auto simp: bit_simps)
    ultimately show ?case using Suc.IH [of "drop_bit 8 w"] by simp
  qed simp
  show ?thesis using * [of v 8] by (simp add: from_le_bytes_def to_le_bytes_def take_bit_word_eq_self)
qed

definition byte_at :: "8 word list \<Rightarrow> nat \<Rightarrow> 8 word" where
  "byte_at m a = (if a < length m then m ! a else 0)"

lemma unat_32: "unat (n :: 32 word) < 2 ^ 32"
  using unsigned_less [of n] by simp

lemma slice_size_Some: "slice_size m = Some n \<longleftrightarrow> length m = unat n"
  using unat_32 [of n] by (auto simp: slice_size_def unat_of_nat take_bit_nat_eq_self)

interpretation slice: linear_memory slice_memory byte_at
proof
  fix m m' :: "8 word list" and n p :: "32 word"
  assume "mem_size slice_memory m = Some n" "mem_size slice_memory m' = Some n"
    and bytes: "\<And>a. unat p \<le> a \<Longrightarrow> a < unat p + 8 \<Longrightarrow> byte_at m' a = byte_at m a"
  then have len: "length m' = length m" by (simp add: slice_memory_def slice_size_Some)
  have "take 8 (drop (unat p) m') = take 8 (drop (unat p) m)" if "unat p + 8 \<le> length m"
  proof (rule nth_equalityI)
    fix i assume "i < length (take 8 (drop (unat p) m'))"
    then show "take 8 (drop (unat p) m') ! i = take 8 (drop (unat p) m) ! i"
      using bytes [of "unat p + i"] that len by (simp add: byte_at_def)
  qed (use len in simp)
  then show "read_le_u64 slice_memory m' p = read_le_u64 slice_memory m p"
    using len by (simp add: slice_memory_def slice_read_def heap_range_def checked_add_def)
next
  fix m :: "8 word list" and n p :: "32 word" and v :: "64 word"
  assume n: "mem_size slice_memory m = Some n" "unat p + 8 \<le> unat n"
  let ?m = "take (unat p) m @ to_le_bytes v @ drop (unat p + 8) m"
  have len: "length m = unat n" "length (to_le_bytes v) = 8" using n(1) by (simp_all add: slice_memory_def slice_size_Some to_le_bytes_def)
  have lt: "unat p + 8 < 2 ^ 32" using n(2) unat_32 [of n] by simp
  have "write_le_u64 slice_memory m p v = (Ok (), ?m)"
    using n(2) len lt by (simp add: slice_memory_def slice_write_def heap_range_def checked_add_def)
  moreover have "length ?m = unat n" using n(2) len by simp
  moreover have "take 8 (drop (unat p) ?m) = to_le_bytes v" using n(2) len by simp
  moreover have "byte_at ?m a = byte_at m a" if "a < unat p \<or> unat p + 8 \<le> a" for a
    using that n(2) len by (auto simp: byte_at_def nth_append)
  ultimately show "\<exists>m'. write_le_u64 slice_memory m p v = (Ok (), m') \<and> mem_size slice_memory m' = Some n \<and>
      read_le_u64 slice_memory m' p = Ok v \<and> (\<forall>a. a < unat p \<or> unat p + 8 \<le> a \<longrightarrow> byte_at m' a = byte_at m a)"
    using n(2) lt len by (intro exI [of _ ?m])
      (simp add: slice_memory_def slice_size_Some slice_read_def heap_range_def checked_add_def from_le_to_le)
qed

section \<open>The invariant of the heap\<close>

text \<open>
  A chunk is a header, at a pointer, with the block of its order behind it. \<open>live\<close> holds the chunks
  that are handed out, and \<open>F k\<close> the chunks in the free list of order \<open>k\<close>.
\<close>

definition span :: "32 word \<times> nat \<Rightarrow> nat set" where
  "span c = {unat (fst c) ..< unat (fst c) + block_size (snd c) + 8}"

definition chunks :: "(32 word \<Rightarrow> nat option) \<Rightarrow> (nat \<Rightarrow> 32 word list) \<Rightarrow> (32 word \<times> nat) set" where
  "chunks live F = {(p, k). live p = Some k \<or> k < 22 \<and> p \<in> set (F k)}"

fun chain :: "(32 word \<Rightarrow> (Header, AllocError) result) \<Rightarrow> Link \<Rightarrow> 32 word list \<Rightarrow> bool" where
  "chain rd l [] \<longleftrightarrow> l = Null"
| "chain rd l (p # ps) \<longleftrightarrow> l = Ptr p \<and> (\<exists>l'. rd p = Ok (Free l') \<and> chain rd l' ps)"

text \<open>A heap that does not come within the largest chunk of the end of the address space.\<close>

definition heap_inv ::
  "(32 word \<Rightarrow> (Header, AllocError) result) \<Rightarrow> nat \<Rightarrow> nat \<Rightarrow> FreeingBumpHeapAllocator \<Rightarrow>
   (32 word \<Rightarrow> nat option) \<Rightarrow> (nat \<Rightarrow> 32 word list) \<Rightarrow> bool" where
  "heap_inv rd b n s live F \<longleftrightarrow>
     length (heads (free_lists s)) = 22 \<and> 8 dvd unat (bumper s) \<and> unat (bumper s) + 2 ^ 24 + 8 < 2 ^ 32 \<and>
     finite (dom live) \<and> unat (total_size s) = (\<Sum>p\<in>dom live. block_size (the (live p)) + 8) \<and>
     (\<forall>p k. live p = Some k \<longrightarrow> k < 22 \<and> rd p = Ok (Occupied (Order (of_nat k)))) \<and>
     (\<forall>k<22. chain rd (heads (free_lists s) ! k) (F k) \<and> distinct (F k)) \<and>
     b \<le> unat (bumper s) \<and>
     (\<forall>c\<in>chunks live F. 8 dvd unat (fst c) \<and> span c \<subseteq> {..<unat (bumper s)} \<and> span c \<subseteq> {..<n} \<and> b \<le> unat (fst c)) \<and>
     (\<forall>c\<in>chunks live F. \<forall>d\<in>chunks live F. c \<noteq> d \<longrightarrow> span c \<inter> span d = {})"

lemma chain_cong: "(\<And>p. p \<in> set ps \<Longrightarrow> rd' p = rd p) \<Longrightarrow> chain rd' l ps \<longleftrightarrow> chain rd l ps"
  by (induction ps arbitrary: l) auto

lemma chain_free: "chain rd l ps \<Longrightarrow> p \<in> set ps \<Longrightarrow> \<exists>l'. rd p = Ok (Free l')"
  by (induction ps arbitrary: l) auto

lemma chain_cases:
  assumes "chain rd l ps"
  obtains (empty) "l = Null" "ps = []" | (first) p qs l' where "l = Ptr p" "ps = p # qs" "rd p = Ok (Free l')" "chain rd l' qs"
  using assms by (cases ps) auto

lemma span_subset: "span (p, k) \<subseteq> {..<n} \<longleftrightarrow> unat p + block_size k + 8 \<le> n"
  by (simp add: span_def lessThan_atLeast0 ivl_subset del: atLeast0LessThan)

lemma span_disjoint:
  "span (p, k) \<inter> span (q, j) = {} \<longleftrightarrow> unat p + block_size k + 8 \<le> unat q \<or> unat q + block_size j + 8 \<le> unat p"
  by (simp add: span_def Int_atLeastLessThan) linarith

lemma heap_invD:
  assumes "heap_inv rd b n s live F"
  shows "length (heads (free_lists s)) = 22" "8 dvd unat (bumper s)" "unat (bumper s) + 2 ^ 24 + 8 < 2 ^ 32"
    "finite (dom live)" "unat (total_size s) = (\<Sum>p\<in>dom live. block_size (the (live p)) + 8)"
    "live p = Some k \<Longrightarrow> k < 22" "live p = Some k \<Longrightarrow> rd p = Ok (Occupied (Order (of_nat k)))"
    "k < 22 \<Longrightarrow> chain rd (heads (free_lists s) ! k) (F k)" "k < 22 \<Longrightarrow> distinct (F k)"
    "(p, k) \<in> chunks live F \<Longrightarrow> 8 dvd unat p"
    "(p, k) \<in> chunks live F \<Longrightarrow> unat p + block_size k + 8 \<le> unat (bumper s)"
    "(p, k) \<in> chunks live F \<Longrightarrow> unat p + block_size k + 8 \<le> n"
    "c \<in> chunks live F \<Longrightarrow> d \<in> chunks live F \<Longrightarrow> c \<noteq> d \<Longrightarrow> span c \<inter> span d = {}"
    "b \<le> unat (bumper s)" "(p, k) \<in> chunks live F \<Longrightarrow> b \<le> unat p"
proof -
  have *: "\<forall>c\<in>chunks live F. 8 dvd unat (fst c) \<and> span c \<subseteq> {..<unat (bumper s)} \<and> span c \<subseteq> {..<n} \<and> b \<le> unat (fst c)"
    using assms unfolding heap_inv_def by blast
  then show "(p, k) \<in> chunks live F \<Longrightarrow> 8 dvd unat p"
    "(p, k) \<in> chunks live F \<Longrightarrow> unat p + block_size k + 8 \<le> unat (bumper s)"
    "(p, k) \<in> chunks live F \<Longrightarrow> unat p + block_size k + 8 \<le> n"
    "(p, k) \<in> chunks live F \<Longrightarrow> b \<le> unat p"
    by (auto dest!: bspec simp: span_subset)
qed (use assms in \<open>simp_all add: heap_inv_def\<close>)

lemma separated:
  assumes "heap_inv rd b n s live F" "(p, k) \<in> chunks live F" "(q, j) \<in> chunks live F" "(q, j) \<noteq> (p, k)"
  shows "unat q + 8 \<le> unat p \<or> unat p + 8 \<le> unat q"
  using heap_invD(13) [OF assms(1,3,2,4)] by (auto simp: span_disjoint)

text \<open>Headers that keep their contents keep the invariant.\<close>

lemma heap_inv_cong:
  assumes "heap_inv rd b n s live F" "\<And>p k. (p, k) \<in> chunks live F \<Longrightarrow> rd' p = rd p"
  shows "heap_inv rd' b n s live F"
proof -
  have "rd' p = rd p" if "live p = Some k" for p k using assms(2) [of p k] that by (simp add: chunks_def)
  moreover have "chain rd' l (F k) \<longleftrightarrow> chain rd l (F k)" if "k < 22" for l k
    using assms(2) [of _ k] that by (intro chain_cong) (simp add: chunks_def)
  ultimately show ?thesis using assms(1) by (simp add: heap_inv_def)
qed

text \<open>The live chunks fit below the bumper.\<close>

lemma total_bound:
  assumes "heap_inv rd b n s live F"
  shows "unat (total_size s) \<le> unat (bumper s)"
proof -
  let ?S = "\<lambda>p. span (p, the (live p))"
  have c: "(p, the (live p)) \<in> chunks live F" if "p \<in> dom live" for p using that by (auto simp: chunks_def)
  have "unat (total_size s) = (\<Sum>p\<in>dom live. card (?S p))" by (simp add: heap_invD(5) [OF assms] span_def)
  also have "\<dots> = card (\<Union>p\<in>dom live. ?S p)"
  proof (rule card_UN_disjoint [symmetric])
    show "\<forall>p\<in>dom live. \<forall>q\<in>dom live. p \<noteq> q \<longrightarrow> ?S p \<inter> ?S q = {}"
      using heap_invD(13) [OF assms c c] by simp
  qed (simp_all add: heap_invD(4) [OF assms] span_def)
  also have "\<dots> \<le> card {..<unat (bumper s)}"
  proof (rule card_mono)
    show "(\<Union>p\<in>dom live. ?S p) \<subseteq> {..<unat (bumper s)}"
      using heap_invD(11) [OF assms c] by (intro UN_least) (simp add: span_subset)
  qed simp
  finally show ?thesis by simp
qed

text \<open>Taking the first chunk of a free list, and putting a chunk back.\<close>

lemma heap_inv_take:
  assumes inv: "heap_inv rd b n s live F" and k: "k < 22" "F k = p # ps" "chain rd l ps"
    and rd': "rd' p = Ok (Occupied (Order (of_nat k)))"
      "\<And>q. unat q + 8 \<le> unat p \<or> unat p + 8 \<le> unat q \<Longrightarrow> rd' q = rd q"
    and s': "heads (free_lists s') = (heads (free_lists s))[k := l]" "bumper s' = bumper s"
      "unat (total_size s') = unat (total_size s) + (block_size k + 8)"
  shows "live p = None" "heap_inv rd' b n s' (live(p \<mapsto> k)) (F(k := ps))"
proof -
  note I = heap_invD [OF inv]
  obtain l' where "rd p = Ok (Free l')" using I(8) [OF k(1)] k(2) by (auto dest: chain_free)
  then show free: "live p = None" using I(7) [of p] by (cases "live p") auto
  have "p \<notin> set ps" using I(9) [OF k(1)] k(2) by simp
  then have same: "chunks (live(p \<mapsto> k)) (F(k := ps)) = chunks live F"
    using k(1,2) free by (auto simp: chunks_def split: if_splits)
  have pk: "(p, k) \<in> chunks live F" using k(1,2) by (simp add: chunks_def)
  have other: "rd' q = rd q" if "(q, j) \<in> chunks live F" "(q, j) \<noteq> (p, k)" for q j
    using rd'(2) separated [OF inv pk that] by blast
  have live: "rd' q = rd q" if "live q = Some j" for q j
    using other [of q j] that free by (cases "q = p") (auto simp: chunks_def)
  have "chain rd' (heads (free_lists s') ! j) ((F(k := ps)) j) \<and> distinct ((F(k := ps)) j)" if j: "j < 22" for j
  proof (cases "j = k")
    case True
    have "chain rd' l ps \<longleftrightarrow> chain rd l ps"
      using \<open>p \<notin> set ps\<close> k(1,2) by (intro chain_cong other [of _ k]) (auto simp: chunks_def)
    then show ?thesis using True k I(1) I(9) [OF k(1)] s'(1) by simp
  next
    case False
    have "chain rd' l' (F j) \<longleftrightarrow> chain rd l' (F j)" for l'
      using j False by (intro chain_cong other [of _ j]) (auto simp: chunks_def)
    then show ?thesis using False I(8,9) [OF j] s'(1) by simp
  qed
  moreover have "(\<Sum>q\<in>dom (live(p \<mapsto> k)). block_size (the ((live(p \<mapsto> k)) q)) + 8) = unat (total_size s')"
    using free I(4,5) s'(3) by (simp add: sum.insert_remove) (auto intro: sum.cong)
  ultimately show "heap_inv rd' b n s' (live(p \<mapsto> k)) (F(k := ps))"
    using inv rd'(1) live k(1) s'(1,2) by (auto simp: heap_inv_def same)
qed

lemma heap_inv_give:
  assumes inv: "heap_inv rd b n s live F" and p: "live p = Some k"
    and rd': "rd' p = Ok (Free (heads (free_lists s) ! k))"
      "\<And>q. unat q + 8 \<le> unat p \<or> unat p + 8 \<le> unat q \<Longrightarrow> rd' q = rd q"
    and s': "heads (free_lists s') = (heads (free_lists s))[k := Ptr p]" "bumper s' = bumper s"
      "unat (total_size s') + (block_size k + 8) = unat (total_size s)"
  shows "heap_inv rd' b n s' (live(p := None)) (F(k := p # F k))"
proof -
  note I = heap_invD [OF inv]
  have k: "k < 22" using I(6) [OF p] .
  have pk: "(p, k) \<in> chunks live F" using p by (simp add: chunks_def)
  have taken: "p \<notin> set (F j)" if "j < 22" for j
    using chain_free [OF I(8) [OF that], of p] I(7) [OF p] by auto
  have same: "chunks (live(p := None)) (F(k := p # F k)) = chunks live F"
    using p k by (auto simp: chunks_def split: if_splits)
  have other: "rd' q = rd q" if "(q, j) \<in> chunks live F" "(q, j) \<noteq> (p, k)" for q j
    using rd'(2) separated [OF inv pk that] by blast
  have live: "rd' q = rd q" if "live q = Some j" "q \<noteq> p" for q j
    using other [of q j] that by (auto simp: chunks_def)
  have "chain rd' (heads (free_lists s') ! j) ((F(k := p # F k)) j) \<and> distinct ((F(k := p # F k)) j)" if j: "j < 22" for j
  proof -
    have "chain rd' l (F j) \<longleftrightarrow> chain rd l (F j)" for l
      using taken [OF j] j by (intro chain_cong other [of _ j]) (auto simp: chunks_def)
    then show ?thesis using I(1) I(8,9) [OF j] s'(1) rd'(1) taken [OF j] k by (cases "j = k") auto
  qed
  moreover have "(\<Sum>q\<in>dom (live(p := None)). block_size (the ((live(p := None)) q)) + 8) = unat (total_size s')"
  proof -
    have "(\<Sum>q\<in>dom (live(p := None)). block_size (the ((live(p := None)) q)) + 8) =
        (\<Sum>q\<in>dom live - {p}. block_size (the (live q)) + 8)" by (rule sum.cong) auto
    also have "\<dots> + (block_size k + 8) = unat (total_size s)"
      using p I(5) sum.remove [OF I(4), of p "\<lambda>q. block_size (the (live q)) + 8"] by (simp add: domI)
    finally show ?thesis using s'(3) by simp
  qed
  ultimately show ?thesis using inv live s'(1,2) by (auto simp: heap_inv_def same)
qed

text \<open>Taking a new chunk from the unallocated part.\<close>

lemma heap_inv_grow:
  assumes inv: "heap_inv rd b n s live F" and k: "k < 22"
    and room: "unat (bumper s) + block_size k + 8 \<le> n" "n + 2 ^ 24 + 8 < 2 ^ 32"
    and rd': "rd' (bumper s) = Ok (Occupied (Order (of_nat k)))"
      "\<And>q. unat q + 8 \<le> unat (bumper s) \<or> unat (bumper s) + 8 \<le> unat q \<Longrightarrow> rd' q = rd q"
    and s': "free_lists s' = free_lists s" "unat (bumper s') = unat (bumper s) + block_size k + 8"
      "unat (total_size s') = unat (total_size s) + (block_size k + 8)"
  shows "live (bumper s) = None" "heap_inv rd' b n s' (live(bumper s \<mapsto> k)) F"
proof -
  note I = heap_invD [OF inv]
  let ?b = "bumper s"
  have below: "unat q + block_size j + 8 \<le> unat ?b" if "(q, j) \<in> chunks live F" for q j using I(11) [OF that] .
  show fresh: "live ?b = None"
    using below [of ?b] by (cases "live ?b") (auto simp: chunks_def)
  have ins: "chunks (live(?b \<mapsto> k)) F = insert (?b, k) (chunks live F)"
    using fresh by (auto simp: chunks_def split: if_splits)
  have other: "rd' q = rd q" if "(q, j) \<in> chunks live F" for q j
    using rd'(2) below [OF that] by simp
  have live: "rd' q = rd q" if "live q = Some j" for q j using other [of q j] that by (simp add: chunks_def)
  have "chain rd' l (F j) \<longleftrightarrow> chain rd l (F j)" if "j < 22" for j l
    using that by (intro chain_cong other [of _ j]) (simp add: chunks_def)
  then have "\<forall>j<22. chain rd' (heads (free_lists s') ! j) (F j) \<and> distinct (F j)" using I(8,9) s'(1) by simp
  moreover have "(\<Sum>q\<in>dom (live(?b \<mapsto> k)). block_size (the ((live(?b \<mapsto> k)) q)) + 8) = unat (total_size s')"
    using fresh I(4,5) s'(3) by (simp add: sum.insert_remove) (auto intro: sum.cong)
  moreover have "8 dvd unat (fst c) \<and> span c \<subseteq> {..<unat (bumper s')} \<and> span c \<subseteq> {..<n} \<and> b \<le> unat (fst c)"
    if c: "c \<in> insert (?b, k) (chunks live F)" for c
  proof (cases "c = (?b, k)")
    case False
    then obtain q j where "c = (q, j)" "(q, j) \<in> chunks live F" using c by (cases c) auto
    then show ?thesis using I(10-12,15) [of q j] s'(2) by (simp add: span_subset)
  qed (use I(2,14) room(1) s'(2) in \<open>simp add: span_subset\<close>)
  moreover have "span c \<inter> span d = {}"
    if cd: "c \<in> insert (?b, k) (chunks live F)" "d \<in> insert (?b, k) (chunks live F)" "c \<noteq> d" for c d
  proof -
    have "span (?b, k) \<inter> span e = {}" if "e \<in> chunks live F" for e
      using that below [of "fst e" "snd e"] by (cases e) (simp add: span_disjoint)
    then show ?thesis using cd I(13) by blast
  qed
  moreover have "8 dvd unat (bumper s')" "b \<le> unat (bumper s')" using I(2,14) s'(2) by simp_all
  moreover have "unat (bumper s') + 2 ^ 24 + 8 < 2 ^ 32" using room s'(2) by simp
  ultimately show "heap_inv rd' b n s' (live(?b \<mapsto> k)) F"
    using inv rd'(1) live k s'(1) by (auto simp: heap_inv_def ins)
qed

section \<open>What the operations do\<close>

definition heap_on ::
  "'m Memory \<Rightarrow> nat \<Rightarrow> 'm \<Rightarrow> FreeingBumpHeapAllocator \<Rightarrow> (32 word \<Rightarrow> nat option) \<Rightarrow> (nat \<Rightarrow> 32 word list) \<Rightarrow> bool" where
  "heap_on M b m s live F \<longleftrightarrow>
     (\<exists>n. mem_size M m = Some n \<and> unat n + 2 ^ 24 + 8 < 2 ^ 32 \<and> heap_inv (header_read_from M m) b (unat n) s live F)"

lemma unat_order: "k < 22 \<Longrightarrow> unat (of_nat k :: 32 word) = k"
  by (simp add: unat_of_nat take_bit_nat_eq_self)

lemma unat_plus: "unat a + unat b < 2 ^ 32 \<Longrightarrow> unat (a + b :: 32 word) = unat a + unat b"
  by (simp add: unat_word_ariths)

lemma not_marker: "unat (p :: 32 word) + 8 < 2 ^ 32 \<Longrightarrow> p \<noteq> EMPTY_MARKER"
proof -
  have "(- 1 :: 32 word) = 4294967295" by simp
  then show "unat p + 8 < 2 ^ 32 \<Longrightarrow> p \<noteq> EMPTY_MARKER" by (auto simp only: EMPTY_MARKER_def) simp
qed

lemma occupied_ok: "k < 22 \<Longrightarrow> header_ok (Occupied (Order (of_nat k)))"
  by (simp add: unat_order)

context linear_memory
begin

lemma find_chunk_reused:
  assumes "mem_size M m = Some n" "unat n < 2 ^ 32" "heap_inv (header_read_from M m) b (unat n) s live F"
    and "k < 22" "F k = p # ps" "header_read_from M m p = Ok (Free l)"
  shows "find_chunk M m (Order (of_nat k)) s =
    Some (Ok p, s\<lparr>free_lists := (free_lists s)\<lparr>heads := (heads (free_lists s))[k := l]\<rparr>\<rparr>)"
proof -
  note I = heap_invD [OF assms(3)]
  have "heads (free_lists s) ! k = Ptr p" using I(8) [OF assms(4)] assms(5) by simp
  moreover have le: "unat p + block_size k + 8 \<le> unat n" using I(12) [of p k] assms(4,5) by (simp add: chunks_def)
  have "unat (p + order_size (Order (of_nat k)) + HEADER_SIZE) = unat p + (block_size k + 8)"
    using unat_plus [of p "order_size (Order (of_nat k)) + HEADER_SIZE"] le assms(2) unat_chunk_size [OF assms(4)]
    by (simp add: add.assoc)
  then have "p + order_size (Order (of_nat k)) + HEADER_SIZE \<le> n" using le by (simp add: word_le_nat_alt)
  ultimately show ?thesis
    using assms(1,4,6) I(1) by (simp add: find_chunk_def free_lists_index_def free_lists_put_def unat_order ok_or_def)
qed

lemma find_chunk_fresh:
  assumes "mem_size M m = Some n" "unat (bumper s) + 2 ^ 24 + 8 < 2 ^ 32" "length (heads (free_lists s)) = 22"
    and "k < 22" "heads (free_lists s) ! k = Null"
  shows "find_chunk M m (Order (of_nat k)) s =
    (if unat (bumper s) + block_size k + 8 \<le> unat n
     then Some (Ok (bumper s), s\<lparr>bumper := bumper s + (order_size (Order (of_nat k)) + HEADER_SIZE)\<rparr>)
     else Some (Err AllocatorOutOfSpace, s))"
    "unat (bumper s + (order_size (Order (of_nat k)) + HEADER_SIZE)) = unat (bumper s) + block_size k + 8"
proof -
  show sum: "unat (bumper s + (order_size (Order (of_nat k)) + HEADER_SIZE)) = unat (bumper s) + block_size k + 8"
    using unat_plus [of "bumper s" "order_size (Order (of_nat k)) + HEADER_SIZE"] assms(2)
      unat_chunk_size [OF assms(4)] block_size_bound [OF assms(4)] by simp
  show "find_chunk M m (Order (of_nat k)) s =
    (if unat (bumper s) + block_size k + 8 \<le> unat n
     then Some (Ok (bumper s), s\<lparr>bumper := bumper s + (order_size (Order (of_nat k)) + HEADER_SIZE)\<rparr>)
     else Some (Err AllocatorOutOfSpace, s))"
    using assms(1,3-5) by (simp add: find_chunk_def free_lists_index_def unat_order bump_def word_less_nat_alt sum)
qed

lemma hand_out:
  assumes "mem_size M m = Some n" "k < 22" "order_from_size sz = Ok (Order (of_nat k))"
    and "find_chunk M m (Order (of_nat k)) s = Some (Ok p, s1)" "unat p + 8 \<le> unat n"
  obtains m' where "header_set M byte m p (Occupied (Order (of_nat k))) m'" "allocate M sz s m = Some (Ok (p + HEADER_SIZE),
      s1\<lparr>total_size := total_size s1 + (order_size (Order (of_nat k)) + HEADER_SIZE)\<rparr>, m')"
proof -
  obtain m' where "header_write_into M (Occupied (Order (of_nat k))) m p = (Ok (), m')"
    "header_set M byte m p (Occupied (Order (of_nat k))) m'"
    using header_write [OF assms(1,5) occupied_ok [OF assms(2)]] by blast
  then show ?thesis using that assms(3,4) by (simp add: allocate_def)
qed

lemma allocate_effect:
  assumes H: "heap_on M b m s live F" and sz: "unat sz \<le> 2 ^ 24"
  obtains (ok) p k m' s' F' where "allocate M sz s m = Some (Ok (p + HEADER_SIZE), s', m')" "k < 22" "unat sz \<le> block_size k"
      "live p = None" "heap_on M b m' s' (live(p \<mapsto> k)) F'" "header_set M byte m p (Occupied (Order (of_nat k))) m'"
  | (full) k where "allocate M sz s m = Some (Err AllocatorOutOfSpace, s, m)" "block_size k < 2 * max 8 (unat sz)"
      "unat (the (mem_size M m)) < unat (bumper s) + block_size k + 8"
proof -
  obtain n where n: "mem_size M m = Some n" "unat n + 2 ^ 24 + 8 < 2 ^ 32"
    and inv: "heap_inv (header_read_from M m) b (unat n) s live F" using H by (auto simp: heap_on_def)
  obtain k where k: "k < 22" "order_from_size sz = Ok (Order (of_nat k))" "unat sz \<le> block_size k" "block_size k < 2 * max 8 (unat sz)"
    using order_from_size_ok [OF sz] by blast
  note I = heap_invD [OF inv]
  let ?z = "order_size (Order (of_nat k)) + HEADER_SIZE"
  have z: "unat (total_size s + ?z) = unat (total_size s) + (block_size k + 8)"
    using unat_plus [of "total_size s" ?z] total_bound [OF inv] I(3) unat_chunk_size [OF k(1)] block_size_bound [OF k(1)]
    by simp
  note hand_out = hand_out [OF n(1) k(1,2)]
  show ?thesis
    using I(8) [OF k(1)]
  proof (cases rule: chain_cases)
    case (first p qs l)
    let ?s = "s\<lparr>free_lists := (free_lists s)\<lparr>heads := (heads (free_lists s))[k := l]\<rparr>\<rparr>"
    have "unat p + 8 \<le> unat n" using I(12) [of p k] first(2) k(1) by (simp add: chunks_def)
    then obtain m' where m': "header_set M byte m p (Occupied (Order (of_nat k))) m'"
      "allocate M sz s m = Some (Ok (p + HEADER_SIZE), ?s\<lparr>total_size := total_size ?s + ?z\<rparr>, m')"
      using hand_out [OF find_chunk_reused [OF n(1) _ inv k(1) first(2,3)]] n(2) by auto
    then show ?thesis
      using ok [OF m'(2) k(1,3), of "F(k := qs)"] n z header_setD(1) [OF m'(1)]
        heap_inv_take [OF inv k(1) first(2,4) header_setD(2,4) [OF m'(1)], of "?s\<lparr>total_size := total_size ?s + ?z\<rparr>"]
      by (auto simp: heap_on_def)
  next
    case empty
    note f = find_chunk_fresh [OF n(1) I(3,1) k(1) empty(1)]
    show ?thesis
    proof (cases "unat (bumper s) + block_size k + 8 \<le> unat n")
      case True
      let ?s = "s\<lparr>bumper := bumper s + ?z\<rparr>"
      obtain m' where m': "header_set M byte m (bumper s) (Occupied (Order (of_nat k))) m'"
        "allocate M sz s m = Some (Ok (bumper s + HEADER_SIZE), ?s\<lparr>total_size := total_size ?s + ?z\<rparr>, m')"
        using hand_out [of s "bumper s" ?s] f(1) True by auto
      then show ?thesis
        using ok [OF m'(2) k(1,3), of F] n z f(2) header_setD(1) [OF m'(1)]
          heap_inv_grow [OF inv k(1) True n(2) header_setD(2,4) [OF m'(1)], of "?s\<lparr>total_size := total_size ?s + ?z\<rparr>"]
        by (auto simp: heap_on_def)
    qed (use full [of k] k n(1) f in \<open>simp add: allocate_def\<close>)
  qed
qed

lemma deallocate_effect:
  assumes H: "heap_on M b m s live F" and p: "live p = Some k"
  obtains m' s' where "deallocate M (p + HEADER_SIZE) s m = Some (Ok (), s', m')"
    "heap_on M b m' s' (live(p := None)) (F(k := p # F k))" "\<exists>h. header_set M byte m p h m'"
proof -
  obtain n where n: "mem_size M m = Some n" "unat n + 2 ^ 24 + 8 < 2 ^ 32"
    and inv: "heap_inv (header_read_from M m) b (unat n) s live F" using H by (auto simp: heap_on_def)
  note I = heap_invD [OF inv]
  let ?l = "heads (free_lists s) ! k" and ?z = "order_size (Order (of_nat k)) + HEADER_SIZE"
  let ?s = "s\<lparr>free_lists := (free_lists s)\<lparr>heads := (heads (free_lists s))[k := Ptr p]\<rparr>, total_size := total_size s - ?z\<rparr>"
  have k: "k < 22" using I(6) [OF p] .
  have le: "unat p + block_size k + 8 \<le> unat n" using I(12) [of p k] p by (simp add: chunks_def)
  have "unat q + 8 < 2 ^ 32" if "?l = Ptr q" for q
    using I(8) [OF k] I(12) [of q k] that n(2) k by (cases "F k") (auto simp: chunks_def)
  then have "header_ok (Free ?l)" using not_marker by (cases ?l) auto
  then obtain m' where m': "header_write_into M (Free ?l) m p = (Ok (), m')" "header_set M byte m p (Free ?l) m'"
    using header_write [OF n(1), of p "Free ?l"] le by auto
  have "block_size k + 8 \<le> unat (total_size s)"
    using I(5) sum.remove [OF I(4), of p "\<lambda>q. block_size (the (live q)) + 8"] p by (simp add: domI)
  then have z: "\<not> total_size s < ?z" "unat (total_size s - ?z) + (block_size k + 8) = unat (total_size s)"
    by (simp_all add: word_less_nat_alt unat_chunk_size [OF k] unat_sub word_le_nat_alt)
  have "\<not> p + HEADER_SIZE < HEADER_SIZE" "p + HEADER_SIZE - HEADER_SIZE = p"
    using unat_plus [of p HEADER_SIZE] le n(2) by (simp_all add: word_less_nat_alt HEADER_SIZE_def)
  then have "deallocate M (p + HEADER_SIZE) s m = Some (Ok (), ?s, m')"
    using I(1) I(7) [OF p] m'(1) z(1) k
    by (simp add: deallocate_def ok_or_def free_lists_replace_def free_lists_index_def free_lists_put_def unat_order Let_def)
  moreover have "heap_on M b m' ?s (live(p := None)) (F(k := p # F k))"
    using heap_inv_give [OF inv p header_setD(2,4) [OF m'(2)], of ?s] z(2) header_setD(1) [OF m'(2)] n by (auto simp: heap_on_def)
  ultimately show ?thesis using that m'(2) by blast
qed

text \<open>A chunk that is in a free list already is refused.\<close>

lemma deallocate_twice:
  assumes "heap_on M b m s live F" "k < 22" "p \<in> set (F k)"
  shows "deallocate M (p + HEADER_SIZE) s m = Some (Err (AllocOther ''the allocation points to an empty header''), s, m)"
proof -
  obtain n :: "32 word" where n: "unat n + 2 ^ 24 + 8 < 2 ^ 32" "heap_inv (header_read_from M m) b (unat n) s live F"
    using assms(1) unfolding heap_on_def by blast
  note I = heap_invD [OF n(2)]
  have "unat p + block_size k + 8 \<le> unat n" using I(12) [of p k] assms by (simp add: chunks_def)
  then have "\<not> p + HEADER_SIZE < HEADER_SIZE" "p + HEADER_SIZE - HEADER_SIZE = p"
    using unat_plus [of p HEADER_SIZE] n(1) by (simp_all add: word_less_nat_alt HEADER_SIZE_def)
  moreover obtain l where "header_read_from M m p = Ok (Free l)" using chain_free [OF I(8) [OF assms(2)] assms(3)] by blast
  ultimately show ?thesis by (simp add: deallocate_def ok_or_def)
qed

text \<open>The program may write what it likes into its blocks.\<close>

lemma program_writes:
  assumes "heap_on M b m s live F" "live p = Some k" "mem_size M m' = mem_size M m"
    and "\<And>a. a < unat p + 8 \<or> unat p + 8 + block_size k \<le> a \<Longrightarrow> byte m' a = byte m a"
  shows "heap_on M b m' s live F"
proof -
  obtain n where n: "mem_size M m = Some n" "unat n + 2 ^ 24 + 8 < 2 ^ 32"
    and inv: "heap_inv (header_read_from M m) b (unat n) s live F" using assms(1) by (auto simp: heap_on_def)
  then have n': "mem_size M m' = Some n" using assms(3) by simp
  have pk: "(p, k) \<in> chunks live F" using assms(2) by (simp add: chunks_def)
  have "header_read_from M m' q = header_read_from M m q" if q: "(q, j) \<in> chunks live F" for q j
  proof (cases "(q, j) = (p, k)")
    case False
    then have "unat p + block_size k + 8 \<le> unat q \<or> unat q + block_size j + 8 \<le> unat p"
      using heap_invD(13) [OF inv pk q] by (auto simp: span_disjoint)
    then show ?thesis by (intro header_read_cong [OF n(1) n'] assms(4)) auto
  qed (intro header_read_cong [OF n(1) n'] assms(4), auto)
  then show ?thesis using heap_inv_cong [OF inv] n assms(3) by (auto simp: heap_on_def)
qed

end

section \<open>The specification of a heap\<close>

text \<open>
  A heap is a map from the pointers handed out to the sizes asked for. A new block is aligned, lies in the
  memory above the heap base and overlaps no block in use.
\<close>

type_synonym blocks = "32 word \<Rightarrow> nat option"

datatype heap_event = Allocated nat "32 word" | Refused nat AllocError | Released "32 word"

inductive heap_spec :: "nat \<Rightarrow> nat \<Rightarrow> blocks \<Rightarrow> heap_event \<Rightarrow> blocks \<Rightarrow> bool" for b n where
  allocated: "B p = None \<Longrightarrow> 8 dvd unat p \<Longrightarrow> b \<le> unat p \<Longrightarrow> unat p + sz \<le> n \<Longrightarrow>
    (\<And>q c. B q = Some c \<Longrightarrow> unat p + sz \<le> unat q \<or> unat q + c \<le> unat p) \<Longrightarrow>
    heap_spec b n B (Allocated sz p) (B(p \<mapsto> sz))"
| too_large: "2 ^ 24 < sz \<Longrightarrow> heap_spec b n B (Refused sz RequestedAllocationTooLarge) B"
| full: "sz \<le> 2 ^ 24 \<Longrightarrow> heap_spec b n B (Refused sz AllocatorOutOfSpace) B"
| released: "B p = Some sz \<Longrightarrow> heap_spec b n B (Released p) (B(p := None))"

definition event_of :: "32 word \<Rightarrow> (32 word, AllocError) result \<Rightarrow> heap_event" where
  "event_of sz r = (case r of Inr p \<Rightarrow> Allocated (unat sz) p | Inl e \<Rightarrow> Refused (unat sz) e)"

text \<open>The pointer of a block is the one of its header moved by eight bytes.\<close>

definition holds :: "blocks \<Rightarrow> (32 word \<Rightarrow> nat option) \<Rightarrow> bool" where
  "holds B live \<longleftrightarrow>
     (\<forall>p. live p = None \<longrightarrow> B (p + HEADER_SIZE) = None) \<and>
     (\<forall>p k. live p = Some k \<longrightarrow> (\<exists>sz\<le>block_size k. B (p + HEADER_SIZE) = Some sz))"

definition heap_state :: "nat \<Rightarrow> blocks \<Rightarrow> FreeingBumpHeapAllocator \<Rightarrow> 8 word list \<Rightarrow> bool" where
  "heap_state b B s mem \<longleftrightarrow> (\<exists>live F. heap_on slice_memory b mem s live F \<and> holds B live)"

lemma holds_None: "holds B live \<Longrightarrow> live p = None \<Longrightarrow> B (p + HEADER_SIZE) = None"
  by (simp add: holds_def)

lemma holds_Some:
  assumes "holds B live" "B q = Some sz"
  obtains p k where "q = p + HEADER_SIZE" "live p = Some k" "sz \<le> block_size k"
proof -
  have q: "q = (q - HEADER_SIZE) + HEADER_SIZE" by simp
  show ?thesis
    using assms that [OF q] unfolding holds_def
    by (cases "live (q - HEADER_SIZE)") (metis diff_add_cancel option.distinct(1), metis diff_add_cancel option.inject)
qed

lemma holds_upd: "holds B live \<Longrightarrow> sz \<le> block_size k \<Longrightarrow> holds (B(p + HEADER_SIZE \<mapsto> sz)) (live(p \<mapsto> k))"
  by (simp add: holds_def fun_upd_apply)

lemma holds_del: "holds B live \<Longrightarrow> holds (B(p + HEADER_SIZE := None)) (live(p := None))"
  by (simp add: holds_def fun_upd_apply)

lemma slice_memory_size: "mem_size slice_memory m = Some n \<longleftrightarrow> length m = unat n"
  by (simp add: slice_memory_def slice_size_Some)

lemma heap_on_size:
  assumes "heap_on slice_memory b mem s live F"
  shows "length mem = unat (the (mem_size slice_memory mem))"
proof -
  obtain n where "mem_size slice_memory mem = Some n" using assms by (auto simp: heap_on_def)
  then show ?thesis using slice_memory_size [of mem n] by simp
qed

lemma heap_on_length: "heap_on slice_memory b mem s live F \<Longrightarrow> length mem + 2 ^ 24 + 8 < 2 ^ 32"
  by (auto simp: heap_on_def slice_memory_size)

lemma heap_on_chunk:
  assumes "heap_on slice_memory b mem s live F" "live p = Some k"
  shows "8 dvd unat p" "b \<le> unat p" "unat p + block_size k + 8 \<le> length mem" "unat (p + HEADER_SIZE) = unat p + 8"
proof -
  obtain n :: "32 word" where n: "length mem = unat n" "heap_inv (header_read_from slice_memory mem) b (unat n) s live F"
    using assms(1) unfolding heap_on_def slice_memory_size by blast
  have "(p, k) \<in> chunks live F" using assms(2) by (simp add: chunks_def)
  note I = heap_invD(10,12,15) [OF n(2) this]
  then show "8 dvd unat p" "b \<le> unat p" "unat p + block_size k + 8 \<le> length mem" using n(1) by simp_all
  then show "unat (p + HEADER_SIZE) = unat p + 8"
    using heap_on_length [OF assms(1)] unat_plus [of p HEADER_SIZE] by (simp add: HEADER_SIZE_def)
qed

lemma heap_on_disjoint:
  assumes "heap_on slice_memory b mem s live F" "live p = Some k" "live q = Some j" "p \<noteq> q"
  shows "unat p + block_size k + 8 \<le> unat q \<or> unat q + block_size j + 8 \<le> unat p"
proof -
  obtain n where n: "heap_inv (header_read_from slice_memory mem) b n s live F"
    using assms(1) by (auto simp: heap_on_def)
  have "span (p, k) \<inter> span (q, j) = {}" using assms(2-4) by (intro heap_invD(13) [OF n]) (simp_all add: chunks_def)
  then show ?thesis by (simp add: span_disjoint)
qed

text \<open>What a write of a header at a chunk leaves alone.\<close>

definition undisturbed :: "nat \<Rightarrow> blocks \<Rightarrow> 8 word list \<Rightarrow> 8 word list \<Rightarrow> bool" where
  "undisturbed b B mem mem' \<longleftrightarrow> length mem' = length mem \<and> (\<forall>a<b. byte_at mem' a = byte_at mem a) \<and>
     (\<forall>q c a. B q = Some c \<and> a < c \<longrightarrow> byte_at mem' (unat q + a) = byte_at mem (unat q + a))"

lemma header_write_undisturbed:
  assumes "heap_on slice_memory b mem s live F" "live p = Some k" "holds B live" "length mem' = length mem"
    and "\<And>a. a < unat p \<or> unat p + 8 \<le> a \<Longrightarrow> byte_at mem' a = byte_at mem a"
  shows "undisturbed b B mem mem'"
proof -
  have "byte_at mem' (unat q + a) = byte_at mem (unat q + a)" if qa: "B q = Some c" "a < c" for q c a
  proof -
    obtain p' k' where p': "q = p' + HEADER_SIZE" "live p' = Some k'" "c \<le> block_size k'"
      using holds_Some [OF assms(3) qa(1)] by blast
    have "unat q = unat p' + 8" using heap_on_chunk(4) [OF assms(1) p'(2)] p'(1) by simp
    then show ?thesis
      using heap_on_disjoint [OF assms(1,2) p'(2)] p'(3) qa(2) by (intro assms(5)) (cases "p = p'"; auto)
  qed
  then show ?thesis using assms(4,5) heap_on_chunk(2) [OF assms(1,2)] by (auto simp: undisturbed_def)
qed

lemma undisturbed_grown: "undisturbed b (B(p \<mapsto> sz)) mem' mem \<Longrightarrow> B p = None \<Longrightarrow> undisturbed b B mem mem'"
  unfolding undisturbed_def by (metis fun_upd_other option.distinct(1))

lemma heap_state_disjoint:
  assumes "heap_state b B s mem" "B p = Some c" "B q = Some d" "p \<noteq> q"
  shows "unat p + c \<le> unat q \<or> unat q + d \<le> unat p"
proof -
  obtain live F where L: "heap_on slice_memory b mem s live F" "holds B live" using assms(1) by (auto simp: heap_state_def)
  obtain p' k where p': "p = p' + HEADER_SIZE" "live p' = Some k" "c \<le> block_size k" using holds_Some [OF L(2) assms(2)] .
  obtain q' j where q': "q = q' + HEADER_SIZE" "live q' = Some j" "d \<le> block_size j" using holds_Some [OF L(2) assms(3)] .
  have "unat p' + block_size k + 8 \<le> unat q' \<or> unat q' + block_size j + 8 \<le> unat p'"
    using heap_on_disjoint [OF L(1) p'(2) q'(2)] p'(1) q'(1) assms(4) by auto
  then show ?thesis
    using p'(3) q'(3) heap_on_chunk(4) [OF L(1) p'(2)] heap_on_chunk(4) [OF L(1) q'(2)] by (auto simp: p'(1) q'(1))
qed

lemma heap_state_block:
  assumes "heap_state b B s mem" "B p = Some c"
  shows "8 dvd unat p" "b \<le> unat p" "unat p + c \<le> length mem"
proof -
  obtain live F where L: "heap_on slice_memory b mem s live F" "holds B live" using assms(1) by (auto simp: heap_state_def)
  obtain p' k where p': "p = p' + HEADER_SIZE" "live p' = Some k" "c \<le> block_size k" using holds_Some [OF L(2) assms(2)] .
  then show "8 dvd unat p" "b \<le> unat p" "unat p + c \<le> length mem" using heap_on_chunk [OF L(1) p'(2)] by auto
qed

lemma allocate_simulates:
  assumes "heap_state b B s mem"
  obtains r s' mem' B' where "allocate slice_memory sz s mem = Some (r, s', mem')"
    "heap_spec b (length mem) B (event_of sz r) B'" "heap_state b B' s' mem'" "undisturbed b B mem mem'"
    "r = Err AllocatorOutOfSpace \<Longrightarrow> length mem < unat (bumper s) + 2 * max 8 (unat sz) + 8"
proof (cases "unat sz \<le> 2 ^ 24")
  case False
  then have "allocate slice_memory sz s mem = Some (Err RequestedAllocationTooLarge, s, mem)"
    using order_from_size_large [of sz] by (simp add: allocate_def)
  then show ?thesis using that [of _ s mem B] assms False by (simp add: event_of_def heap_spec.too_large undisturbed_def)
next
  case True
  obtain live F where L: "heap_on slice_memory b mem s live F" "holds B live" using assms by (auto simp: heap_state_def)
  from L(1) True show ?thesis
  proof (cases rule: slice.allocate_effect)
    case (full k)
    note heap_on_size [OF L(1)]
    then show ?thesis
      using that [OF full(1), of B] full(2,3) assms True by (simp add: event_of_def heap_spec.full undisturbed_def)
  next
    case (ok p k mem' s' F')
    let ?B = "B(p + HEADER_SIZE \<mapsto> unat sz)" and ?live = "live(p \<mapsto> k)"
    have len: "length mem' = length mem" using heap_on_size [OF L(1)] heap_on_size [OF ok(5)] header_setD(1) [OF ok(6)] by simp
    have fresh: "B (p + HEADER_SIZE) = None" by (rule holds_None [OF L(2) ok(4)])
    have H: "holds ?B ?live" by (rule holds_upd [OF L(2) ok(3)])
    have S: "heap_state b ?B s' mem'" using ok(5) H by (auto simp: heap_state_def)
    have "undisturbed b ?B mem' mem"
      by (rule header_write_undisturbed [OF ok(5) _ H]) (use len header_setD(3) [OF ok(6)] in auto)
    moreover have "heap_spec b (length mem) B (event_of sz (Ok (p + HEADER_SIZE))) ?B"
      unfolding event_of_def sum.case
    proof (rule heap_spec.allocated)
      fix q c assume q: "B q = Some c"
      then show "unat (p + HEADER_SIZE) + unat sz \<le> unat q \<or> unat q + c \<le> unat (p + HEADER_SIZE)"
        using heap_state_disjoint [OF S, of "p + HEADER_SIZE" "unat sz" q c] fresh by (cases "q = p + HEADER_SIZE") auto
    qed (use fresh heap_state_block [OF S, of "p + HEADER_SIZE"] len in auto)
    ultimately show ?thesis using that [OF ok(1) _ S] undisturbed_grown fresh by blast
  qed
qed

lemma deallocate_simulates:
  assumes "heap_state b B s mem" "B p = Some sz"
  obtains s' mem' where "deallocate slice_memory p s mem = Some (Ok (), s', mem')"
    "heap_state b (B(p := None)) s' mem'" "undisturbed b B mem mem'"
    "deallocate slice_memory p s' mem' = Some (Err (AllocOther ''the allocation points to an empty header''), s', mem')"
proof -
  obtain live F where L: "heap_on slice_memory b mem s live F" "holds B live" using assms(1) by (auto simp: heap_state_def)
  obtain h k where h: "p = h + HEADER_SIZE" "live h = Some k" using holds_Some [OF L(2) assms(2)] .
  obtain mem' s' where d: "deallocate slice_memory p s mem = Some (Ok (), s', mem')"
    "heap_on slice_memory b mem' s' (live(h := None)) (F(k := h # F k))"
    "\<exists>x. header_set slice_memory byte_at mem h x mem'"
    using slice.deallocate_effect [OF L(1) h(2)] h(1) by metis
  have "length mem' = length mem" using heap_on_size [OF L(1)] heap_on_size [OF d(2)] d(3) header_setD(1) by metis
  then have "undisturbed b B mem mem'" by (intro header_write_undisturbed [OF L(1) h(2) L(2)]) (use d(3) in \<open>auto dest: header_setD(3)\<close>)
  moreover have "heap_state b (B(p := None)) s' mem'" using d(2) holds_del [OF L(2), of h] h(1) by (auto simp: heap_state_def)
  moreover have "k < 22" using L(1) h(2) by (auto simp: heap_on_def heap_invD(6))
  then have "deallocate slice_memory p s' mem' = Some (Err (AllocOther ''the allocation points to an empty header''), s', mem')"
    using slice.deallocate_twice [OF d(2), of k h] h(1) by simp
  ultimately show ?thesis using that [OF d(1)] by blast
qed

section \<open>Runs of a program\<close>

text \<open>
  A program asks for blocks, releases blocks it has and writes to them; what it writes below the heap
  base, to its stack and its static data, does not concern the allocator.
\<close>

inductive heap_run ::
  "32 word \<Rightarrow> 8 word list \<Rightarrow> blocks \<Rightarrow> FreeingBumpHeapAllocator \<Rightarrow> 8 word list \<Rightarrow> bool" for base mem0 where
  start: "heap_run base mem0 Map.empty (allocator_new base) mem0"
| allocates: "heap_run base mem0 B s mem \<Longrightarrow> allocate slice_memory sz s mem = Some (Ok p, s', mem') \<Longrightarrow>
    heap_run base mem0 (B(p \<mapsto> unat sz)) s' mem'"
| is_refused: "heap_run base mem0 B s mem \<Longrightarrow> allocate slice_memory sz s mem = Some (Err e, s', mem') \<Longrightarrow>
    heap_run base mem0 B s' mem'"
| releases: "heap_run base mem0 B s mem \<Longrightarrow> B p = Some sz \<Longrightarrow> deallocate slice_memory p s mem = Some (r, s', mem') \<Longrightarrow>
    heap_run base mem0 (B(p := None)) s' mem'"
| writes: "heap_run base mem0 B s mem \<Longrightarrow> B p = Some sz \<Longrightarrow> a < sz \<Longrightarrow>
    heap_run base mem0 B s (mem[unat p + a := v])"

inductive_cases spec_allocated: "heap_spec b n B (Allocated sz p) B'"
inductive_cases spec_refused: "heap_spec b n B (Refused sz e) B'"

lemma aligned_base:
  assumes "unat base + 7 < 2 ^ 32"
  shows "unat (bumper (allocator_new base)) = (unat base + 7) div 8 * 8"
proof -
  have "base + ALIGNMENT - 1 = 7 + base" by (simp add: ALIGNMENT_def)
  moreover have "unat (7 + base) = unat base + 7" using assms unat_plus [of 7 base] by simp
  moreover have "(unat base + 7) div 8 * 8 < 2 ^ 32" using assms by linarith
  ultimately show ?thesis
    by (simp add: allocator_new_def ALIGNMENT_def unat_word_ariths(2) unat_div)
qed

lemma heap_state_new:
  assumes "unat base + 2 ^ 24 + 16 < 2 ^ 32" "length mem + 2 ^ 24 + 8 < 2 ^ 32"
  shows "heap_state (unat base) Map.empty (allocator_new base) mem"
proof -
  let ?s = "allocator_new base"
  have b: "unat (bumper ?s) = (unat base + 7) div 8 * 8" using aligned_base [of base] assms(1) by simp
  have "heap_inv rd (unat base) n ?s Map.empty (\<lambda>_. [])" for rd n
    using b assms(1) by (auto simp: heap_inv_def chunks_def allocator_new_def free_lists_new_def N_ORDERS_def Let_def)
  moreover have "mem_size slice_memory mem = Some (of_nat (length mem))" "unat (of_nat (length mem) :: 32 word) = length mem"
    using assms(2) by (simp_all add: slice_memory_def slice_size_def unat_of_nat take_bit_nat_eq_self)
  ultimately have "heap_on slice_memory (unat base) mem ?s Map.empty (\<lambda>_. [])"
    using assms(2) by (auto simp: heap_on_def)
  then show ?thesis by (auto simp: heap_state_def holds_def)
qed

lemma heap_state_write:
  assumes "heap_state b B s mem" "B p = Some sz" "a < sz"
  shows "heap_state b B s (mem[unat p + a := v])"
proof -
  obtain live F where L: "heap_on slice_memory b mem s live F" "holds B live" using assms(1) by (auto simp: heap_state_def)
  obtain h k where h: "p = h + HEADER_SIZE" "live h = Some k" "sz \<le> block_size k" using holds_Some [OF L(2) assms(2)] .
  have "unat p = unat h + 8" using heap_on_chunk(4) [OF L(1) h(2)] h(1) by simp
  then have "heap_on slice_memory b (mem[unat p + a := v]) s live F"
    using h(3) assms(3)
    by (intro slice.program_writes [OF L(1) h(2)]) (auto simp: slice_memory_def slice_size_def byte_at_def nth_list_update)
  then show ?thesis using L(2) by (auto simp: heap_state_def)
qed

lemma heap_run_state:
  assumes "heap_run base mem0 B s mem" "unat base + 2 ^ 24 + 16 < 2 ^ 32" "length mem0 + 2 ^ 24 + 8 < 2 ^ 32"
  shows "heap_state (unat base) B s mem \<and> length mem = length mem0 \<and> (\<forall>a<unat base. byte_at mem a = byte_at mem0 a)"
  using assms(1)
proof induction
  case start
  then show ?case using heap_state_new [OF assms(2,3)] by simp
next
  case (allocates B s mem sz p s' mem')
  then obtain B' where B': "heap_spec (unat base) (length mem) B (event_of sz (Ok p)) B'" "heap_state (unat base) B' s' mem'"
    "undisturbed (unat base) B mem mem'" using allocate_simulates [of "unat base" B s mem sz] by (metis option.inject prod.inject)
  then have "B' = B(p \<mapsto> unat sz)" by (auto simp: event_of_def elim: spec_allocated)
  then show ?case using B'(2,3) allocates.IH by (simp add: undisturbed_def del: fun_upd_apply)
next
  case (is_refused B s mem sz e s' mem')
  then obtain B' where B': "heap_spec (unat base) (length mem) B (event_of sz (Err e)) B'" "heap_state (unat base) B' s' mem'"
    "undisturbed (unat base) B mem mem'" using allocate_simulates [of "unat base" B s mem sz] by (metis option.inject prod.inject)
  then have "B' = B" by (auto simp: event_of_def elim: spec_refused)
  then show ?case using B' is_refused.IH by (simp add: undisturbed_def)
next
  case (releases B s mem p sz r s' mem')
  then have "heap_state (unat base) (B(p := None)) s' mem'" "undisturbed (unat base) B mem mem'"
    using deallocate_simulates [of "unat base" B s mem p sz] by (metis option.inject prod.inject)+
  then show ?case using releases.IH by (simp add: undisturbed_def del: fun_upd_apply)
next
  case (writes B s mem p sz a v)
  moreover have "unat base \<le> unat p" using heap_state_block(2) writes by blast
  ultimately show ?case using heap_state_write [of "unat base" B s mem p sz a v] by (auto simp: byte_at_def)
qed

section \<open>Properties\<close>

text \<open>
  C35. Allocating implements the specification of a heap: it never panics; a request is answered with an
  aligned block inside the memory and above the heap base that overlaps no block in use, or refused
  because it is too large or because the heap is full, which cannot be while there is room for twice the
  request. The contents of the blocks in use and everything below the heap base stay as they are.
\<close>

theorem allocate_refines:
  assumes "heap_state b B s mem"
  shows "\<exists>r s' mem' B'. allocate slice_memory sz s mem = Some (r, s', mem') \<and>
    heap_spec b (length mem) B (event_of sz r) B' \<and> heap_state b B' s' mem' \<and> undisturbed b B mem mem' \<and>
    (r = Err AllocatorOutOfSpace \<longrightarrow> length mem < unat (bumper s) + 2 * max 8 (unat sz) + 8)"
  using allocate_simulates [OF assms, of sz] by metis

text \<open>
  C36. Releasing a block in use succeeds, implements the specification and disturbs no block; releasing it
  a second time is refused with an error and changes nothing.
\<close>

theorem deallocate_refines:
  assumes "heap_state b B s mem" "B p = Some sz"
  shows "\<exists>s' mem'. deallocate slice_memory p s mem = Some (Ok (), s', mem') \<and>
    heap_spec b (length mem) B (Released p) (B(p := None)) \<and> heap_state b (B(p := None)) s' mem' \<and>
    undisturbed b B mem mem' \<and>
    deallocate slice_memory p s' mem' =
      Some (Err (AllocOther ''the allocation points to an empty header''), s', mem')"
  using deallocate_simulates [OF assms] heap_spec.released [of B p sz, OF assms(2)] by metis

text \<open>
  C37. Whatever a program allocates, releases and writes to its own blocks, its blocks are always aligned,
  inside the memory, above the heap base and pairwise disjoint, and nothing below the heap base has
  changed. The memory must end a largest chunk before the end of the 32 bit address space.
\<close>

theorem allocator_safe:
  assumes "heap_run base mem0 B s mem" "unat base + 2 ^ 24 + 16 < 2 ^ 32" "length mem0 + 2 ^ 24 + 8 < 2 ^ 32"
  shows "(\<forall>p sz. B p = Some sz \<longrightarrow> 8 dvd unat p \<and> unat base \<le> unat p \<and> unat p + sz \<le> length mem0) \<and>
    (\<forall>p q c d. B p = Some c \<and> B q = Some d \<and> p \<noteq> q \<longrightarrow> unat p + c \<le> unat q \<or> unat q + d \<le> unat p) \<and>
    (\<forall>a<unat base. byte_at mem a = byte_at mem0 a)"
  using heap_run_state [OF assms] heap_state_block [of "unat base" B s mem] heap_state_disjoint [of "unat base" B s mem]
  by metis

text \<open>
  Closer to the end of the address space the sum in \<open>bump\<close> wraps around, and a chunk that does not fit is
  handed out.
\<close>

lemma bump_wraps:
  "bump (2 ^ 24 + 8) 0xFFFF0000 (s\<lparr>bumper := 0xFFF00000\<rparr>) = (Ok 0xFFF00000, s\<lparr>bumper := 0x00F00008\<rparr>)"
  by (simp add: bump_def)

section \<open>A small heap\<close>

lemma small_allocation:
  obtains p s mem where "allocate slice_memory 5 (allocator_new 3) (replicate 64 0) = Some (Ok p, s, mem)"
    "heap_state 3 [p \<mapsto> 5] s mem"
proof -
  have "heap_state 3 Map.empty (allocator_new 3) (replicate 64 0)"
    using heap_state_new [of 3 "replicate 64 0"] by simp
  then obtain r s mem B where a: "allocate slice_memory 5 (allocator_new 3) (replicate 64 0) = Some (r, s, mem)"
    "heap_spec 3 64 Map.empty (event_of 5 r) B" "heap_state 3 B s mem"
    "r = Err AllocatorOutOfSpace \<Longrightarrow> 64 < unat (bumper (allocator_new 3)) + 2 * max 8 (unat (5 :: 32 word)) + 8"
    using allocate_simulates [of 3 Map.empty "allocator_new 3" "replicate 64 0" 5] by (metis length_replicate)
  have "r \<noteq> Err AllocatorOutOfSpace" using a(4) aligned_base [of 3] by auto
  then obtain p where r: "r = Ok p" using a(2) by (cases r) (auto simp: event_of_def elim!: spec_refused)
  then have "B = [p \<mapsto> 5]" using a(2) by (auto simp: event_of_def elim!: spec_allocated)
  then show ?thesis using that a(1,3) r by blast
qed

theorem allocate_refines_witness:
  "\<exists>r s' mem' B'. allocate slice_memory 5 (allocator_new 3) (replicate 64 0) = Some (r, s', mem') \<and>
     heap_spec 3 64 Map.empty (event_of 5 r) B' \<and> heap_state 3 B' s' mem'"
  using allocate_refines [OF heap_state_new [of 3 "replicate 64 0"], of 5] by auto

theorem deallocate_refines_witness:
  "\<exists>p s mem s' mem'. allocate slice_memory 5 (allocator_new 3) (replicate 64 0) = Some (Ok p, s, mem) \<and>
     deallocate slice_memory p s mem = Some (Ok (), s', mem') \<and>
     deallocate slice_memory p s' mem' =
       Some (Err (AllocOther ''the allocation points to an empty header''), s', mem')"
proof -
  obtain p s mem where a: "allocate slice_memory 5 (allocator_new 3) (replicate 64 0) = Some (Ok p, s, mem)"
    "heap_state 3 [p \<mapsto> 5] s mem" by (rule small_allocation)
  then show ?thesis using deallocate_refines [OF a(2), of p 5] by auto
qed

theorem allocator_safe_witness:
  "\<exists>p s mem. heap_run 3 (replicate 64 0) [p \<mapsto> 5] s mem \<and> 8 dvd unat p \<and> 3 \<le> unat p \<and> unat p + 5 \<le> 64"
proof -
  obtain p s mem where a: "allocate slice_memory 5 (allocator_new 3) (replicate 64 0) = Some (Ok p, s, mem)"
    by (rule small_allocation)
  then have run: "heap_run 3 (replicate 64 0) [p \<mapsto> 5] s mem" using allocates [OF start a] by simp
  then show ?thesis using allocator_safe [OF run] by (intro exI [of _ p] exI [of _ s] exI [of _ mem]) simp
qed

end
