(* ===== verification/Storage_Overlay.thy ===== *)
theory Storage_Overlay
  imports Prelude "HOL-Library.RBT" "HOL-Library.Word" "HOL-Library.List_Lexorder" "HOL-Library.Sublist"
begin

text \<open>
  The changes a block makes to the state, kept on top of the backend
  (\<open>primitives/state-machine/src/overlayed_changes.rs\<close>). Keys and values are lists of bytes, ordered
  lexicographically. A \<open>BTreeMap\<close> is a red-black tree of the library; so is the \<open>HashMap\<close> of child
  storages, whose order nothing depends on. Decoding the extrinsic index is a parameter.
\<close>

section \<open>Keys\<close>

type_synonym StorageKey = "8 word list"
type_synonym StorageValue = "8 word list"

definition ascii :: "string \<Rightarrow> 8 word list" where
  "ascii s = map (\<lambda>c. of_nat (of_char c)) s"

definition EXTRINSIC_INDEX :: StorageKey where
  "EXTRINSIC_INDEX = ascii '':extrinsic_index''"

definition CHILD_STORAGE_KEY_PREFIX :: StorageKey where
  "CHILD_STORAGE_KEY_PREFIX = ascii '':child_storage:''"

definition is_child_storage_key :: "StorageKey \<Rightarrow> bool" where
  "is_child_storage_key key = prefix CHILD_STORAGE_KEY_PREFIX key"

definition NO_EXTRINSIC_INDEX :: "32 word" where
  "NO_EXTRINSIC_INDEX = 0xffffffff"

datatype ChildInfo = DefaultChild (keyspace: "8 word list")

definition try_update :: "ChildInfo \<Rightarrow> ChildInfo \<Rightarrow> bool" where
  "try_update ci other = (keyspace ci = keyspace other)"

section \<open>Maps\<close>

text \<open>\<open>entry(key).or_insert(d)\<close> with a change of the entry.\<close>

definition entry_or :: "'v \<Rightarrow> 'k::linorder \<Rightarrow> ('v \<Rightarrow> 'v) \<Rightarrow> ('k, 'v) rbt \<Rightarrow> ('k, 'v) rbt" where
  "entry_or d k f m = RBT.insert k (f (case RBT.lookup m k of None \<Rightarrow> d | Some v \<Rightarrow> v)) m"

text \<open>The first entry of the range that starts after a key.\<close>

definition range_after :: "'k::linorder \<Rightarrow> ('k, 'v) rbt \<Rightarrow> ('k \<times> 'v) option" where
  "range_after k m = find (\<lambda>e. k < fst e) (RBT.entries m)"

section \<open>The overlay\<close>

record OverlayedValue =
  ov_value :: "StorageValue option"
  ov_extrinsics :: "32 word set option"

type_synonym overlay_map = "(StorageKey, OverlayedValue) rbt"

record OverlayedChangeSet =
  top :: overlay_map
  children :: "(StorageKey, overlay_map \<times> ChildInfo) rbt"

record OverlayedChanges =
  prospective :: OverlayedChangeSet
  committed :: OverlayedChangeSet
  collect_extrinsics :: bool

definition default_value :: OverlayedValue where
  "default_value = \<lparr>ov_value = None, ov_extrinsics = None\<rparr>"

definition empty_changes :: OverlayedChangeSet where
  "empty_changes = \<lparr>top = RBT.empty, children = RBT.empty\<rparr>"

definition default_overlay :: OverlayedChanges where
  "default_overlay = \<lparr>prospective = empty_changes, committed = empty_changes, collect_extrinsics = False\<rparr>"

definition changes_is_empty :: "OverlayedChangeSet \<Rightarrow> bool" where
  "changes_is_empty c = (RBT.is_empty (top c) \<and> RBT.is_empty (children c))"

definition changes_clear :: "OverlayedChangeSet \<Rightarrow> OverlayedChangeSet" where
  "changes_clear c = c\<lparr>top := RBT.empty, children := RBT.empty\<rparr>"

definition overlay_is_empty :: "OverlayedChanges \<Rightarrow> bool" where
  "overlay_is_empty s = (changes_is_empty (prospective s) \<and> changes_is_empty (committed s))"

definition set_collect_extrinsics :: "bool \<Rightarrow> OverlayedChanges \<Rightarrow> OverlayedChanges" where
  "set_collect_extrinsics b s = s\<lparr>collect_extrinsics := b\<rparr>"

text \<open>Reading: \<open>None\<close> if the overlay does not know the key, \<open>Some None\<close> if it has been deleted.\<close>

definition overlay_storage :: "OverlayedChanges \<Rightarrow> StorageKey \<Rightarrow> StorageValue option option" where
  "overlay_storage s key =
     map_option ov_value
       (case RBT.lookup (top (prospective s)) key of Some v \<Rightarrow> Some v | None \<Rightarrow> RBT.lookup (top (committed s)) key)"

definition overlay_child_storage :: "OverlayedChanges \<Rightarrow> StorageKey \<Rightarrow> StorageKey \<Rightarrow> StorageValue option option" where
  "overlay_child_storage s storage_key key =
     (case Option.bind (RBT.lookup (children (prospective s)) storage_key) (\<lambda>m. RBT.lookup (fst m) key) of
        Some val \<Rightarrow> Some (ov_value val)
      | None \<Rightarrow>
          (case Option.bind (RBT.lookup (children (committed s)) storage_key) (\<lambda>m. RBT.lookup (fst m) key) of
             Some val \<Rightarrow> Some (ov_value val)
           | None \<Rightarrow> None))"

definition extrinsic_index :: "(8 word list \<Rightarrow> 32 word option) \<Rightarrow> OverlayedChanges \<Rightarrow> 32 word option" where
  "extrinsic_index dec s =
     (if collect_extrinsics s
      then Some (case Option.bind (overlay_storage s EXTRINSIC_INDEX) (\<lambda>idx. Option.bind idx dec) of
                   None \<Rightarrow> NO_EXTRINSIC_INDEX | Some i \<Rightarrow> i)
      else None)"

text \<open>Noting the extrinsic that changes an entry.\<close>

definition noted :: "32 word option \<Rightarrow> OverlayedValue \<Rightarrow> OverlayedValue" where
  "noted i e =
     (case i of
        None \<Rightarrow> e
      | Some extrinsic \<Rightarrow>
          e\<lparr>ov_extrinsics := Some (insert extrinsic (case ov_extrinsics e of None \<Rightarrow> {} | Some x \<Rightarrow> x))\<rparr>)"

definition set_storage ::
  "(8 word list \<Rightarrow> 32 word option) \<Rightarrow> StorageKey \<Rightarrow> StorageValue option \<Rightarrow> OverlayedChanges \<Rightarrow> OverlayedChanges" where
  "set_storage dec key val s =
     (let i = extrinsic_index dec s in
      s\<lparr>prospective := (prospective s)\<lparr>top :=
        entry_or default_value key (\<lambda>e. noted i (e\<lparr>ov_value := val\<rparr>)) (top (prospective s))\<rparr>\<rparr>)"

text \<open>An existing entry of a child keeps its info; the debug assertion that the infos are compatible is \<open>try_update\<close>.\<close>

definition set_child_storage ::
  "(8 word list \<Rightarrow> 32 word option) \<Rightarrow> StorageKey \<Rightarrow> ChildInfo \<Rightarrow> StorageKey \<Rightarrow> StorageValue option \<Rightarrow>
   OverlayedChanges \<Rightarrow> OverlayedChanges" where
  "set_child_storage dec storage_key ci key val s =
     (let i = extrinsic_index dec s in
      s\<lparr>prospective := (prospective s)\<lparr>children :=
        entry_or (RBT.empty, ci) storage_key
          (\<lambda>(m, info). (entry_or default_value key (\<lambda>e. noted i (e\<lparr>ov_value := val\<rparr>)) m, info))
          (children (prospective s))\<rparr>\<rparr>)"

text \<open>The committed keys of a child that the prospective changes do not have yet are marked deleted.\<close>

definition delete_committed :: "32 word option \<Rightarrow> overlay_map \<Rightarrow> overlay_map \<Rightarrow> overlay_map" where
  "delete_committed i committed_map m =
     fold (\<lambda>(key, val) m.
         if RBT.lookup m key = None
         then RBT.insert key \<lparr>ov_value = None,
                ov_extrinsics = map_option (\<lambda>i. insert i (case ov_extrinsics val of None \<Rightarrow> {} | Some e \<Rightarrow> e)) i\<rparr> m
         else m)
       (RBT.entries committed_map) m"

definition clear_child_storage ::
  "(8 word list \<Rightarrow> 32 word option) \<Rightarrow> StorageKey \<Rightarrow> ChildInfo \<Rightarrow> OverlayedChanges \<Rightarrow> OverlayedChanges" where
  "clear_child_storage dec storage_key ci s =
     (let i = extrinsic_index dec s;
          committed_map = (case RBT.lookup (children (committed s)) storage_key of None \<Rightarrow> RBT.empty | Some (m, _) \<Rightarrow> m)
      in s\<lparr>prospective := (prospective s)\<lparr>children :=
           entry_or (RBT.empty, ci) storage_key
             (\<lambda>(m, info). (delete_committed i committed_map (RBT.map (\<lambda>_ e. (noted i e)\<lparr>ov_value := None\<rparr>) m), info))
             (children (prospective s))\<rparr>\<rparr>)"

text \<open>Deleting the keys with a prefix, first those of the prospective changes, then the committed ones.\<close>

definition delete_prefix :: "32 word option \<Rightarrow> StorageKey \<Rightarrow> overlay_map \<Rightarrow> overlay_map \<Rightarrow> overlay_map" where
  "delete_prefix i p committed_map m =
     (let delete = (\<lambda>e. noted i (e\<lparr>ov_value := None\<rparr>));
          m1 = RBT.map (\<lambda>key e. if prefix p key then delete e else e) m
      in fold (\<lambda>key m. if prefix p key then entry_or default_value key delete m else m) (RBT.keys committed_map) m1)"

definition clear_prefix ::
  "(8 word list \<Rightarrow> 32 word option) \<Rightarrow> StorageKey \<Rightarrow> OverlayedChanges \<Rightarrow> OverlayedChanges" where
  "clear_prefix dec p s =
     (let i = extrinsic_index dec s in
      s\<lparr>prospective := (prospective s)\<lparr>top := delete_prefix i p (top (committed s)) (top (prospective s))\<rparr>\<rparr>)"

definition clear_child_prefix ::
  "(8 word list \<Rightarrow> 32 word option) \<Rightarrow> StorageKey \<Rightarrow> ChildInfo \<Rightarrow> StorageKey \<Rightarrow> OverlayedChanges \<Rightarrow> OverlayedChanges" where
  "clear_child_prefix dec storage_key ci p s =
     (let i = extrinsic_index dec s;
          child_committed = (case RBT.lookup (children (committed s)) storage_key of None \<Rightarrow> RBT.empty | Some (m, _) \<Rightarrow> m)
      in s\<lparr>prospective := (prospective s)\<lparr>children :=
           entry_or (RBT.empty, ci) storage_key (\<lambda>(m, info). (delete_prefix i p child_committed m, info))
             (children (prospective s))\<rparr>\<rparr>)"

section \<open>Transactions\<close>

definition discard_prospective :: "OverlayedChanges \<Rightarrow> OverlayedChanges" where
  "discard_prospective s = s\<lparr>prospective := changes_clear (prospective s)\<rparr>"

text \<open>Committing the entries of one map into another.\<close>

definition commit_value :: "OverlayedValue \<Rightarrow> OverlayedValue \<Rightarrow> OverlayedValue" where
  "commit_value val e =
     (let e1 = e\<lparr>ov_value := ov_value val\<rparr> in
      case ov_extrinsics val of
        None \<Rightarrow> e1
      | Some x \<Rightarrow> e1\<lparr>ov_extrinsics := Some ((case ov_extrinsics e1 of None \<Rightarrow> {} | Some y \<Rightarrow> y) \<union> x)\<rparr>)"

definition commit_map :: "overlay_map \<Rightarrow> overlay_map \<Rightarrow> overlay_map" where
  "commit_map from to = fold (\<lambda>(key, val) m. entry_or default_value key (commit_value val) m) (RBT.entries from) to"

definition commit_prospective :: "OverlayedChanges \<Rightarrow> OverlayedChanges" where
  "commit_prospective s =
     (if changes_is_empty (committed s)
      then s\<lparr>prospective := committed s, committed := prospective s\<rparr>
      else let t = commit_map (top (prospective s)) (top (committed s));
               cs = fold (\<lambda>(storage_key, (m, ci)) cs.
                          entry_or (RBT.empty, ci) storage_key (\<lambda>(c, info). (commit_map m c, info)) cs)
                      (RBT.entries (children (prospective s))) (children (committed s))
           in s\<lparr>prospective := \<lparr>top = RBT.empty, children = RBT.empty\<rparr>,
                committed := \<lparr>top = t, children = cs\<rparr>\<rparr>)"

text \<open>\<open>None\<close> is the panic on uncommitted changes.\<close>

definition drain_committed ::
  "OverlayedChanges \<Rightarrow>
   ((StorageKey \<times> StorageValue option) list \<times>
    (StorageKey \<times> ((StorageKey \<times> StorageValue option) list \<times> ChildInfo)) list \<times> OverlayedChanges) option" where
  "drain_committed s =
     (if \<not> changes_is_empty (prospective s) then None
      else Some (map (\<lambda>(k, v). (k, ov_value v)) (RBT.entries (top (committed s))),
                 map (\<lambda>(sk, (m, ci)). (sk, (map (\<lambda>(k, v). (k, ov_value v)) (RBT.entries m), ci)))
                   (RBT.entries (children (committed s))),
                 s\<lparr>committed := changes_clear (committed s)\<rparr>))"

section \<open>Child infos and iteration\<close>

definition child_info :: "OverlayedChanges \<Rightarrow> StorageKey \<Rightarrow> ChildInfo option" where
  "child_info s storage_key =
     (case RBT.lookup (children (prospective s)) storage_key of
        Some (_, ci) \<Rightarrow> Some ci
      | None \<Rightarrow> map_option snd (RBT.lookup (children (committed s)) storage_key))"

definition next_change ::
  "(StorageKey \<times> OverlayedValue) option \<Rightarrow> (StorageKey \<times> OverlayedValue) option \<Rightarrow> (StorageKey \<times> OverlayedValue) option" where
  "next_change next_committed_key next_prospective_key =
     (case (next_committed_key, next_prospective_key) of
        (Some c, Some p) \<Rightarrow> if fst c < fst p then Some c else Some p
      | (c, None) \<Rightarrow> c
      | (_, p) \<Rightarrow> p)"

definition next_storage_key_change :: "OverlayedChanges \<Rightarrow> StorageKey \<Rightarrow> (StorageKey \<times> OverlayedValue) option" where
  "next_storage_key_change s key =
     next_change (range_after key (top (committed s))) (range_after key (top (prospective s)))"

definition next_child_storage_key_change ::
  "OverlayedChanges \<Rightarrow> StorageKey \<Rightarrow> StorageKey \<Rightarrow> (StorageKey \<times> OverlayedValue) option" where
  "next_child_storage_key_change s storage_key key =
     next_change
       (Option.bind (RBT.lookup (children (committed s)) storage_key) (\<lambda>(m, _). range_after key m))
       (Option.bind (RBT.lookup (children (prospective s)) storage_key) (\<lambda>(m, _). range_after key m))"

end
