(* ===== verification/Externalities.thy ===== *)
theory Externalities
  imports Storage_Overlay
begin

text \<open>
  How the runtime reads and writes state. \<open>Ext\<close> (\<open>primitives/state-machine/src/ext.rs\<close>) works on the
  overlay over a backend, \<open>BasicExternalities\<close> (\<open>basic.rs\<close>) directly on maps. The trait \<open>Backend\<close>
  (\<open>backend.rs\<close>) is a record of operations, implemented in memory (\<open>in_memory_backend.rs\<close>). Hashing, the
  computation of trie roots and the codec are parameters. An outer \<open>None\<close> is a panic.
\<close>

section \<open>Backends\<close>

type_synonym StorageCollection = "(StorageKey \<times> StorageValue option) list"

record ('e, 'r, 't) Backend =
  b_storage :: "StorageKey \<Rightarrow> (StorageValue option, 'e) result"
  b_child_storage :: "StorageKey \<Rightarrow> ChildInfo \<Rightarrow> StorageKey \<Rightarrow> (StorageValue option, 'e) result"
  b_exists_storage :: "StorageKey \<Rightarrow> (bool, 'e) result"
  b_exists_child_storage :: "StorageKey \<Rightarrow> ChildInfo \<Rightarrow> StorageKey \<Rightarrow> (bool, 'e) result"
  b_next_storage_key :: "StorageKey \<Rightarrow> (StorageKey option, 'e) result"
  b_next_child_storage_key :: "StorageKey \<Rightarrow> ChildInfo \<Rightarrow> StorageKey \<Rightarrow> (StorageKey option, 'e) result"
  b_keys_with_prefix :: "StorageKey \<Rightarrow> StorageKey list"
  b_keys_in_child_storage :: "StorageKey \<Rightarrow> ChildInfo \<Rightarrow> StorageKey list"
  b_child_keys_with_prefix :: "StorageKey \<Rightarrow> ChildInfo \<Rightarrow> StorageKey \<Rightarrow> StorageKey list"
  b_storage_root :: "StorageCollection \<Rightarrow> 'r \<times> 't"
  b_child_storage_root :: "StorageKey \<Rightarrow> ChildInfo \<Rightarrow> StorageCollection \<Rightarrow> 'r \<times> bool \<times> 't"
  b_tx_default :: 't
  b_consolidate :: "'t \<Rightarrow> 't \<Rightarrow> 't"

text \<open>Methods with a default.\<close>

definition default_exists_storage :: "(StorageKey \<Rightarrow> (StorageValue option, 'e) result) \<Rightarrow> StorageKey \<Rightarrow> (bool, 'e) result" where
  "default_exists_storage storage key = and_then (storage key) (\<lambda>v. Ok (v \<noteq> None))"

definition default_exists_child_storage ::
  "(StorageKey \<Rightarrow> ChildInfo \<Rightarrow> StorageKey \<Rightarrow> (StorageValue option, 'e) result) \<Rightarrow>
   StorageKey \<Rightarrow> ChildInfo \<Rightarrow> StorageKey \<Rightarrow> (bool, 'e) result" where
  "default_exists_child_storage child_storage storage_key ci key =
     and_then (child_storage storage_key ci key) (\<lambda>v. Ok (v \<noteq> None))"

definition backend_storage_hash ::
  "(8 word list \<Rightarrow> 'r) \<Rightarrow> ('e, 'r, 't) Backend \<Rightarrow> StorageKey \<Rightarrow> ('r option, 'e) result" where
  "backend_storage_hash hash B key = and_then (b_storage B key) (\<lambda>v. Ok (map_option hash v))"

definition backend_child_storage_hash ::
  "(8 word list \<Rightarrow> 'r) \<Rightarrow> ('e, 'r, 't) Backend \<Rightarrow> StorageKey \<Rightarrow> ChildInfo \<Rightarrow> StorageKey \<Rightarrow> ('r option, 'e) result" where
  "backend_child_storage_hash hash B storage_key ci key =
     and_then (b_child_storage B storage_key ci key) (\<lambda>v. Ok (map_option hash v))"

definition full_storage_root ::
  "('r \<Rightarrow> 8 word list) \<Rightarrow> ('e, 'r, 't) Backend \<Rightarrow> StorageCollection \<Rightarrow>
   (StorageKey \<times> StorageCollection \<times> ChildInfo) list \<Rightarrow> 'r \<times> 't" where
  "full_storage_root enc B delta child_deltas =
     (let (txs, child_roots) =
        foldl (\<lambda>(txs, child_roots) (storage_key, child_delta, ci).
            let (child_root, is_empty, child_txs) = b_child_storage_root B storage_key ci child_delta in
            (b_consolidate B txs child_txs,
             child_roots @ [(storage_key, if is_empty then None else Some (enc child_root))]))
          (b_tx_default B, []) child_deltas;
        (root, parent_txs) = b_storage_root B (delta @ child_roots)
      in (root, b_consolidate B txs parent_txs))"

section \<open>The backend in memory\<close>

type_synonym storage_map = "(StorageKey, StorageValue) rbt"

record InMemory =
  inner :: "(StorageKey \<times> ChildInfo) option \<Rightarrow> storage_map option"

definition put_values :: "StorageCollection \<Rightarrow> storage_map \<Rightarrow> storage_map" where
  "put_values key_values m =
     fold (\<lambda>(key, val) m. case val of Some v \<Rightarrow> RBT.insert key v m | None \<Rightarrow> RBT.delete key m) key_values m"

definition im_update :: "((StorageKey \<times> ChildInfo) option \<times> StorageCollection) list \<Rightarrow> InMemory \<Rightarrow> InMemory" where
  "im_update changes s =
     \<lparr>inner = fold (\<lambda>(ci, key_values) m.
        m(ci \<mapsto> put_values key_values (case m ci of None \<Rightarrow> RBT.empty | Some e \<Rightarrow> e))) changes (inner s)\<rparr>"

definition im_storage :: "InMemory \<Rightarrow> StorageKey \<Rightarrow> (StorageValue option, 'e) result" where
  "im_storage s key = Ok (Option.bind (inner s None) (\<lambda>m. RBT.lookup m key))"

definition im_child_storage :: "InMemory \<Rightarrow> StorageKey \<Rightarrow> ChildInfo \<Rightarrow> StorageKey \<Rightarrow> (StorageValue option, 'e) result" where
  "im_child_storage s storage_key ci key = Ok (Option.bind (inner s (Some (storage_key, ci))) (\<lambda>m. RBT.lookup m key))"

definition im_exists_storage :: "InMemory \<Rightarrow> StorageKey \<Rightarrow> (bool, 'e) result" where
  "im_exists_storage s key = Ok (case inner s None of None \<Rightarrow> False | Some m \<Rightarrow> RBT.lookup m key \<noteq> None)"

definition im_for_keys_with_prefix :: "InMemory \<Rightarrow> StorageKey \<Rightarrow> StorageKey list" where
  "im_for_keys_with_prefix s p = (case inner s None of None \<Rightarrow> [] | Some m \<Rightarrow> filter (prefix p) (RBT.keys m))"

definition im_for_keys_in_child_storage :: "InMemory \<Rightarrow> StorageKey \<Rightarrow> ChildInfo \<Rightarrow> StorageKey list" where
  "im_for_keys_in_child_storage s storage_key ci =
     (case inner s (Some (storage_key, ci)) of None \<Rightarrow> [] | Some m \<Rightarrow> RBT.keys m)"

definition im_for_child_keys_with_prefix :: "InMemory \<Rightarrow> StorageKey \<Rightarrow> ChildInfo \<Rightarrow> StorageKey \<Rightarrow> StorageKey list" where
  "im_for_child_keys_with_prefix s storage_key ci p =
     (case inner s (Some (storage_key, ci)) of None \<Rightarrow> [] | Some m \<Rightarrow> filter (prefix p) (RBT.keys m))"

definition im_next_storage_key :: "InMemory \<Rightarrow> StorageKey \<Rightarrow> (StorageKey option, 'e) result" where
  "im_next_storage_key s key = Ok (Option.bind (inner s None) (\<lambda>m. map_option fst (range_after key m)))"

definition im_next_child_storage_key ::
  "InMemory \<Rightarrow> StorageKey \<Rightarrow> ChildInfo \<Rightarrow> StorageKey \<Rightarrow> (StorageKey option, 'e) result" where
  "im_next_child_storage_key s storage_key ci key =
     Ok (Option.bind (inner s (Some (storage_key, ci))) (\<lambda>m. map_option fst (range_after key m)))"

definition im_pairs :: "InMemory \<Rightarrow> (StorageKey \<times> StorageValue) list" where
  "im_pairs s = (case inner s None of None \<Rightarrow> [] | Some m \<Rightarrow> RBT.entries m)"

text \<open>The map with the delta applied, from which the root is computed.\<close>

definition with_delta :: "storage_map option \<Rightarrow> StorageCollection \<Rightarrow> StorageKey \<Rightarrow> StorageValue option" where
  "with_delta m delta key =
     Option.bind (map_of (rev ((case m of None \<Rightarrow> [] | Some t \<Rightarrow> map (\<lambda>(k, v). (k, Some v)) (RBT.entries t)) @ delta)) key) id"

definition im_storage_root ::
  "((StorageKey \<Rightarrow> StorageValue option) \<Rightarrow> 'r) \<Rightarrow> InMemory \<Rightarrow> StorageCollection \<Rightarrow>
   'r \<times> ((StorageKey \<times> ChildInfo) option \<times> StorageCollection) list" where
  "im_storage_root trie_root s delta = (trie_root (with_delta (inner s None) delta), [(None, delta)])"

definition im_child_storage_root ::
  "(StorageKey \<Rightarrow> (StorageKey \<Rightarrow> StorageValue option) \<Rightarrow> 'r) \<Rightarrow> (StorageKey \<Rightarrow> 'r) \<Rightarrow> InMemory \<Rightarrow>
   StorageKey \<Rightarrow> ChildInfo \<Rightarrow> StorageCollection \<Rightarrow>
   'r \<times> bool \<times> ((StorageKey \<times> ChildInfo) option \<times> StorageCollection) list" where
  "im_child_storage_root child_trie_root default_root s storage_key ci delta =
     (let root = child_trie_root storage_key (with_delta (inner s (Some (storage_key, ci))) delta) in
      (root, root = default_root storage_key, [(Some (storage_key, ci), delta)]))"

definition in_memory_backend ::
  "((StorageKey \<Rightarrow> StorageValue option) \<Rightarrow> 'r) \<Rightarrow> (StorageKey \<Rightarrow> (StorageKey \<Rightarrow> StorageValue option) \<Rightarrow> 'r) \<Rightarrow>
   (StorageKey \<Rightarrow> 'r) \<Rightarrow> InMemory \<Rightarrow>
   ('e, 'r, ((StorageKey \<times> ChildInfo) option \<times> StorageCollection) list) Backend" where
  "in_memory_backend trie_root child_trie_root default_root s =
     \<lparr>b_storage = im_storage s, b_child_storage = im_child_storage s,
      b_exists_storage = im_exists_storage s,
      b_exists_child_storage = default_exists_child_storage (im_child_storage s),
      b_next_storage_key = im_next_storage_key s, b_next_child_storage_key = im_next_child_storage_key s,
      b_keys_with_prefix = im_for_keys_with_prefix s, b_keys_in_child_storage = im_for_keys_in_child_storage s,
      b_child_keys_with_prefix = im_for_child_keys_with_prefix s,
      b_storage_root = im_storage_root trie_root s,
      b_child_storage_root = im_child_storage_root child_trie_root default_root s,
      b_tx_default = [], b_consolidate = (@)\<rparr>"

section \<open>The externalities of an execution\<close>

record ('r, 't) StorageTransactionCache =
  transaction :: "'t option"
  transaction_storage_root :: "'r option"

definition reset_cache :: "('r, 't) StorageTransactionCache" where
  "reset_cache = \<lparr>transaction = None, transaction_storage_root = None\<rparr>"

record ('r, 't) Ext =
  overlay :: OverlayedChanges
  storage_transaction_cache :: "('r, 't) StorageTransactionCache"

definition mark_dirty :: "('r, 't) Ext \<Rightarrow> ('r, 't) Ext" where
  "mark_dirty x = x\<lparr>storage_transaction_cache := reset_cache\<rparr>"

text \<open>\<open>expect\<close> on a result of the backend.\<close>

definition expect :: "('a, 'e) result \<Rightarrow> 'a option" where
  "expect r = (case r of Inl _ \<Rightarrow> None | Inr a \<Rightarrow> Some a)"

definition ext_storage :: "('e, 'r, 't) Backend \<Rightarrow> ('r, 't) Ext \<Rightarrow> StorageKey \<Rightarrow> StorageValue option option" where
  "ext_storage B x key =
     (case overlay_storage (overlay x) key of Some v \<Rightarrow> Some v | None \<Rightarrow> expect (b_storage B key))"

definition ext_storage_hash ::
  "(8 word list \<Rightarrow> 'r) \<Rightarrow> ('r \<Rightarrow> 8 word list) \<Rightarrow> ('e, 'r, 't) Backend \<Rightarrow> ('r, 't) Ext \<Rightarrow> StorageKey \<Rightarrow>
   8 word list option option" where
  "ext_storage_hash hash enc B x key =
     map_option (map_option enc)
       (case overlay_storage (overlay x) key of
          Some v \<Rightarrow> Some (map_option hash v)
        | None \<Rightarrow> expect (backend_storage_hash hash B key))"

definition ext_original_storage :: "('e, 'r, 't) Backend \<Rightarrow> StorageKey \<Rightarrow> StorageValue option option" where
  "ext_original_storage B key = expect (b_storage B key)"

definition ext_original_storage_hash ::
  "(8 word list \<Rightarrow> 'r) \<Rightarrow> ('r \<Rightarrow> 8 word list) \<Rightarrow> ('e, 'r, 't) Backend \<Rightarrow> StorageKey \<Rightarrow> 8 word list option option" where
  "ext_original_storage_hash hash enc B key = map_option (map_option enc) (expect (backend_storage_hash hash B key))"

definition ext_child_storage ::
  "('e, 'r, 't) Backend \<Rightarrow> ('r, 't) Ext \<Rightarrow> StorageKey \<Rightarrow> ChildInfo \<Rightarrow> StorageKey \<Rightarrow> StorageValue option option" where
  "ext_child_storage B x storage_key ci key =
     (case overlay_child_storage (overlay x) storage_key key of
        Some v \<Rightarrow> Some v
      | None \<Rightarrow> expect (b_child_storage B storage_key ci key))"

definition ext_child_storage_hash ::
  "(8 word list \<Rightarrow> 'r) \<Rightarrow> ('r \<Rightarrow> 8 word list) \<Rightarrow> ('e, 'r, 't) Backend \<Rightarrow> ('r, 't) Ext \<Rightarrow> StorageKey \<Rightarrow> ChildInfo \<Rightarrow>
   StorageKey \<Rightarrow> 8 word list option option" where
  "ext_child_storage_hash hash enc B x storage_key ci key =
     map_option (map_option enc)
       (case overlay_child_storage (overlay x) storage_key key of
          Some v \<Rightarrow> Some (map_option hash v)
        | None \<Rightarrow> expect (backend_child_storage_hash hash B storage_key ci key))"

definition ext_original_child_storage ::
  "('e, 'r, 't) Backend \<Rightarrow> StorageKey \<Rightarrow> ChildInfo \<Rightarrow> StorageKey \<Rightarrow> StorageValue option option" where
  "ext_original_child_storage B storage_key ci key = expect (b_child_storage B storage_key ci key)"

definition ext_original_child_storage_hash ::
  "(8 word list \<Rightarrow> 'r) \<Rightarrow> ('r \<Rightarrow> 8 word list) \<Rightarrow> ('e, 'r, 't) Backend \<Rightarrow> StorageKey \<Rightarrow> ChildInfo \<Rightarrow> StorageKey \<Rightarrow>
   8 word list option option" where
  "ext_original_child_storage_hash hash enc B storage_key ci key =
     map_option (map_option enc) (expect (backend_child_storage_hash hash B storage_key ci key))"

definition ext_exists_storage :: "('e, 'r, 't) Backend \<Rightarrow> ('r, 't) Ext \<Rightarrow> StorageKey \<Rightarrow> bool option" where
  "ext_exists_storage B x key =
     (case overlay_storage (overlay x) key of Some v \<Rightarrow> Some (v \<noteq> None) | None \<Rightarrow> expect (b_exists_storage B key))"

definition ext_exists_child_storage ::
  "('e, 'r, 't) Backend \<Rightarrow> ('r, 't) Ext \<Rightarrow> StorageKey \<Rightarrow> ChildInfo \<Rightarrow> StorageKey \<Rightarrow> bool option" where
  "ext_exists_child_storage B x storage_key ci key =
     (case overlay_child_storage (overlay x) storage_key key of
        Some v \<Rightarrow> Some (v \<noteq> None)
      | None \<Rightarrow> expect (b_exists_child_storage B storage_key ci key))"

section \<open>The next key\<close>

text \<open>What a search for the next entry finds lies after the key.\<close>

lemma range_after_Some: "range_after k m = Some (k', v) \<Longrightarrow> k < k' \<and> RBT.lookup m k' = Some v"
proof -
  assume "range_after k m = Some (k', v)"
  then obtain i where "i < length (RBT.entries m)" "k < fst (RBT.entries m ! i)" "(k', v) = RBT.entries m ! i"
    by (auto simp: range_after_def find_Some_iff)
  then have "k < k'" "(k', v) \<in> set (RBT.entries m)" using nth_mem by (metis fst_conv, metis nth_mem)
  then show ?thesis using map_of_is_SomeI [OF RBT.distinct_entries [of m]] by (simp add: RBT.map_of_entries)
qed

lemma next_change_Some:
  "next_change c p = Some e \<Longrightarrow> c = Some e \<or> p = Some e"
  by (cases c; cases p) (auto simp: next_change_def split: if_splits)

text \<open>
  \<open>next_storage_key\<close> and \<open>next_child_storage_key\<close> differ in the maps they search: the committed and the
  prospective changes of the top level or of a child, next to the backend. A deleted key is passed over.
\<close>

function next_key ::
  "(StorageKey \<Rightarrow> (StorageKey option, 'e) result) \<Rightarrow> overlay_map \<Rightarrow> overlay_map \<Rightarrow> StorageKey \<Rightarrow> StorageKey option option" where
  "next_key backend_next cm pm key =
     (case backend_next key of
        Inl _ \<Rightarrow> None
      | Inr next_backend_key \<Rightarrow>
          (case next_change (range_after key cm) (range_after key pm) of
             None \<Rightarrow> Some next_backend_key
           | Some (k, v) \<Rightarrow>
               if (case next_backend_key of Some b \<Rightarrow> b < k | None \<Rightarrow> False) then Some next_backend_key
               else if ov_value v \<noteq> None then Some (Some k)
               else next_key backend_next cm pm k))"
  by pat_completeness auto

termination
proof (relation "measure (\<lambda>(_, cm, pm, key). length (filter (\<lambda>k. key < k) (RBT.keys cm @ RBT.keys pm)))")
  fix backend_next :: "StorageKey \<Rightarrow> (StorageKey option, 'e) result" and cm pm :: overlay_map and key k :: StorageKey
    and v :: OverlayedValue and e
  assume "next_change (range_after key cm) (range_after key pm) = Some e" "(k, v) = e"
  then have "range_after key cm = Some (k, v) \<or> range_after key pm = Some (k, v)" using next_change_Some by blast
  then have k: "key < k" "k \<in> set (RBT.keys cm @ RBT.keys pm)"
    by (auto dest!: range_after_Some simp: RBT.lookup_keys [symmetric] dom_def)
  let ?ks = "RBT.keys cm @ RBT.keys pm"
  have "length (filter (\<lambda>x. k < x) ?ks) = length (filter (\<lambda>x. k < x) (filter (\<lambda>x. key < x) ?ks))"
  proof -
    have "(\<lambda>x. key < x \<and> k < x) = (\<lambda>x. k < x)" using k(1) less_trans [of key k] by blast
    then show ?thesis by (simp only: filter_filter)
  qed
  also have "\<dots> < length (filter (\<lambda>x. key < x) ?ks)"
    using k by (intro length_filter_less [of k]) auto
  finally show "((backend_next, cm, pm, k), (backend_next, cm, pm, key)) \<in>
      measure (\<lambda>(_, cm, pm, key). length (filter (\<lambda>k. key < k) (RBT.keys cm @ RBT.keys pm)))" by simp
qed simp

declare next_key.simps [simp del]

definition ext_next_storage_key :: "('e, 'r, 't) Backend \<Rightarrow> ('r, 't) Ext \<Rightarrow> StorageKey \<Rightarrow> StorageKey option option" where
  "ext_next_storage_key B x key =
     next_key (b_next_storage_key B) (top (committed (overlay x))) (top (prospective (overlay x))) key"

definition child_map :: "OverlayedChangeSet \<Rightarrow> StorageKey \<Rightarrow> overlay_map" where
  "child_map c storage_key = (case RBT.lookup (children c) storage_key of None \<Rightarrow> RBT.empty | Some (m, _) \<Rightarrow> m)"

definition ext_next_child_storage_key ::
  "('e, 'r, 't) Backend \<Rightarrow> ('r, 't) Ext \<Rightarrow> StorageKey \<Rightarrow> ChildInfo \<Rightarrow> StorageKey \<Rightarrow> StorageKey option option" where
  "ext_next_child_storage_key B x storage_key ci key =
     next_key (b_next_child_storage_key B storage_key ci)
       (child_map (committed (overlay x)) storage_key) (child_map (prospective (overlay x)) storage_key) key"

section \<open>Writing\<close>

definition place_storage ::
  "(8 word list \<Rightarrow> 32 word option) \<Rightarrow> StorageKey \<Rightarrow> StorageValue option \<Rightarrow> ('r, 't) Ext \<Rightarrow> ('r, 't) Ext" where
  "place_storage dec key val x =
     (if is_child_storage_key key then x
      else let x1 = mark_dirty x in x1\<lparr>overlay := set_storage dec key val (overlay x1)\<rparr>)"

definition place_child_storage ::
  "(8 word list \<Rightarrow> 32 word option) \<Rightarrow> StorageKey \<Rightarrow> ChildInfo \<Rightarrow> StorageKey \<Rightarrow> StorageValue option \<Rightarrow>
   ('r, 't) Ext \<Rightarrow> ('r, 't) Ext" where
  "place_child_storage dec storage_key ci key val x =
     (let x1 = mark_dirty x in x1\<lparr>overlay := set_child_storage dec storage_key ci key val (overlay x1)\<rparr>)"

definition kill_child_storage ::
  "(8 word list \<Rightarrow> 32 word option) \<Rightarrow> ('e, 'r, 't) Backend \<Rightarrow> StorageKey \<Rightarrow> ChildInfo \<Rightarrow> ('r, 't) Ext \<Rightarrow> ('r, 't) Ext" where
  "kill_child_storage dec B storage_key ci x =
     (let x1 = mark_dirty x;
          o1 = clear_child_storage dec storage_key ci (overlay x1)
      in x1\<lparr>overlay := fold (\<lambda>key. set_child_storage dec storage_key ci key None)
           (b_keys_in_child_storage B storage_key ci) o1\<rparr>)"

definition ext_clear_prefix ::
  "(8 word list \<Rightarrow> 32 word option) \<Rightarrow> ('e, 'r, 't) Backend \<Rightarrow> StorageKey \<Rightarrow> ('r, 't) Ext \<Rightarrow> ('r, 't) Ext" where
  "ext_clear_prefix dec B p x =
     (if is_child_storage_key p then x
      else let x1 = mark_dirty x;
               o1 = clear_prefix dec p (overlay x1)
           in x1\<lparr>overlay := fold (\<lambda>key. set_storage dec key None) (b_keys_with_prefix B p) o1\<rparr>)"

definition ext_clear_child_prefix ::
  "(8 word list \<Rightarrow> 32 word option) \<Rightarrow> ('e, 'r, 't) Backend \<Rightarrow> StorageKey \<Rightarrow> ChildInfo \<Rightarrow> StorageKey \<Rightarrow>
   ('r, 't) Ext \<Rightarrow> ('r, 't) Ext" where
  "ext_clear_child_prefix dec B storage_key ci p x =
     (let x1 = mark_dirty x;
          o1 = clear_child_prefix dec storage_key ci p (overlay x1)
      in x1\<lparr>overlay := fold (\<lambda>key. set_child_storage dec storage_key ci key None)
           (b_child_keys_with_prefix B storage_key ci p) o1\<rparr>)"

section \<open>Roots\<close>

definition changed_values :: "overlay_map \<Rightarrow> StorageCollection" where
  "changed_values m = map (\<lambda>(k, v). (k, ov_value v)) (RBT.entries m)"

definition child_deltas :: "OverlayedChanges \<Rightarrow> (StorageKey \<times> StorageCollection \<times> ChildInfo) list option" where
  "child_deltas s =
     those (map (\<lambda>storage_key.
         map_option (\<lambda>ci. (storage_key,
             changed_values (child_map (committed s) storage_key) @ changed_values (child_map (prospective s) storage_key), ci))
           (child_info s storage_key))
       (RBT.keys (children (prospective s)) @ RBT.keys (children (committed s))))"

text \<open>\<open>OverlayedChanges::storage_root\<close>; a child without an info would panic.\<close>

definition overlay_storage_root ::
  "('r \<Rightarrow> 8 word list) \<Rightarrow> ('e, 'r, 't) Backend \<Rightarrow> OverlayedChanges \<Rightarrow>
   ('r \<times> ('r, 't) StorageTransactionCache) option" where
  "overlay_storage_root enc B s =
     (case child_deltas s of
        None \<Rightarrow> None
      | Some cds \<Rightarrow>
          let (root, tx) = full_storage_root enc B (changed_values (top (committed s)) @ changed_values (top (prospective s))) cds
          in Some (root, \<lparr>transaction = Some tx, transaction_storage_root = Some root\<rparr>))"

definition ext_storage_root ::
  "('r \<Rightarrow> 8 word list) \<Rightarrow> ('e, 'r, 't) Backend \<Rightarrow> ('r, 't) Ext \<Rightarrow> (8 word list \<times> ('r, 't) Ext) option" where
  "ext_storage_root enc B x =
     (case transaction_storage_root (storage_transaction_cache x) of
        Some root \<Rightarrow> Some (enc root, x)
      | None \<Rightarrow>
          map_option (\<lambda>(root, c). (enc root, x\<lparr>storage_transaction_cache := c\<rparr>))
            (overlay_storage_root enc B (overlay x)))"

definition stored_child_root ::
  "(8 word list \<Rightarrow> 'r option) \<Rightarrow> (StorageKey \<Rightarrow> 'r) \<Rightarrow> ('e, 'r, 't) Backend \<Rightarrow> ('r, 't) Ext \<Rightarrow> StorageKey \<Rightarrow> 'r option" where
  "stored_child_root dec_root default_root B x storage_key =
     map_option (\<lambda>k. case Option.bind k dec_root of Some r \<Rightarrow> r | None \<Rightarrow> default_root storage_key) (ext_storage B x storage_key)"

definition ext_child_storage_root ::
  "(8 word list \<Rightarrow> 32 word option) \<Rightarrow> ('r \<Rightarrow> 8 word list) \<Rightarrow> (8 word list \<Rightarrow> 'r option) \<Rightarrow> (StorageKey \<Rightarrow> 'r) \<Rightarrow>
   ('e, 'r, 't) Backend \<Rightarrow> StorageKey \<Rightarrow> ('r, 't) Ext \<Rightarrow> (8 word list \<times> ('r, 't) Ext) option" where
  "ext_child_storage_root dec enc dec_root default_root B storage_key x =
     (if transaction_storage_root (storage_transaction_cache x) \<noteq> None
      then map_option (\<lambda>root. (enc root, x)) (stored_child_root dec_root default_root B x storage_key)
      else case child_info (overlay x) storage_key of
             Some ci \<Rightarrow>
               let delta = changed_values (child_map (committed (overlay x)) storage_key) @
                           changed_values (child_map (prospective (overlay x)) storage_key);
                   (root, is_empty, _) = b_child_storage_root B storage_key ci delta
               in Some (enc root,
                    x\<lparr>overlay := set_storage dec storage_key (if is_empty then None else Some (enc root)) (overlay x)\<rparr>)
           | None \<Rightarrow> map_option (\<lambda>root. (enc root, x)) (stored_child_root dec_root default_root B x storage_key))"

section \<open>Externalities on maps\<close>

record StorageChild =
  child_data :: storage_map
  sc_info :: ChildInfo

record Storage =
  st_top :: storage_map
  st_children :: "(StorageKey, StorageChild) rbt"

definition basic_storage :: "Storage \<Rightarrow> StorageKey \<Rightarrow> StorageValue option" where
  "basic_storage s key = RBT.lookup (st_top s) key"

definition basic_storage_hash :: "(8 word list \<Rightarrow> 'r) \<Rightarrow> ('r \<Rightarrow> 8 word list) \<Rightarrow> Storage \<Rightarrow> StorageKey \<Rightarrow> 8 word list option" where
  "basic_storage_hash hash enc s key = map_option (\<lambda>v. enc (hash v)) (basic_storage s key)"

definition basic_child_storage :: "Storage \<Rightarrow> StorageKey \<Rightarrow> StorageKey \<Rightarrow> StorageValue option" where
  "basic_child_storage s storage_key key =
     Option.bind (RBT.lookup (st_children s) storage_key) (\<lambda>child. RBT.lookup (child_data child) key)"

definition basic_child_storage_hash ::
  "(8 word list \<Rightarrow> 'r) \<Rightarrow> ('r \<Rightarrow> 8 word list) \<Rightarrow> Storage \<Rightarrow> StorageKey \<Rightarrow> StorageKey \<Rightarrow> 8 word list option" where
  "basic_child_storage_hash hash enc s storage_key key = map_option (\<lambda>v. enc (hash v)) (basic_child_storage s storage_key key)"

definition basic_next_storage_key :: "Storage \<Rightarrow> StorageKey \<Rightarrow> StorageKey option" where
  "basic_next_storage_key s key = map_option fst (range_after key (st_top s))"

definition basic_next_child_storage_key :: "Storage \<Rightarrow> StorageKey \<Rightarrow> StorageKey \<Rightarrow> StorageKey option" where
  "basic_next_child_storage_key s storage_key key =
     Option.bind (RBT.lookup (st_children s) storage_key) (\<lambda>child. map_option fst (range_after key (child_data child)))"

definition basic_place_storage :: "StorageKey \<Rightarrow> StorageValue option \<Rightarrow> Storage \<Rightarrow> Storage" where
  "basic_place_storage key val s =
     (if is_child_storage_key key then s
      else s\<lparr>st_top := (case val of Some v \<Rightarrow> RBT.insert key v (st_top s) | None \<Rightarrow> RBT.delete key (st_top s))\<rparr>)"

definition basic_place_child_storage ::
  "StorageKey \<Rightarrow> ChildInfo \<Rightarrow> StorageKey \<Rightarrow> StorageValue option \<Rightarrow> Storage \<Rightarrow> Storage" where
  "basic_place_child_storage storage_key ci key val s =
     s\<lparr>st_children := entry_or \<lparr>child_data = RBT.empty, sc_info = ci\<rparr> storage_key
         (\<lambda>c. c\<lparr>child_data := (case val of Some v \<Rightarrow> RBT.insert key v (child_data c) | None \<Rightarrow> RBT.delete key (child_data c))\<rparr>)
         (st_children s)\<rparr>"

definition basic_kill_child_storage :: "StorageKey \<Rightarrow> Storage \<Rightarrow> Storage" where
  "basic_kill_child_storage storage_key s = s\<lparr>st_children := RBT.delete storage_key (st_children s)\<rparr>"

text \<open>Removing the keys from the range that starts at a prefix, as long as they have it.\<close>

definition remove_range :: "StorageKey \<Rightarrow> storage_map \<Rightarrow> storage_map" where
  "remove_range p m =
     (let to_remove = takeWhile (prefix p) (dropWhile (\<lambda>k. k < p) (RBT.keys m)) in fold RBT.delete to_remove m)"

definition basic_clear_prefix :: "StorageKey \<Rightarrow> Storage \<Rightarrow> Storage" where
  "basic_clear_prefix p s = (if is_child_storage_key p then s else s\<lparr>st_top := remove_range p (st_top s)\<rparr>)"

definition basic_clear_child_prefix :: "StorageKey \<Rightarrow> StorageKey \<Rightarrow> Storage \<Rightarrow> Storage" where
  "basic_clear_child_prefix storage_key p s =
     (case RBT.lookup (st_children s) storage_key of
        None \<Rightarrow> s
      | Some child \<Rightarrow>
          s\<lparr>st_children := RBT.insert storage_key (child\<lparr>child_data := remove_range p (child_data child)\<rparr>) (st_children s)\<rparr>)"

definition basic_child_storage_root ::
  "(StorageKey \<Rightarrow> (StorageKey \<Rightarrow> StorageValue option) \<Rightarrow> 'r) \<Rightarrow> (StorageKey \<Rightarrow> 'r) \<Rightarrow> ('r \<Rightarrow> 8 word list) \<Rightarrow>
   Storage \<Rightarrow> StorageKey \<Rightarrow> 8 word list" where
  "basic_child_storage_root child_trie_root default_root enc s storage_key =
     enc (case RBT.lookup (st_children s) storage_key of
            Some child \<Rightarrow>
              fst (im_child_storage_root child_trie_root default_root \<lparr>inner = Map.empty\<rparr> storage_key (sc_info child)
                (map (\<lambda>(k, v). (k, Some v)) (RBT.entries (child_data child))))
          | None \<Rightarrow> default_root storage_key)"

text \<open>The roots of the children are put into a copy of the map that is not used further.\<close>

definition basic_storage_root ::
  "((StorageKey \<Rightarrow> StorageValue option) \<Rightarrow> 'r) \<Rightarrow> (StorageKey \<Rightarrow> (StorageKey \<Rightarrow> StorageValue option) \<Rightarrow> 'r) \<Rightarrow>
   (StorageKey \<Rightarrow> 'r) \<Rightarrow> ('r \<Rightarrow> 8 word list) \<Rightarrow> Storage \<Rightarrow> 'r" where
  "basic_storage_root trie_root child_trie_root default_root enc s =
     (let empty_hash = enc (default_root []);
          top = fold (\<lambda>storage_key top.
              let child_root = basic_child_storage_root child_trie_root default_root enc s storage_key in
              if empty_hash = child_root then RBT.delete storage_key top else RBT.insert storage_key child_root top)
            (RBT.keys (st_children s)) (st_top s)
      in trie_root (RBT.lookup (st_top s)))"

section \<open>Externalities for tests\<close>

text \<open>\<open>From<Storage>\<close> for the backend, and the backend with all changes applied.\<close>

definition im_from_storage :: "Storage \<Rightarrow> InMemory" where
  "im_from_storage st =
     \<lparr>inner = (\<lambda>c. case c of
        None \<Rightarrow> Some (st_top st)
      | Some (k, ci) \<Rightarrow> (case RBT.lookup (st_children st) k of
            Some child \<Rightarrow> if sc_info child = ci then Some (child_data child) else None
          | None \<Rightarrow> None))\<rparr>"

definition commit_all :: "OverlayedChanges \<Rightarrow> InMemory \<Rightarrow> InMemory" where
  "commit_all s backend =
     (let t = changed_values (top (committed s)) @ changed_values (top (prospective s));
          transaction = (None, t) #
            map (\<lambda>(storage_key, (m, ci)). (Some (storage_key, ci), changed_values m))
              (RBT.entries (children (committed s)) @ RBT.entries (children (prospective s)))
      in im_update transaction backend)"

end
