(* ===== verification/Externalities_Props.thy ===== *)
theory Externalities_Props
  imports Externalities
begin

text \<open>
  The state a runtime sees through the overlay is a map of keys to values for the top level and one for
  each child. Every operation of \<open>Ext\<close> changes these maps the way \<open>BasicExternalities\<close> changes its own;
  committing does not change them, and what is drained in the end, applied to the backend, gives them.
\<close>

section \<open>Layers of changes\<close>

definition value_at :: "overlay_map \<Rightarrow> StorageKey \<Rightarrow> StorageValue option option" where
  "value_at m k = map_option ov_value (RBT.lookup m k)"

definition layer :: "overlay_map \<Rightarrow> (StorageKey \<Rightarrow> StorageValue option) \<Rightarrow> StorageKey \<Rightarrow> StorageValue option" where
  "layer m base k = (case value_at m k of Some v \<Rightarrow> v | None \<Rightarrow> base k)"

lemma noted_value [simp]: "ov_value (noted i e) = ov_value e"
  by (simp add: noted_def split: option.split)

lemma value_at_simps [simp]:
  "value_at RBT.empty k = None"
  "value_at (RBT.insert j e m) k = (if k = j then Some (ov_value e) else value_at m k)"
  "value_at (RBT.map f m) k = map_option (\<lambda>e. ov_value (f k e)) (RBT.lookup m k)"
  by (simp_all add: value_at_def option.map_comp comp_def)

lemma lookup_entry_or [simp]:
  "RBT.lookup (entry_or d j f m) k =
     (if k = j then Some (f (case RBT.lookup m j of None \<Rightarrow> d | Some v \<Rightarrow> v)) else RBT.lookup m k)"
  by (simp add: entry_or_def)

lemma value_at_entry_or [simp]:
  "value_at (entry_or d j f m) k =
     (if k = j then Some (ov_value (f (case RBT.lookup m j of None \<Rightarrow> d | Some v \<Rightarrow> v))) else value_at m k)"
  by (simp add: value_at_def)

lemma layer_empty [simp]: "layer RBT.empty base = base"
  by (simp add: layer_def fun_eq_iff)

lemma value_at_None: "value_at m k = None \<longleftrightarrow> k \<notin> set (RBT.keys m)"
  by (simp add: value_at_def RBT.lookup_keys [symmetric] domIff)

lemma entry_keys: "fst ` set (RBT.entries m) = set (RBT.keys m)"
  by (simp add: RBT.keys_def_alt)

text \<open>Deleting everything: what the changes know is deleted, the backend is asked for the rest.\<close>

lemma value_at_delete_committed:
  "value_at (delete_committed i c m) k =
     (if value_at m k \<noteq> None then value_at m k else if value_at c k \<noteq> None then Some None else None)"
proof -
  let ?f = "\<lambda>(key, val) m. if RBT.lookup m key = None
     then RBT.insert key \<lparr>ov_value = None, ov_extrinsics =
       map_option (\<lambda>i. insert i (case ov_extrinsics val of None \<Rightarrow> {} | Some e \<Rightarrow> e)) i\<rparr> m else m"
  have "value_at (fold ?f es m) k =
      (if value_at m k \<noteq> None then value_at m k else if k \<in> fst ` set es then Some None else None)" for es
  proof (induction es arbitrary: m)
    case (Cons e es)
    show ?case using Cons.IH [of "?f e m"] by (cases e) (auto simp: value_at_def)
  qed simp
  from this [of "RBT.entries c"] show ?thesis unfolding delete_committed_def by (simp only: entry_keys value_at_None not_not)
qed

lemma value_at_delete_prefix:
  "value_at (delete_prefix i p c m) k =
     (if prefix p k then if value_at m k \<noteq> None \<or> value_at c k \<noteq> None then Some None else None else value_at m k)"
proof -
  let ?d = "\<lambda>e. noted i (e\<lparr>ov_value := None\<rparr>)"
  have "value_at (fold (\<lambda>key m. if prefix p key then entry_or default_value key ?d m else m) ks m) k =
      (if prefix p k \<and> k \<in> set ks then Some None else value_at m k)" for ks m
  proof (induction ks arbitrary: m)
    case (Cons j ks)
    show ?case using Cons.IH by auto
  qed simp
  then show ?thesis
    using value_at_None [of c k] by (auto simp: delete_prefix_def Let_def value_at_def option.map_ident)
qed

lemma commit_value_value [simp]: "ov_value (commit_value v e) = ov_value v"
  by (simp add: commit_value_def Let_def split: option.split)

lemma value_at_commit_map:
  "value_at (commit_map from to) k = (case value_at from k of Some v \<Rightarrow> Some v | None \<Rightarrow> value_at to k)"
proof -
  have "value_at (fold (\<lambda>(key, val) m. entry_or default_value key (commit_value val) m) es to) k =
      (case map_of es k of Some v \<Rightarrow> Some (ov_value v) | None \<Rightarrow> value_at to k)" if "distinct (map fst es)" for es to
    using that
  proof (induction es arbitrary: to)
    case (Cons e es)
    then show ?case by (cases e) (auto split: option.split simp: map_of_eq_None_iff image_iff dest: map_of_SomeD)
  qed simp
  from this [OF RBT.distinct_entries] show ?thesis
    by (simp add: commit_map_def value_at_def split: option.split)
qed

lemma layer_commit: "layer (commit_map from to) base = layer from (layer to base)"
  by (auto simp: layer_def value_at_commit_map fun_eq_iff split: option.split)

section \<open>The state behind the overlay\<close>

definition top_layers :: "OverlayedChanges \<Rightarrow> (StorageKey \<Rightarrow> StorageValue option) \<Rightarrow> StorageKey \<Rightarrow> StorageValue option" where
  "top_layers s base = layer (top (prospective s)) (layer (top (committed s)) base)"

definition child_layers ::
  "OverlayedChanges \<Rightarrow> StorageKey \<Rightarrow> (StorageKey \<Rightarrow> StorageValue option) \<Rightarrow> StorageKey \<Rightarrow> StorageValue option" where
  "child_layers s sk base = layer (child_map (prospective s) sk) (layer (child_map (committed s) sk) base)"

lemma top_layers_storage: "top_layers s base k = (case overlay_storage s k of Some v \<Rightarrow> v | None \<Rightarrow> base k)"
  by (simp add: top_layers_def layer_def overlay_storage_def value_at_def split: option.split)

lemma child_layers_storage:
  "child_layers s sk base k = (case overlay_child_storage s sk k of Some v \<Rightarrow> v | None \<Rightarrow> base k)"
  by (auto simp: child_layers_def layer_def overlay_child_storage_def value_at_def child_map_def split: option.split)

lemma set_storage_layers:
  "top_layers (set_storage dec k v s) base = (top_layers s base)(k := v)"
  "child_layers (set_storage dec k v s) = child_layers s"
  by (auto simp: top_layers_def child_layers_def set_storage_def Let_def layer_def fun_eq_iff child_map_def)

lemma child_map_entry_or:
  "child_map (c\<lparr>children := entry_or (RBT.empty, ci) sk (\<lambda>(m, info). (f m, info)) (children c)\<rparr>) sk' =
     (if sk' = sk then f (child_map c sk) else child_map c sk')"
  by (simp add: child_map_def split: option.split prod.split)

lemma set_child_storage_layers:
  "top_layers (set_child_storage dec sk ci k v s) = top_layers s"
  "child_layers (set_child_storage dec sk ci k v s) sk' base =
     (if sk' = sk then (child_layers s sk base)(k := v) else child_layers s sk' base)"
  by (auto simp: top_layers_def child_layers_def set_child_storage_def Let_def child_map_entry_or layer_def fun_eq_iff)

lemma child_committed: "(case RBT.lookup (children c) sk of None \<Rightarrow> RBT.empty | Some (m, _) \<Rightarrow> m) = child_map c sk"
  by (simp add: child_map_def)

lemma overlay_unknown:
  "overlay_child_storage s sk k = None \<longleftrightarrow>
     value_at (child_map (prospective s) sk) k = None \<and> value_at (child_map (committed s) sk) k = None"
  by (auto simp: overlay_child_storage_def value_at_def child_map_def split: option.splits)

lemma clear_child_storage_layers:
  "top_layers (clear_child_storage dec sk ci s) = top_layers s"
  "child_layers (clear_child_storage dec sk ci s) sk' base k =
     (if sk' = sk then if overlay_child_storage s sk k = None then base k else None else child_layers s sk' base k)"
proof -
  show "top_layers (clear_child_storage dec sk ci s) = top_layers s"
    by (simp add: top_layers_def clear_child_storage_def Let_def fun_eq_iff)
  show "child_layers (clear_child_storage dec sk ci s) sk' base k =
     (if sk' = sk then if overlay_child_storage s sk k = None then base k else None else child_layers s sk' base k)"
    by (auto simp: child_layers_def clear_child_storage_def Let_def child_committed child_map_entry_or layer_def
        value_at_delete_committed overlay_unknown) (auto simp: value_at_def split: option.splits)
qed

lemma clear_prefix_layers:
  "top_layers (clear_prefix dec p s) base k =
     (if prefix p k then if overlay_storage s k = None then base k else None else top_layers s base k)"
  "child_layers (clear_prefix dec p s) = child_layers s"
proof -
  have "overlay_storage s k = None \<longleftrightarrow> value_at (top (prospective s)) k = None \<and> value_at (top (committed s)) k = None"
    by (auto simp: overlay_storage_def value_at_def split: option.splits)
  then show "top_layers (clear_prefix dec p s) base k =
     (if prefix p k then if overlay_storage s k = None then base k else None else top_layers s base k)"
    by (auto simp: top_layers_def clear_prefix_def Let_def layer_def value_at_delete_prefix)
  show "child_layers (clear_prefix dec p s) = child_layers s"
    by (simp add: child_layers_def clear_prefix_def Let_def fun_eq_iff child_map_def)
qed

lemma clear_child_prefix_layers:
  "top_layers (clear_child_prefix dec sk ci p s) = top_layers s"
  "child_layers (clear_child_prefix dec sk ci p s) sk' base k =
     (if sk' = sk \<and> prefix p k then if overlay_child_storage s sk k = None then base k else None else child_layers s sk' base k)"
proof -
  show "top_layers (clear_child_prefix dec sk ci p s) = top_layers s"
    by (simp add: top_layers_def clear_child_prefix_def Let_def fun_eq_iff)
  show "child_layers (clear_child_prefix dec sk ci p s) sk' base k =
     (if sk' = sk \<and> prefix p k then if overlay_child_storage s sk k = None then base k else None else child_layers s sk' base k)"
    by (auto simp: child_layers_def clear_child_prefix_def Let_def child_committed child_map_entry_or layer_def
        value_at_delete_prefix overlay_unknown)
qed

text \<open>Deleting, one by one, the keys the backend has.\<close>

lemma fold_set_storage:
  "top_layers (fold (\<lambda>key. set_storage dec key None) ks s) base k = (if k \<in> set ks then None else top_layers s base k)"
  "child_layers (fold (\<lambda>key. set_storage dec key None) ks s) = child_layers s"
  by (induction ks arbitrary: s) (simp_all add: set_storage_layers)

lemma fold_set_child_storage:
  "top_layers (fold (\<lambda>key. set_child_storage dec sk ci key None) ks s) = top_layers s"
  "child_layers (fold (\<lambda>key. set_child_storage dec sk ci key None) ks s) sk' base k =
     (if sk' = sk \<and> k \<in> set ks then None else child_layers s sk' base k)"
  by (induction ks arbitrary: s) (auto simp: set_child_storage_layers)

section \<open>Transactions\<close>

definition map_in :: "(StorageKey, overlay_map \<times> ChildInfo) rbt \<Rightarrow> StorageKey \<Rightarrow> overlay_map" where
  "map_in cs sk = (case RBT.lookup cs sk of None \<Rightarrow> RBT.empty | Some (m, _) \<Rightarrow> m)"

lemma child_map_in: "child_map c sk = map_in (children c) sk"
  by (simp add: child_map_def map_in_def)

lemma commit_map_empty [simp]: "commit_map RBT.empty m = m"
proof -
  have "RBT.entries (RBT.empty :: overlay_map) = []" using RBT.keys_def_alt [of "RBT.empty :: overlay_map"] by simp
  then show ?thesis by (simp add: commit_map_def)
qed

lemma commit_children:
  "map_in (fold (\<lambda>(storage_key, (m, ci)) cs.
       entry_or (RBT.empty, ci) storage_key (\<lambda>(c, info). (commit_map m c, info)) cs) (RBT.entries ps) cs) sk =
     commit_map (map_in ps sk) (map_in cs sk)"
proof -
  let ?f = "\<lambda>(storage_key, (m, ci)) cs. entry_or (RBT.empty, ci) storage_key (\<lambda>(c, info). (commit_map m c, info)) cs"
  have "map_in (fold ?f es cs) sk = (case map_of es sk of None \<Rightarrow> map_in cs sk | Some (m, _) \<Rightarrow> commit_map m (map_in cs sk))"
    if "distinct (map fst es)" for es cs
    using that
  proof (induction es arbitrary: cs)
    case (Cons e es)
    obtain j m ci where e: "e = (j, m, ci)" by (cases e) auto
    have *: "map_in (?f e cs) sk = (if sk = j then commit_map m (map_in cs sk) else map_in cs sk)"
      by (simp add: e map_in_def split: option.split prod.split)
    have "map_of es j = None" using Cons.prems e by (auto simp: map_of_eq_None_iff)
    then show ?case using Cons.IH [of "?f e cs"] Cons.prems * by (auto simp: e split: option.split)
  qed simp
  from this [OF RBT.distinct_entries] show ?thesis by (simp add: map_in_def [of ps] split: option.split prod.split)
qed

lemma commit_layers:
  "top_layers (commit_prospective s) base = top_layers s base"
  "child_layers (commit_prospective s) sk base = child_layers s sk base"
  by (simp_all add: commit_prospective_def top_layers_def child_layers_def changes_is_empty_def layer_commit Let_def
      child_map_in commit_children map_in_def [of RBT.empty])

lemma commit_nothing_prospective: "changes_is_empty (prospective (commit_prospective s))"
  by (simp add: commit_prospective_def changes_is_empty_def Let_def)

section \<open>The next key\<close>

definition is_next :: "'k::linorder set \<Rightarrow> 'k \<Rightarrow> 'k option \<Rightarrow> bool" where
  "is_next D k r \<longleftrightarrow>
     (case r of None \<Rightarrow> \<forall>x\<in>D. \<not> k < x | Some y \<Rightarrow> y \<in> D \<and> k < y \<and> (\<forall>x\<in>D. k < x \<longrightarrow> y \<le> x))"

lemma is_next_unique: "is_next D k r \<Longrightarrow> is_next D k r' \<Longrightarrow> r = r'"
  by (cases r; cases r') (auto simp: is_next_def intro: order.antisym)

lemma is_next_cong: "is_next D k r \<Longrightarrow> (\<And>x. k < x \<Longrightarrow> x \<in> D \<longleftrightarrow> x \<in> E) \<Longrightarrow> is_next E k r"
  by (cases r) (auto simp: is_next_def)

lemma is_next_skip:
  assumes "is_next D k r" "key < k" "\<And>x. key < x \<Longrightarrow> x \<le> k \<Longrightarrow> x \<notin> D"
  shows "is_next D key r"
proof (cases r)
  case None
  then show ?thesis using assms(1,3) by (auto simp: is_next_def not_le [symmetric])
next
  case (Some y)
  have "k < x" if "x \<in> D" "key < x" for x using assms(3) [of x] that not_le by blast
  then show ?thesis using assms(1,2) Some less_trans [of key k y] by (auto simp: is_next_def)
qed

lemma find_next: "sorted (map fst es) \<Longrightarrow> is_next (fst ` set es) k (map_option fst (find (\<lambda>e. k < fst e) es))"
  by (induction es) (auto simp: is_next_def image_iff Bex_def split: option.splits)

lemma range_after_next: "is_next (dom (RBT.lookup m)) k (map_option fst (range_after k m))"
  using find_next [OF RBT.sorted_entries, of m k] by (simp add: range_after_def RBT.lookup_keys entry_keys)

lemma next_of_union:
  assumes "is_next C key c" "is_next P key p"
  shows "is_next (P \<union> C) key (case (c, p) of (Some a, Some b) \<Rightarrow> Some (min a b) | (a, None) \<Rightarrow> a | (_, b) \<Rightarrow> b)"
  using assms by (cases c; cases p) (auto simp: is_next_def min_def)

lemma next_change_fst:
  "map_option fst (next_change c p) =
     (case (map_option fst c, map_option fst p) of (Some a, Some b) \<Rightarrow> Some (min a b) | (a, None) \<Rightarrow> a | (_, b) \<Rightarrow> b)"
  by (cases c; cases p) (auto simp: next_change_def min_def)

text \<open>The next change is the one of the smallest key after the given one, with its latest value.\<close>

lemma next_change_next:
  assumes "next_change (range_after key cm) (range_after key pm) = r"
  shows "is_next (dom (value_at pm) \<union> dom (value_at cm)) key (map_option fst r)"
    and "r = Some (k, v) \<Longrightarrow> layer pm (layer cm base) k = ov_value v"
proof -
  have dom: "dom (value_at m) = dom (RBT.lookup m)" for m by (auto simp: value_at_def dom_def)
  note P = range_after_next [of pm key] and C = range_after_next [of cm key]
  show "is_next (dom (value_at pm) \<union> dom (value_at cm)) key (map_option fst r)"
    using next_of_union [OF C P] assms [symmetric] by (simp add: dom next_change_fst)
  show "layer pm (layer cm base) k = ov_value v" if r: "r = Some (k, v)"
  proof (cases "range_after key pm = Some (k, v)")
    case True
    then show ?thesis by (auto dest!: range_after_Some simp: layer_def value_at_def)
  next
    case False
    then have c: "range_after key cm = Some (k, v)" using next_change_Some assms r by blast
    then have "RBT.lookup cm k = Some v" "key < k" by (auto dest: range_after_Some)
    moreover have "RBT.lookup pm k = None"
    proof (cases "range_after key pm")
      case None
      then show ?thesis using P \<open>key < k\<close> by (auto simp: is_next_def dom_def)
    next
      case (Some e)
      then have "k < fst e" using c False assms r by (auto simp: next_change_def split: if_splits)
      then show ?thesis using P \<open>key < k\<close> Some by (cases "RBT.lookup pm k") (auto simp: is_next_def dom_def)
    qed
    ultimately show ?thesis by (simp add: layer_def value_at_def)
  qed
qed

text \<open>Where \<open>D\<close> and \<open>E\<close> differ in keys of \<open>K\<close> only, the next key in \<open>E\<close> counts if it is before all of \<open>K\<close>.\<close>

lemma next_before:
  assumes "is_next E key (Some x)" "x < k" "is_next K key (Some k)" "\<And>y. y \<notin> K \<Longrightarrow> y \<in> D \<longleftrightarrow> y \<in> E"
  shows "is_next D key (Some x)"
proof -
  have before: "y \<notin> K" if "key < y" "y < k" for y using assms(3) that leD unfolding is_next_def option.case by blast
  have x: "x \<in> E" "key < x" "\<And>y. y \<in> E \<Longrightarrow> key < y \<Longrightarrow> x \<le> y"
    using assms(1) by (simp_all only: is_next_def option.case)
  have "x \<le> y" if "y \<in> D" "key < y" for y
  proof (cases "y < k")
    case True
    then show ?thesis using x(3) assms(4) before that by blast
  qed (use assms(2) in simp)
  then show ?thesis using x assms(2,4) before unfolding is_next_def option.case by blast
qed

lemma none_between:
  assumes "is_next E key b" "\<not> (case b of Some x \<Rightarrow> x < k | None \<Rightarrow> False)" "is_next K key (Some k)"
    "\<And>y. y \<notin> K \<Longrightarrow> y \<in> D \<longleftrightarrow> y \<in> E" "key < x" "x < k"
  shows "x \<notin> D"
proof
  assume "x \<in> D"
  moreover have "x \<notin> K" using assms(3,5,6) leD unfolding is_next_def option.case by blast
  ultimately have "x \<in> E" using assms(4) by blast
  then show False using assms(1,2,5,6) unfolding is_next_def by (auto split: option.splits)
qed

lemma next_key_correct:
  assumes "\<And>k. \<exists>r. backend_next k = Ok r \<and> is_next (dom base) k r"
  shows "\<exists>r. next_key backend_next cm pm key = Some r \<and> is_next (dom (layer pm (layer cm base))) key r"
  using assms
proof (induction backend_next cm pm key rule: next_key.induct)
  case (1 bn cm pm key)
  let ?D = "dom (layer pm (layer cm base))" and ?K = "dom (value_at pm) \<union> dom (value_at cm)"
  obtain b where b: "bn key = Ok b" "is_next (dom base) key b" using 1(2) by blast
  have unknown: "x \<in> ?D \<longleftrightarrow> x \<in> dom base" if "x \<notin> ?K" for x
    using that by (auto simp: dom_def layer_def split: option.splits)
  show ?case
  proof (cases "next_change (range_after key cm) (range_after key pm)")
    case None
    have "x \<notin> ?K" if "key < x" for x using next_change_next(1) [OF None] that unfolding is_next_def by auto
    then have "is_next ?D key b" using unknown by (intro is_next_cong [OF b(2)]) blast
    then show ?thesis using None b(1) by (subst next_key.simps) simp
  next
    case (Some e)
    obtain k v where e: "e = (k, v)" by (cases e)
    have k: "is_next ?K key (Some k)" using next_change_next(1) [OF Some] by (simp add: e)
    then have less: "key < k" by (simp add: is_next_def)
    have v: "layer pm (layer cm base) k = ov_value v" using next_change_next(2) [OF Some] e by simp
    have step: "next_key bn cm pm key =
        (if (case b of Some x \<Rightarrow> x < k | None \<Rightarrow> False) then Some b
         else if ov_value v \<noteq> None then Some (Some k) else next_key bn cm pm k)"
      by (subst next_key.simps) (simp add: b(1) Some e)
    consider "case b of Some x \<Rightarrow> x < k | None \<Rightarrow> False"
      | (dead) "\<not> (case b of Some x \<Rightarrow> x < k | None \<Rightarrow> False)" "ov_value v = None"
      | (live) "\<not> (case b of Some x \<Rightarrow> x < k | None \<Rightarrow> False)" "ov_value v \<noteq> None" by blast
    then show ?thesis
    proof cases
      case 1
      then obtain x where x: "b = Some x" "x < k" by (auto split: option.splits)
      then show ?thesis using next_before [OF b(2) [unfolded x(1)] x(2) k unknown] step 1 by simp
    next
      case dead
      then obtain r where r: "next_key bn cm pm k = Some r" "is_next ?D k r"
        using "1"(1) [OF b(1) Some] e "1"(2) by auto
      have "k \<notin> ?D" using v dead by (simp add: dom_def)
      then have "is_next ?D key r"
        using none_between [OF b(2) dead(1) k unknown] by (intro is_next_skip [OF r(2) less]) (auto simp only: le_less)
      then show ?thesis using step dead r(1) by simp
    next
      case live
      then have "k \<in> ?D" using v by (auto simp: dom_def)
      then have "is_next ?D key (Some k)"
        using none_between [OF b(2) live(1) k unknown] less unfolding is_next_def option.case by (meson not_less)
      then show ?thesis using step live by simp
    qed
  qed
qed

section \<open>Removing a range\<close>

lemma prefix_le: "prefix p k \<Longrightarrow> p \<le> (k :: 'a::linorder list)"
  by (induction p arbitrary: k) (fastforce simp: prefix_def)+

lemma prefix_interval: "p \<le> a \<Longrightarrow> a \<le> b \<Longrightarrow> prefix p b \<Longrightarrow> prefix p (a :: 'a::linorder list)"
proof (induction p arbitrary: a b)
  case (Cons x p)
  then obtain b' where b: "b = x # b'" "prefix p b'" by (auto simp: prefix_def)
  obtain y a' where a: "a = y # a'" using Cons.prems(1) by (cases a) auto
  show ?case using Cons.IH [of a' b'] Cons.prems(1,2) a b by auto
qed simp

lemma range_with_prefix:
  assumes "sorted ks"
  shows "set (takeWhile (prefix p) (dropWhile (\<lambda>k. k < p) ks)) = {k \<in> set ks. prefix p (k :: 'a::linorder list)}"
  using assms
proof (induction ks)
  case (Cons k ks)
  show ?case
  proof (cases "k < p")
    case True
    then have "\<not> prefix p k" using prefix_le [of p k] by auto
    then show ?thesis using Cons True by auto
  next
    case False
    have "{x \<in> set ks. prefix p x} = {}" if "\<not> prefix p k"
      using that False Cons.prems prefix_interval [of p k] by (fastforce simp: not_less)
    moreover have "dropWhile (\<lambda>k. k < p) ks = ks" using False Cons.prems by (cases ks) (auto simp: dropWhile_eq_self_iff)
    ultimately show ?thesis using Cons False by auto
  qed
qed simp

lemma lookup_fold_delete: "RBT.lookup (fold RBT.delete ks m) k = (if k \<in> set ks then None else RBT.lookup m k)"
  by (induction ks arbitrary: m) auto

lemma lookup_remove_range: "RBT.lookup (remove_range p m) k = (if prefix p k then None else RBT.lookup m k)"
proof -
  have "k \<in> set (RBT.keys m) \<longleftrightarrow> RBT.lookup m k \<noteq> None" using RBT.lookup_keys [of m] by (auto simp: dom_def)
  then show ?thesis by (auto simp: remove_range_def lookup_fold_delete range_with_prefix [OF RBT.sorted_keys])
qed

section \<open>Backends\<close>

locale storage_backend =
  fixes B :: "('e, 'r, 't) Backend"
    and base :: "StorageKey \<Rightarrow> StorageValue option"
    and cbase :: "StorageKey \<Rightarrow> ChildInfo \<Rightarrow> StorageKey \<Rightarrow> StorageValue option"
  assumes reads: "b_storage B k = Ok (base k)" "b_child_storage B sk ci k = Ok (cbase sk ci k)"
    and asks: "b_exists_storage B k = Ok (base k \<noteq> None)" "b_exists_child_storage B sk ci k = Ok (cbase sk ci k \<noteq> None)"
    and next_keys: "\<exists>r. b_next_storage_key B k = Ok r \<and> is_next (dom base) k r"
      "\<exists>r. b_next_child_storage_key B sk ci k = Ok r \<and> is_next (dom (cbase sk ci)) k r"
    and keys: "set (b_keys_with_prefix B p) = {k \<in> dom base. prefix p k}"
      "set (b_keys_in_child_storage B sk ci) = dom (cbase sk ci)"
      "set (b_child_keys_with_prefix B sk ci p) = {k \<in> dom (cbase sk ci). prefix p k}"

definition im_view :: "InMemory \<Rightarrow> (StorageKey \<times> ChildInfo) option \<Rightarrow> StorageKey \<Rightarrow> StorageValue option" where
  "im_view s c k = Option.bind (inner s c) (\<lambda>m. RBT.lookup m k)"

lemma im_view_keys: "dom (im_view s c) = (case inner s c of None \<Rightarrow> {} | Some m \<Rightarrow> set (RBT.keys m))"
  by (auto simp: im_view_def dom_def RBT.lookup_keys [symmetric] split: option.split)

lemma im_view_next: "is_next (dom (im_view s c)) k (Option.bind (inner s c) (\<lambda>m. map_option fst (range_after k m)))"
  using range_after_next by (cases "inner s c") (auto simp: im_view_keys RBT.lookup_keys is_next_def)

interpretation in_memory: storage_backend "in_memory_backend trie_root child_trie_root default_root s"
    "im_view s None" "\<lambda>sk ci. im_view s (Some (sk, ci))" for trie_root :: "_ \<Rightarrow> 'r" and child_trie_root default_root s
proof
  fix k sk p :: StorageKey and ci :: ChildInfo
  let ?B = "in_memory_backend trie_root child_trie_root default_root s"
  show "b_storage ?B k = Ok (im_view s None k)" "b_child_storage ?B sk ci k = Ok (im_view s (Some (sk, ci)) k)"
    "b_exists_storage ?B k = Ok (im_view s None k \<noteq> None)"
    "b_exists_child_storage ?B sk ci k = Ok (im_view s (Some (sk, ci)) k \<noteq> None)"
    by (auto simp: in_memory_backend_def im_storage_def im_child_storage_def im_exists_storage_def im_view_def
        default_exists_child_storage_def split: option.split)
  show "\<exists>r. b_next_storage_key ?B k = Ok r \<and> is_next (dom (im_view s None)) k r"
    "\<exists>r. b_next_child_storage_key ?B sk ci k = Ok r \<and> is_next (dom (im_view s (Some (sk, ci)))) k r"
    using im_view_next by (simp_all add: in_memory_backend_def im_next_storage_key_def im_next_child_storage_key_def)
  show "set (b_keys_with_prefix ?B p) = {k \<in> dom (im_view s None). prefix p k}"
    "set (b_keys_in_child_storage ?B sk ci) = dom (im_view s (Some (sk, ci)))"
    "set (b_child_keys_with_prefix ?B sk ci p) = {k \<in> dom (im_view s (Some (sk, ci))). prefix p k}"
    by (auto simp: in_memory_backend_def im_for_keys_with_prefix_def im_for_keys_in_child_storage_def
        im_for_child_keys_with_prefix_def im_view_keys split: option.splits)
qed

section \<open>Applying changes to the backend\<close>

definition puts :: "StorageCollection \<Rightarrow> (StorageKey \<Rightarrow> StorageValue option) \<Rightarrow> StorageKey \<Rightarrow> StorageValue option" where
  "puts kvs b = fold (\<lambda>(k, v) b. b(k := v)) kvs b"

lemma lookup_put_values: "RBT.lookup (put_values kvs m) = puts kvs (RBT.lookup m)"
  unfolding put_values_def puts_def
proof (induction kvs arbitrary: m)
  case (Cons e kvs)
  obtain k v where e: "e = (k, v)" by (cases e)
  have "RBT.lookup (case v of Some x \<Rightarrow> RBT.insert k x m | None \<Rightarrow> RBT.delete k m) = (RBT.lookup m)(k := v)"
    by (auto simp: fun_eq_iff split: option.split)
  then show ?case using Cons.IH by (simp add: e del: fun_upd_apply)
qed simp

lemma puts_append: "puts (xs @ ys) b = puts ys (puts xs b)"
  by (simp add: puts_def)

lemma puts_changed_values: "puts (changed_values m) b = layer m b"
proof -
  have "puts (map (\<lambda>(k, v). (k, ov_value v)) es) b k = (case map_of es k of Some v \<Rightarrow> ov_value v | None \<Rightarrow> b k)"
    if "distinct (map fst es)" for es :: "(StorageKey \<times> OverlayedValue) list" and b k
    using that
  proof (induction es arbitrary: b)
    case (Cons e es)
    then have "map_of es (fst e) = None" by (simp add: map_of_eq_None_iff)
    then show ?case using Cons by (cases e) (auto simp: puts_def split: option.split)
  qed (simp add: puts_def)
  from this [OF RBT.distinct_entries] show ?thesis
    by (auto simp: changed_values_def fun_eq_iff layer_def value_at_def split: option.split)
qed

definition im_put :: "(StorageKey \<times> ChildInfo) option \<Rightarrow> StorageCollection \<Rightarrow> InMemory \<Rightarrow> InMemory" where
  "im_put c kvs s = im_update [(c, kvs)] s"

lemma im_update_simps: "im_update [] s = s" "im_update ((c, kvs) # tx) s = im_update tx (im_put c kvs s)"
  by (simp_all add: im_update_def im_put_def)

lemma im_view_put: "im_view (im_put c kvs s) = (im_view s)(c := puts kvs (im_view s c))"
proof -
  have "RBT.lookup (case inner s c of None \<Rightarrow> RBT.empty | Some e \<Rightarrow> e) = (\<lambda>k. Option.bind (inner s c) (\<lambda>m. RBT.lookup m k))"
    by (simp add: fun_eq_iff split: option.split)
  then show ?thesis
    by (intro ext) (simp add: im_view_def [abs_def] im_put_def im_update_def lookup_put_values)
qed

lemma im_update_append: "im_update (xs @ ys) s = im_update ys (im_update xs s)"
  by (simp add: im_update_def)

lemma im_view_children:
  assumes "\<And>sk m ci. RBT.lookup cs sk = Some (m, ci) \<Longrightarrow> ci = info sk"
  shows "im_view (im_update (map (\<lambda>(sk, (m, ci)). (Some (sk, ci), changed_values m)) (RBT.entries cs)) s) c =
    (case c of
       None \<Rightarrow> im_view s None
     | Some (sk, ci) \<Rightarrow> if ci = info sk then layer (map_in cs sk) (im_view s c) else im_view s c)"
proof -
  have "im_view (im_update (map (\<lambda>(sk, (m, ci)). (Some (sk, ci), changed_values m)) es) s) c =
      (case c of
         None \<Rightarrow> im_view s None
       | Some (sk, ci) \<Rightarrow>
           if ci = info sk then layer (case map_of es sk of None \<Rightarrow> RBT.empty | Some (m, _) \<Rightarrow> m) (im_view s c) else im_view s c)"
    if "distinct (map fst es)" "\<forall>(sk, (m, ci)) \<in> set es. ci = info sk" for es
    using that
  proof (induction es arbitrary: s)
    case (Cons e es)
    obtain j m where e: "e = (j, m, info j)" using Cons.prems by (cases e) auto
    have j: "map_of es j = None" using Cons.prems e by (auto simp: map_of_eq_None_iff)
    show ?case
      using Cons.IH [of "im_put (Some (j, info j)) (changed_values m) s"] Cons.prems j
      by (cases c) (auto simp: e im_update_simps im_view_put puts_changed_values)
  qed (simp add: im_update_simps split: option.split)
  moreover have "\<forall>(sk, (m, ci)) \<in> set (RBT.entries cs). ci = info sk"
    using assms by (auto dest: map_of_is_SomeI [OF RBT.distinct_entries] simp: RBT.map_of_entries)
  ultimately show ?thesis using RBT.distinct_entries [of cs] by (simp add: map_in_def split: option.split)
qed

section \<open>Child infos\<close>

definition infos_ok :: "(StorageKey \<Rightarrow> ChildInfo) \<Rightarrow> OverlayedChangeSet \<Rightarrow> bool" where
  "infos_ok info c = list_all (\<lambda>(sk, (m, ci)). ci = info sk) (RBT.entries (children c))"

lemma infos_ok_iff: "infos_ok info c \<longleftrightarrow> (\<forall>sk m ci. RBT.lookup (children c) sk = Some (m, ci) \<longrightarrow> ci = info sk)"
proof -
  have "(sk, v) \<in> set (RBT.entries (children c)) \<longleftrightarrow> RBT.lookup (children c) sk = Some v" for sk v
    using map_of_eq_Some_iff [OF RBT.distinct_entries [of "children c"], of sk v] by (simp add: RBT.map_of_entries)
  then show ?thesis by (fastforce simp: infos_ok_def list_all_iff)
qed

lemma infos_ok_top: "infos_ok info (c\<lparr>top := m\<rparr>) = infos_ok info c"
  by (simp add: infos_ok_def)

lemma infos_ok_entry_or:
  assumes "infos_ok info c"
  shows "infos_ok info (c\<lparr>children := entry_or (RBT.empty, info sk) sk (\<lambda>(m, ci). (f m, ci)) (children c)\<rparr>)"
proof -
  obtain m where m: "(case RBT.lookup (children c) sk of None \<Rightarrow> (RBT.empty, info sk) | Some v \<Rightarrow> v) = (m, info sk)"
    using assms by (cases "RBT.lookup (children c) sk") (auto simp: infos_ok_iff)
  show ?thesis using assms by (simp add: infos_ok_iff m)
qed

section \<open>Running operations\<close>

datatype ext_op =
    Place StorageKey "StorageValue option"
  | PlaceChild StorageKey StorageKey "StorageValue option"
  | KillChild StorageKey
  | ClearPrefix StorageKey
  | ClearChildPrefix StorageKey StorageKey
  | Commit
  | Discard

primrec ext_step ::
  "(8 word list \<Rightarrow> 32 word option) \<Rightarrow> ('e, 'r, 't) Backend \<Rightarrow> (StorageKey \<Rightarrow> ChildInfo) \<Rightarrow> ext_op \<Rightarrow> ('r, 't) Ext \<Rightarrow> ('r, 't) Ext" where
  "ext_step dec B info (Place k v) x = place_storage dec k v x"
| "ext_step dec B info (PlaceChild sk k v) x = place_child_storage dec sk (info sk) k v x"
| "ext_step dec B info (KillChild sk) x = kill_child_storage dec B sk (info sk) x"
| "ext_step dec B info (ClearPrefix p) x = ext_clear_prefix dec B p x"
| "ext_step dec B info (ClearChildPrefix sk p) x = ext_clear_child_prefix dec B sk (info sk) p x"
| "ext_step dec B info Commit x = x\<lparr>overlay := commit_prospective (overlay x)\<rparr>"
| "ext_step dec B info Discard x = x\<lparr>overlay := discard_prospective (overlay x)\<rparr>"

primrec basic_step :: "(StorageKey \<Rightarrow> ChildInfo) \<Rightarrow> ext_op \<Rightarrow> Storage \<times> Storage \<Rightarrow> Storage \<times> Storage" where
  "basic_step info (Place k v) s = map_prod (basic_place_storage k v) id s"
| "basic_step info (PlaceChild sk k v) s = map_prod (basic_place_child_storage sk (info sk) k v) id s"
| "basic_step info (KillChild sk) s = map_prod (basic_kill_child_storage sk) id s"
| "basic_step info (ClearPrefix p) s = map_prod (basic_clear_prefix p) id s"
| "basic_step info (ClearChildPrefix sk p) s = map_prod (basic_clear_child_prefix sk p) id s"
| "basic_step info Commit s = (fst s, fst s)"
| "basic_step info Discard s = (snd s, snd s)"

definition overlay_typed :: "(StorageKey \<Rightarrow> ChildInfo) \<Rightarrow> OverlayedChanges \<Rightarrow> bool" where
  "overlay_typed info s = (infos_ok info (prospective s) \<and> infos_ok info (committed s))"

lemma overlay_typed_set_storage:
  "overlay_typed info s \<Longrightarrow> overlay_typed info (set_storage dec k v s)"
  "overlay_typed info s \<Longrightarrow> overlay_typed info (set_child_storage dec sk (info sk) k v s)"
  "overlay_typed info s \<Longrightarrow> overlay_typed info (clear_child_storage dec sk (info sk) s)"
  "overlay_typed info s \<Longrightarrow> overlay_typed info (clear_prefix dec p s)"
  "overlay_typed info s \<Longrightarrow> overlay_typed info (clear_child_prefix dec sk (info sk) p s)"
  by (auto simp: overlay_typed_def set_storage_def set_child_storage_def clear_child_storage_def clear_prefix_def
      clear_child_prefix_def Let_def infos_ok_top intro!: infos_ok_entry_or)

lemma overlay_typed_fold:
  "overlay_typed info s \<Longrightarrow> overlay_typed info (fold (\<lambda>key. set_storage dec key None) ks s)"
  "overlay_typed info s \<Longrightarrow> overlay_typed info (fold (\<lambda>key. set_child_storage dec sk (info sk) key None) ks s)"
  by (induction ks arbitrary: s) (simp_all add: overlay_typed_set_storage)

lemma overlay_typed_commit:
  assumes "overlay_typed info s"
  shows "overlay_typed info (commit_prospective s)"
proof (cases "changes_is_empty (committed s)")
  case False
  let ?f = "\<lambda>(storage_key, (m, ci)) cs. entry_or (RBT.empty, ci) storage_key (\<lambda>(c, info). (commit_map m c, info)) cs"
  have "infos_ok info \<lparr>top = t, children = fold ?f es cs\<rparr>"
    if "list_all (\<lambda>(sk, (m, ci)). ci = info sk) es" "infos_ok info \<lparr>top = t, children = cs\<rparr>" for es cs t
    using that
  proof (induction es arbitrary: cs)
    case (Cons e es)
    obtain j m where e: "e = (j, m, info j)" using Cons.prems by (cases e) auto
    have "infos_ok info \<lparr>top = t, children = ?f e cs\<rparr>"
      using infos_ok_entry_or [OF Cons.prems(2), of j "commit_map m"] by (simp add: e)
    then show ?case using Cons by simp
  qed simp
  moreover have "infos_ok info \<lparr>top = RBT.empty, children = RBT.empty\<rparr>" "infos_ok info \<lparr>top = t, children = children (committed s)\<rparr>" for t
    using assms by (simp_all add: overlay_typed_def infos_ok_iff)
  ultimately show ?thesis using assms False
    by (simp add: commit_prospective_def overlay_typed_def Let_def infos_ok_def [of _ "prospective s"])
qed (use assms in \<open>simp add: commit_prospective_def overlay_typed_def\<close>)

lemma overlay_typed_step: "overlay_typed info (overlay x) \<Longrightarrow> overlay_typed info (overlay (ext_step dec B info op x))"
proof (cases op)
  case Discard
  moreover have "infos_ok info (changes_clear (prospective (overlay x)))" by (simp add: changes_clear_def infos_ok_iff)
  moreover assume "overlay_typed info (overlay x)"
  ultimately show ?thesis by (simp add: overlay_typed_def discard_prospective_def)
qed (simp_all add: place_storage_def place_child_storage_def kill_child_storage_def ext_clear_prefix_def
    ext_clear_child_prefix_def Let_def mark_dirty_def overlay_typed_set_storage overlay_typed_fold overlay_typed_commit)

lemma overlay_typed_run: "overlay_typed info (overlay x) \<Longrightarrow> overlay_typed info (overlay (fold (ext_step dec B info) ops x))"
  by (induction ops arbitrary: x) (simp_all add: overlay_typed_step)

lemma overlay_typed_default: "overlay_typed info (set_collect_extrinsics b default_overlay)"
  by (simp add: overlay_typed_def infos_ok_iff set_collect_extrinsics_def default_overlay_def empty_changes_def)

section \<open>Agreement with externalities on maps\<close>

definition agrees :: "('e, 'r, 't) Backend \<Rightarrow> (StorageKey \<Rightarrow> ChildInfo) \<Rightarrow> ('r, 't) Ext \<Rightarrow> Storage \<Rightarrow> bool" where
  "agrees B info x s \<longleftrightarrow>
     (\<forall>k. ext_storage B x k = Some (basic_storage s k)) \<and>
     (\<forall>sk k. ext_child_storage B x sk (info sk) k = Some (basic_child_storage s sk k))"

lemma basic_place_view:
  "basic_storage (basic_place_storage k v s) = (if is_child_storage_key k then basic_storage s else (basic_storage s)(k := v))"
  "basic_child_storage (basic_place_storage k v s) = basic_child_storage s"
  by (auto simp: basic_storage_def basic_child_storage_def basic_place_storage_def fun_eq_iff split: option.split)

lemma basic_place_child_view:
  "basic_storage (basic_place_child_storage sk ci k v s) = basic_storage s"
  "basic_child_storage (basic_place_child_storage sk ci k v s) sk' =
     (if sk' = sk then (basic_child_storage s sk)(k := v) else basic_child_storage s sk')"
  by (auto simp: basic_storage_def basic_child_storage_def basic_place_child_storage_def fun_eq_iff split: option.split)

lemma basic_kill_view:
  "basic_storage (basic_kill_child_storage sk s) = basic_storage s"
  "basic_child_storage (basic_kill_child_storage sk s) sk' k = (if sk' = sk then None else basic_child_storage s sk' k)"
  by (auto simp: basic_storage_def basic_child_storage_def basic_kill_child_storage_def fun_eq_iff)

lemma basic_clear_view:
  "basic_storage (basic_clear_prefix p s) k =
     (if \<not> is_child_storage_key p \<and> prefix p k then None else basic_storage s k)"
  "basic_child_storage (basic_clear_prefix p s) = basic_child_storage s"
  by (auto simp: basic_storage_def basic_child_storage_def basic_clear_prefix_def fun_eq_iff lookup_remove_range)

lemma basic_clear_child_view:
  "basic_storage (basic_clear_child_prefix sk p s) = basic_storage s"
  "basic_child_storage (basic_clear_child_prefix sk p s) sk' k =
     (if sk' = sk \<and> prefix p k then None else basic_child_storage s sk' k)"
  by (auto simp: basic_storage_def basic_child_storage_def basic_clear_child_prefix_def fun_eq_iff lookup_remove_range
      split: option.split)

lemma basic_next:
  "is_next (dom (basic_storage s)) k (basic_next_storage_key s k)"
  "is_next (dom (basic_child_storage s sk)) k (basic_next_child_storage_key s sk k)"
proof -
  show "is_next (dom (basic_storage s)) k (basic_next_storage_key s k)"
    using range_after_next [of "st_top s" k] by (simp add: basic_storage_def [abs_def] basic_next_storage_key_def)
  show "is_next (dom (basic_child_storage s sk)) k (basic_next_child_storage_key s sk k)"
  proof (cases "RBT.lookup (st_children s) sk")
    case None
    then show ?thesis by (simp add: basic_child_storage_def [abs_def] basic_next_child_storage_key_def is_next_def)
  next
    case (Some child)
    then show ?thesis using range_after_next [of "child_data child" k]
      by (simp add: basic_child_storage_def [abs_def] basic_next_child_storage_key_def)
  qed
qed

text \<open>What is discarded is what was written since the last commit.\<close>

lemma discard_eq: "discard_prospective s = s\<lparr>prospective := empty_changes\<rparr>"
  by (simp add: discard_prospective_def changes_clear_def empty_changes_def)

lemma discard_discard: "discard_prospective (discard_prospective s) = discard_prospective s"
  by (simp add: discard_eq)

lemma discard_writes:
  "discard_prospective (set_storage dec k v s) = discard_prospective s"
  "discard_prospective (set_child_storage dec sk ci k v s) = discard_prospective s"
  "discard_prospective (clear_child_storage dec sk ci s) = discard_prospective s"
  "discard_prospective (clear_prefix dec p s) = discard_prospective s"
  "discard_prospective (clear_child_prefix dec sk ci p s) = discard_prospective s"
  "discard_prospective (fold (\<lambda>key. set_storage dec key None) ks s) = discard_prospective s"
  "discard_prospective (fold (\<lambda>key. set_child_storage dec sk ci key None) ks s) = discard_prospective s"
proof -
  show set: "discard_prospective (set_storage dec k v s) = discard_prospective s" for k v s
    by (simp add: discard_eq set_storage_def Let_def)
  show set_child: "discard_prospective (set_child_storage dec sk ci k v s) = discard_prospective s" for k v s
    by (simp add: discard_eq set_child_storage_def Let_def)
  show "discard_prospective (fold (\<lambda>key. set_storage dec key None) ks s) = discard_prospective s"
    "discard_prospective (fold (\<lambda>key. set_child_storage dec sk ci key None) ks s) = discard_prospective s"
    by (induction ks arbitrary: s) (simp_all add: set set_child)
qed (simp_all add: discard_eq clear_child_storage_def clear_prefix_def clear_child_prefix_def Let_def)

lemma discard_step:
  "op \<noteq> Commit \<Longrightarrow> discard_prospective (overlay (ext_step dec B info op x)) = discard_prospective (overlay x)"
  by (cases op) (simp_all add: place_storage_def place_child_storage_def kill_child_storage_def ext_clear_prefix_def
      ext_clear_child_prefix_def mark_dirty_def Let_def discard_writes discard_discard)

lemma discard_commit: "discard_prospective (commit_prospective s) = commit_prospective s"
  using commit_nothing_prospective [of s]
  by (simp add: discard_eq empty_changes_def changes_is_empty_def)

definition simulates :: "('e, 'r, 't) Backend \<Rightarrow> (StorageKey \<Rightarrow> ChildInfo) \<Rightarrow> ('r, 't) Ext \<Rightarrow> Storage \<times> Storage \<Rightarrow> bool" where
  "simulates B info x s \<longleftrightarrow>
     agrees B info x (fst s) \<and> agrees B info (x\<lparr>overlay := discard_prospective (overlay x)\<rparr>) (snd s)"

context storage_backend
begin

lemma storage_view: "ext_storage B x k = Some (top_layers (overlay x) base k)"
  by (simp add: ext_storage_def top_layers_storage reads expect_def split: option.split)

lemma child_storage_view: "ext_child_storage B x sk ci k = Some (child_layers (overlay x) sk (cbase sk ci) k)"
  by (simp add: ext_child_storage_def child_layers_storage reads expect_def split: option.split)

lemma exists_view:
  "ext_exists_storage B x k = Some (top_layers (overlay x) base k \<noteq> None)"
  "ext_exists_child_storage B x sk ci k = Some (child_layers (overlay x) sk (cbase sk ci) k \<noteq> None)"
  by (simp_all add: ext_exists_storage_def ext_exists_child_storage_def top_layers_storage child_layers_storage asks expect_def
      split: option.split)

lemma next_view:
  "\<exists>r. ext_next_storage_key B x k = Some r \<and> is_next (dom (top_layers (overlay x) base)) k r"
  "\<exists>r. ext_next_child_storage_key B x sk ci k = Some r \<and> is_next (dom (child_layers (overlay x) sk (cbase sk ci))) k r"
  unfolding ext_next_storage_key_def ext_next_child_storage_key_def top_layers_def child_layers_def
  by (rule next_key_correct, rule next_keys)+

lemma agrees_view:
  "agrees B info x s \<longleftrightarrow>
     top_layers (overlay x) base = basic_storage s \<and>
     (\<forall>sk. child_layers (overlay x) sk (cbase sk (info sk)) = basic_child_storage s sk)"
  by (simp add: agrees_def storage_view child_storage_view fun_eq_iff)

text \<open>Agreeing on what they hold, they agree on what exists and what comes next.\<close>

lemma agrees_exists:
  assumes "agrees B info x s"
  shows "ext_exists_storage B x k = Some (basic_storage s k \<noteq> None)"
    "ext_exists_child_storage B x sk (info sk) k = Some (basic_child_storage s sk k \<noteq> None)"
  using assms by (simp_all add: exists_view agrees_view)

lemma agrees_next:
  assumes "agrees B info x s"
  shows "ext_next_storage_key B x k = Some (basic_next_storage_key s k)"
    "ext_next_child_storage_key B x sk (info sk) k = Some (basic_next_child_storage_key s sk k)"
proof -
  have v: "top_layers (overlay x) base = basic_storage s" "child_layers (overlay x) sk (cbase sk (info sk)) = basic_child_storage s sk"
    using assms by (auto simp: agrees_view)
  show "ext_next_storage_key B x k = Some (basic_next_storage_key s k)"
    using next_view(1) [of x k] is_next_unique [OF basic_next(1)] unfolding v(1) by metis
  show "ext_next_child_storage_key B x sk (info sk) k = Some (basic_next_child_storage_key s sk k)"
    using next_view(2) [of x sk "info sk" k] is_next_unique [OF basic_next(2)] unfolding v(2) by metis
qed

lemma place_views:
  "top_layers (overlay (place_storage dec k v x)) base =
     (if is_child_storage_key k then top_layers (overlay x) base else (top_layers (overlay x) base)(k := v))"
  "child_layers (overlay (place_storage dec k v x)) = child_layers (overlay x)"
  by (simp_all add: place_storage_def mark_dirty_def Let_def set_storage_layers)

lemma place_child_views:
  "top_layers (overlay (place_child_storage dec sk ci k v x)) = top_layers (overlay x)"
  "child_layers (overlay (place_child_storage dec sk ci k v x)) sk' b =
     (if sk' = sk then (child_layers (overlay x) sk b)(k := v) else child_layers (overlay x) sk' b)"
  by (simp_all add: place_child_storage_def mark_dirty_def Let_def set_child_storage_layers)

lemma kill_views:
  "top_layers (overlay (kill_child_storage dec B sk (info sk) x)) = top_layers (overlay x)"
  "child_layers (overlay (kill_child_storage dec B sk (info sk) x)) sk' (cbase sk' (info sk')) k =
     (if sk' = sk then None else child_layers (overlay x) sk' (cbase sk' (info sk')) k)"
  by (auto simp: kill_child_storage_def mark_dirty_def Let_def fold_set_child_storage clear_child_storage_layers keys dom_def)

lemma clear_views:
  "top_layers (overlay (ext_clear_prefix dec B p x)) base k =
     (if \<not> is_child_storage_key p \<and> prefix p k then None else top_layers (overlay x) base k)"
  "child_layers (overlay (ext_clear_prefix dec B p x)) = child_layers (overlay x)"
  by (auto simp: ext_clear_prefix_def mark_dirty_def Let_def fold_set_storage clear_prefix_layers keys dom_def)

lemma clear_child_views:
  "top_layers (overlay (ext_clear_child_prefix dec B sk (info sk) p x)) = top_layers (overlay x)"
  "child_layers (overlay (ext_clear_child_prefix dec B sk (info sk) p x)) sk' (cbase sk' (info sk')) k =
     (if sk' = sk \<and> prefix p k then None else child_layers (overlay x) sk' (cbase sk' (info sk')) k)"
  by (auto simp: ext_clear_child_prefix_def mark_dirty_def Let_def fold_set_child_storage clear_child_prefix_layers keys dom_def)

lemma agrees_step:
  assumes "agrees B info x (fst s)" "op \<noteq> Discard"
  shows "agrees B info (ext_step dec B info op x) (fst (basic_step info op s))"
proof -
  have v: "top_layers (overlay x) base = basic_storage (fst s)"
    "child_layers (overlay x) sk (cbase sk (info sk)) = basic_child_storage (fst s) sk" for sk
    using assms(1) by (auto simp: agrees_view)
  show ?thesis
  proof (cases op)
    case (KillChild sk)
    then show ?thesis by (simp add: agrees_view kill_views basic_kill_view v fun_eq_iff)
  next
    case (ClearPrefix p)
    then show ?thesis by (simp add: agrees_view clear_views basic_clear_view v fun_eq_iff)
  next
    case (ClearChildPrefix sk p)
    then show ?thesis by (simp add: agrees_view clear_child_views basic_clear_child_view v fun_eq_iff)
  qed (use assms(2) in \<open>simp_all add: agrees_view place_views basic_place_view place_child_views basic_place_child_view
      commit_layers v\<close>)
qed

lemma agrees_overlay: "overlay x = overlay y \<Longrightarrow> agrees B info x s = agrees B info y s"
  by (simp add: agrees_view)

lemma simulates_step:
  assumes "simulates B info x s"
  shows "simulates B info (ext_step dec B info op x) (basic_step info op s)"
proof -
  let ?y = "ext_step dec B info op x"
  have *: "agrees B info x (fst s)" "agrees B info (x\<lparr>overlay := discard_prospective (overlay x)\<rparr>) (snd s)"
    using assms by (auto simp: simulates_def)
  consider "op = Discard" | "op = Commit" | (other) "op \<noteq> Discard" "op \<noteq> Commit" by blast
  then show ?thesis
  proof cases
    case 1
    then show ?thesis using * by (simp add: simulates_def discard_discard)
  next
    case 2
    then show ?thesis using agrees_step [OF *(1), of op dec] by (simp add: simulates_def discard_commit)
  next
    case other
    have "snd (basic_step info op s) = snd s" using other by (cases op) simp_all
    then show ?thesis
      using agrees_step [OF *(1) other(1), of dec] *(2) agrees_overlay [of "?y\<lparr>overlay := discard_prospective (overlay ?y)\<rparr>"
          "x\<lparr>overlay := discard_prospective (overlay x)\<rparr>"] discard_step [OF other(2), of dec B info x]
      by (simp add: simulates_def)
  qed
qed

lemma simulates_run: "simulates B info x s \<Longrightarrow> simulates B info (fold (ext_step dec B info) ops x) (fold (basic_step info) ops s)"
  by (induction ops arbitrary: x s) (simp_all add: simulates_step)

end

lemma entries_lookup: "e \<in> set (RBT.entries m) \<longleftrightarrow> RBT.lookup m (fst e) = Some (snd e)"
  using map_of_eq_Some_iff [OF RBT.distinct_entries [of m], of "fst e" "snd e"] by (simp add: RBT.map_of_entries)

lemma new_agrees:
  assumes "list_all (\<lambda>(sk, child). sc_info child = info sk) (RBT.entries (st_children st))"
  shows "agrees (in_memory_backend trie_root child_trie_root default_root (im_from_storage st)) info
    \<lparr>overlay = set_collect_extrinsics b default_overlay, storage_transaction_cache = c\<rparr> st"
proof -
  have "sc_info child = info sk" if "RBT.lookup (st_children st) sk = Some child" for sk child
    using assms entries_lookup [of "(sk, child)" "st_children st"] that by (auto simp: list_all_iff)
  then have "im_view (im_from_storage st) None = basic_storage st"
    "im_view (im_from_storage st) (Some (sk, info sk)) = basic_child_storage st sk" for sk
    by (auto simp: im_view_def im_from_storage_def fun_eq_iff basic_storage_def basic_child_storage_def split: option.split)
  moreover have "top_layers (set_collect_extrinsics b default_overlay) v = v" "child_layers (set_collect_extrinsics b default_overlay) sk v = v" for v sk
    by (simp_all add: top_layers_def child_layers_def set_collect_extrinsics_def default_overlay_def empty_changes_def child_map_def)
  ultimately show ?thesis by (simp add: in_memory.agrees_view)
qed

lemma commit_all_view:
  assumes "overlay_typed info s"
  shows "im_view (commit_all s backend) None = top_layers s (im_view backend None)"
    "im_view (commit_all s backend) (Some (sk, info sk)) = child_layers s sk (im_view backend (Some (sk, info sk)))"
proof -
  have c: "\<And>sk m ci. RBT.lookup (children (committed s)) sk = Some (m, ci) \<Longrightarrow> ci = info sk"
    and p: "\<And>sk m ci. RBT.lookup (children (prospective s)) sk = Some (m, ci) \<Longrightarrow> ci = info sk"
    using assms by (simp_all add: overlay_typed_def infos_ok_iff)
  show "im_view (commit_all s backend) None = top_layers s (im_view backend None)"
    "im_view (commit_all s backend) (Some (sk, info sk)) = child_layers s sk (im_view backend (Some (sk, info sk)))"
    using im_view_children [OF c] im_view_children [OF p]
    by (simp_all add: commit_all_def im_update_simps im_update_append im_view_put puts_append puts_changed_values
        top_layers_def child_layers_def child_map_in)
qed

lemma those_map_Some: "those (map (\<lambda>x. Some (f x)) xs) = Some (map f xs)"
  by (induction xs) simp_all

lemma child_deltas_typed:
  assumes "overlay_typed info s"
  shows "child_deltas s = Some (map (\<lambda>sk. (sk, changed_values (child_map (committed s) sk) @
      changed_values (child_map (prospective s) sk), info sk)) (RBT.keys (children (prospective s)) @ RBT.keys (children (committed s))))"
proof -
  have "child_info s sk = Some (info sk)" if "sk \<in> set (RBT.keys (children (prospective s)) @ RBT.keys (children (committed s)))" for sk
    using that assms unfolding overlay_typed_def infos_ok_iff
    by (auto simp: child_info_def RBT.lookup_keys [symmetric] dom_def split: option.split prod.splits)
  then have "child_deltas s = those (map (\<lambda>sk. Some (sk, changed_values (child_map (committed s) sk) @
      changed_values (child_map (prospective s) sk), info sk)) (RBT.keys (children (prospective s)) @ RBT.keys (children (committed s))))"
    unfolding child_deltas_def by (intro arg_cong [of _ _ those] map_cong) simp_all
  then show ?thesis by (simp only: those_map_Some)
qed

section \<open>The cached root\<close>

datatype ext_call = Write ext_op | StorageRoot | ChildStorageRoot StorageKey

primrec run_call ::
  "(8 word list \<Rightarrow> 32 word option) \<Rightarrow> ('r \<Rightarrow> 8 word list) \<Rightarrow> (8 word list \<Rightarrow> 'r option) \<Rightarrow> (StorageKey \<Rightarrow> 'r) \<Rightarrow>
   ('e, 'r, 't) Backend \<Rightarrow> (StorageKey \<Rightarrow> ChildInfo) \<Rightarrow> ext_call \<Rightarrow> ('r, 't) Ext \<Rightarrow> ('r, 't) Ext option" where
  "run_call dec enc dec_root default_root B info (Write op) x = Some (ext_step dec B info op x)"
| "run_call dec enc dec_root default_root B info StorageRoot x = map_option snd (ext_storage_root enc B x)"
| "run_call dec enc dec_root default_root B info (ChildStorageRoot sk) x =
     map_option snd (ext_child_storage_root dec enc dec_root default_root B sk x)"

primrec run_calls ::
  "(8 word list \<Rightarrow> 32 word option) \<Rightarrow> ('r \<Rightarrow> 8 word list) \<Rightarrow> (8 word list \<Rightarrow> 'r option) \<Rightarrow> (StorageKey \<Rightarrow> 'r) \<Rightarrow>
   ('e, 'r, 't) Backend \<Rightarrow> (StorageKey \<Rightarrow> ChildInfo) \<Rightarrow> ext_call list \<Rightarrow> ('r, 't) Ext \<Rightarrow> ('r, 't) Ext option" where
  "run_calls dec enc dec_root default_root B info [] x = Some x"
| "run_calls dec enc dec_root default_root B info (c # cs) x =
     Option.bind (run_call dec enc dec_root default_root B info c x) (run_calls dec enc dec_root default_root B info cs)"

definition cache_ok :: "('r \<Rightarrow> 8 word list) \<Rightarrow> ('e, 'r, 't) Backend \<Rightarrow> ('r, 't) Ext \<Rightarrow> bool" where
  "cache_ok enc B x \<longleftrightarrow>
     storage_transaction_cache x = reset_cache \<or>
     (\<exists>root. overlay_storage_root enc B (overlay x) = Some (root, storage_transaction_cache x))"

lemma overlay_storage_root_cached:
  "overlay_storage_root enc B s = Some (root, c) \<Longrightarrow> transaction_storage_root c = Some root"
  by (auto simp: overlay_storage_root_def Let_def split: option.splits prod.splits)

lemma overlay_storage_root_typed:
  assumes "overlay_typed info s"
  shows "\<exists>root c. overlay_storage_root enc B s = Some (root, c)"
  by (simp add: overlay_storage_root_def child_deltas_typed [OF assms] Let_def split: prod.split)

lemma storage_root_fresh:
  assumes "cache_ok enc B x" "overlay_typed info (overlay x)"
  obtains root c where "overlay_storage_root enc B (overlay x) = Some (root, c)"
    "ext_storage_root enc B x = Some (enc root, x\<lparr>storage_transaction_cache := c\<rparr>)"
proof -
  obtain root c where r: "overlay_storage_root enc B (overlay x) = Some (root, c)"
    using overlay_storage_root_typed [OF assms(2), of enc B] by blast
  consider "storage_transaction_cache x = reset_cache" | "storage_transaction_cache x = c"
    using assms(1) r by (auto simp: cache_ok_def)
  then have "ext_storage_root enc B x = Some (enc root, x\<lparr>storage_transaction_cache := c\<rparr>)"
  proof cases
    case 1
    then show ?thesis by (simp add: ext_storage_root_def reset_cache_def r)
  next
    case 2
    then show ?thesis using overlay_storage_root_cached [OF r] by (cases x) (simp add: ext_storage_root_def)
  qed
  then show ?thesis using that r by blast
qed

lemma cache_ok_write:
  assumes "cache_ok enc B x" "op \<noteq> Commit" "op \<noteq> Discard"
  shows "cache_ok enc B (ext_step dec B info op x)"
  using assms by (cases op) (auto simp: cache_ok_def place_storage_def place_child_storage_def kill_child_storage_def
      ext_clear_prefix_def ext_clear_child_prefix_def mark_dirty_def Let_def)

lemma child_root_keeps:
  assumes "cache_ok enc B x" "overlay_typed info (overlay x)" "ext_child_storage_root dec enc dec_root default_root B sk x = Some (r, y)"
  shows "cache_ok enc B y" "overlay_typed info (overlay y)"
proof -
  have "y = x \<or> transaction_storage_root (storage_transaction_cache x) = None \<and>
      (\<exists>v. y = x\<lparr>overlay := set_storage dec sk v (overlay x)\<rparr>)"
    using assms(3) by (auto simp: ext_child_storage_root_def Let_def split: if_splits option.splits prod.splits)
  moreover have "storage_transaction_cache x = reset_cache" if "transaction_storage_root (storage_transaction_cache x) = None"
    using assms(1) that overlay_storage_root_cached unfolding cache_ok_def by fastforce
  ultimately show "cache_ok enc B y" "overlay_typed info (overlay y)"
    using assms(1,2) by (auto simp: cache_ok_def overlay_typed_set_storage)
qed

lemma new_typed:
  "overlay_typed info (overlay (fold (ext_step dec B info) ops
     \<lparr>overlay = set_collect_extrinsics b default_overlay, storage_transaction_cache = c\<rparr>))"
  by (intro overlay_typed_run) (simp add: overlay_typed_default)

lemma new_cache_ok:
  "cache_ok enc B \<lparr>overlay = s, storage_transaction_cache = reset_cache\<rparr>"
  by (simp add: cache_ok_def)

context storage_backend
begin

lemma call_keeps:
  assumes "cache_ok enc B x" "overlay_typed info (overlay x)" "c \<noteq> Write Commit" "c \<noteq> Write Discard"
  obtains y where "run_call dec enc dec_root default_root B info c x = Some y" "cache_ok enc B y" "overlay_typed info (overlay y)"
proof (cases c)
  case (Write op)
  then show ?thesis using that assms(3,4) cache_ok_write [OF assms(1), of op dec info] overlay_typed_step [OF assms(2), of dec B op] by simp
next
  case StorageRoot
  obtain root c' where "overlay_storage_root enc B (overlay x) = Some (root, c')"
    "ext_storage_root enc B x = Some (enc root, x\<lparr>storage_transaction_cache := c'\<rparr>)"
    using storage_root_fresh [OF assms(1,2)] .
  then show ?thesis using that assms(2) StorageRoot by (simp add: cache_ok_def)
next
  case (ChildStorageRoot sk)
  have "\<exists>r. stored_child_root dec_root default_root B x sk = Some r"
    by (simp add: stored_child_root_def storage_view)
  then have "ext_child_storage_root dec enc dec_root default_root B sk x \<noteq> None"
    by (auto simp: ext_child_storage_root_def Let_def split: option.split prod.split)
  then obtain r y where "ext_child_storage_root dec enc dec_root default_root B sk x = Some (r, y)" by auto
  then show ?thesis using that child_root_keeps [OF assms(1,2)] ChildStorageRoot by auto
qed

lemma calls_keep:
  assumes "cache_ok enc B x" "overlay_typed info (overlay x)" "Write Commit \<notin> set cs" "Write Discard \<notin> set cs"
  shows "\<exists>y. run_calls dec enc dec_root default_root B info cs x = Some y \<and> cache_ok enc B y \<and> overlay_typed info (overlay y)"
  using assms
proof (induction cs arbitrary: x)
  case (Cons c cs)
  obtain y where "run_call dec enc dec_root default_root B info c x = Some y" "cache_ok enc B y" "overlay_typed info (overlay y)"
    using call_keeps [OF Cons.prems(1,2)] Cons.prems(3,4) by (metis list.set_intros(1))
  then show ?case using Cons by simp
qed simp

end

section \<open>Limits\<close>

text \<open>The root of \<open>BasicExternalities\<close> does not depend on the children.\<close>

lemma basic_root_ignores_children:
  "basic_storage_root trie_root child_trie_root default_root enc s =
     basic_storage_root trie_root child_trie_root default_root enc (s\<lparr>st_children := cs\<rparr>)"
  by (simp add: basic_storage_root_def Let_def)

text \<open>A prefix shorter than the one of the child storage keys is not refused, and clears the roots of the children.\<close>

lemma clear_prefix_reaches_children:
  assumes "storage_backend B base cbase" "is_child_storage_key sk"
  shows "ext_storage B (ext_clear_prefix dec B [] x) sk = Some None"
  using storage_backend.storage_view [OF assms(1)] storage_backend.clear_views(1) [OF assms(1), of dec "[]" x sk]
  by (simp add: is_child_storage_key_def CHILD_STORAGE_KEY_PREFIX_def ascii_def)

section \<open>Properties\<close>

text \<open>
  C38. Externalities over any backend that keeps a state behave as the externalities on plain maps. Start
  the two with equal contents and nothing uncommitted, and run any sequence of writes, deletions of
  children, of prefixes and of prefixes of children, commits and roll backs on both, where the plain maps
  are saved at a commit and put back at a roll back. Then every key of the top level and of every child
  has the same value in both, the answers whether it exists agree, and so do the next keys in key order,
  which skip what has been deleted; none of these calls panics.
\<close>

theorem ext_refines_basic:
  assumes "storage_backend B base cbase" "agrees B info x st" "changes_is_empty (prospective (overlay x))"
  shows "let y = fold (ext_step dec B info) ops x; s = fst (fold (basic_step info) ops (st, st)) in
    ext_storage B y k = Some (basic_storage s k) \<and>
    ext_child_storage B y sk (info sk) k = Some (basic_child_storage s sk k) \<and>
    ext_exists_storage B y k = Some (basic_storage s k \<noteq> None) \<and>
    ext_exists_child_storage B y sk (info sk) k = Some (basic_child_storage s sk k \<noteq> None) \<and>
    ext_next_storage_key B y k = Some (basic_next_storage_key s k) \<and>
    ext_next_child_storage_key B y sk (info sk) k = Some (basic_next_child_storage_key s sk k)"
proof -
  have "discard_prospective (overlay x) = overlay x"
    using assms(3) by (simp add: discard_eq empty_changes_def changes_is_empty_def)
  then have "simulates B info x (st, st)" using assms(2) by (simp add: simulates_def)
  then have a: "agrees B info (fold (ext_step dec B info) ops x) (fst (fold (basic_step info) ops (st, st)))"
    using storage_backend.simulates_run [OF assms(1)] by (auto simp: simulates_def)
  then show ?thesis
    using storage_backend.agrees_exists [OF assms(1) a] storage_backend.agrees_next [OF assms(1) a]
    by (simp add: agrees_def Let_def)
qed

theorem ext_refines_basic_witness:
  "let B = in_memory_backend (\<lambda>_. 0::nat) (\<lambda>_ _. 0) (\<lambda>_. 0) (im_from_storage \<lparr>st_top = RBT.empty, st_children = RBT.empty\<rparr>)
         :: (unit, nat, _) Backend;
       y = fold (ext_step (\<lambda>_. None) B DefaultChild)
         [Place [1] (Some [7]), Place [3] (Some [8]), Commit, Place [1] None, Place [4] (Some []), Discard, ClearPrefix [3]]
         \<lparr>overlay = set_collect_extrinsics False default_overlay, storage_transaction_cache = reset_cache\<rparr> in
    ext_storage B y [1] = Some (Some [7]) \<and> ext_next_storage_key B y [1] = Some None"
proof -
  let ?st = "\<lparr>st_top = RBT.empty, st_children = RBT.empty\<rparr>"
  let ?B = "in_memory_backend (\<lambda>_. 0::nat) (\<lambda>_ _. 0) (\<lambda>_. 0) (im_from_storage ?st) :: (unit, nat, _) Backend"
  let ?x = "\<lparr>overlay = set_collect_extrinsics False default_overlay, storage_transaction_cache = reset_cache\<rparr>"
  let ?ops = "[Place [1] (Some [7]), Place [3] (Some [8]), Commit, Place [1] None, Place [4] (Some []), Discard, ClearPrefix [3]]"
  have a: "agrees ?B DefaultChild ?x ?st" by (rule new_agrees) (auto simp: list_all_iff entries_lookup)
  have e: "changes_is_empty (prospective (overlay ?x))"
    by (simp add: changes_is_empty_def set_collect_extrinsics_def default_overlay_def empty_changes_def)
  have s: "basic_storage (fst (fold (basic_step DefaultChild) ?ops (?st, ?st))) [1] = Some [7]"
    "basic_next_storage_key (fst (fold (basic_step DefaultChild) ?ops (?st, ?st))) [1] = None"
    by code_simp+
  show ?thesis using ext_refines_basic [OF in_memory.storage_backend_axioms a e, of "\<lambda>_. None" ?ops "[1]"] s
    unfolding Let_def by simp
qed

text \<open>
  C39. Whatever was done through the externalities of a backend in memory since their creation, committed
  or not, the backend that \<open>commit_all\<close> builds from the changes holds exactly the state that they show,
  at the top level and in every child.
\<close>

theorem commit_all_holds_state:
  "let B = in_memory_backend trie_root child_trie_root default_root s;
       x = fold (ext_step dec B info) ops
         \<lparr>overlay = set_collect_extrinsics b default_overlay, storage_transaction_cache = c\<rparr>;
       s' = commit_all (overlay x) s in
    expect (im_storage s' k) = ext_storage B x k \<and>
    expect (im_child_storage s' sk (info sk) k) = ext_child_storage B x sk (info sk) k"
  by (simp add: commit_all_view [OF new_typed] Let_def in_memory.storage_view in_memory.child_storage_view im_storage_def im_child_storage_def
      expect_def im_view_def [symmetric])



end
