(* ===== verification/Spec2Isabelle.thy ===== *)
theory Spec2Isabelle
  imports Vesting Header_Metadata Grandpa_Props Epoch_Props Allocator_Props Externalities_Props
begin

text \<open>
  A verification of parts of a Substrate node: of the runtime, the modules that keep accounts and money;
  of the client, the data structures that follow a chain with forks; and between the two, the state that
  a block is executed on and the memory it is executed in.

  \<^bold>\<open>How the parts interact.\<close> A block is executed by the runtime. Its modules (\<open>frame/\<close>) keep their data in
  storage maps; each call has an origin and returns a dispatch result, and what it costs is limited by the
  system module. The balances module is the currency of the other modules. Reads and writes of the runtime
  go through externalities (\<open>primitives/state-machine/\<close>), which keep the changes of the block in an overlay
  until they are committed; the memory of the runtime is managed by an allocator on the host side
  (\<open>primitives/allocator/\<close>). The client stores the headers of all branches. From them it answers whether
  one block descends from another, and with these answers fork trees (\<open>utils/fork-tree/\<close>) order what was
  announced on the branches: changes of the authorities that finalize blocks
  (\<open>client/finality-grandpa/\<close>), and the epochs under which blocks are produced (\<open>client/consensus/epochs/\<close>).

  \<^bold>\<open>Conventions.\<close> A result is a sum with the error on the left; a panic is \<open>None\<close> around the result.
  Unsigned integers are natural numbers, with the operation that the source calls (checked, saturating or
  wrapping at its width) written out, and words where the code works on bits or bytes. A trait is a record
  of its operations, and what its users rely on is a locale, interpreted on the model of the code that
  implements it. State is passed explicitly; mutable references return the new value. A \<open>BTreeMap\<close> is a
  red-black tree of the library, a storage map a function.

  \<^bold>\<open>Shared vocabulary.\<close>
  \<^item> \<open>Prelude\<close>: results, integer operations, sums over maps, collections of lemmas.
  \<^item> \<open>Storage_Map\<close>: \<open>frame/support/src/storage/generator/map.rs\<close>; the locale of storage items and what
    is read after each operation.
  \<^item> \<open>Support_Traits\<close>: \<open>frame/support/src/traits.rs\<close>; imbalances, the default methods of the currency
    traits, splitting and the shim that makes a storage map a stored map.
  \<^item> \<open>Runtime_Types\<close>: origins, errors, events, weights, digests.
  \<^item> \<open>Per_Things\<close>: \<open>primitives/arithmetic/src/per_things.rs\<close>; products are rounded to the nearest
    integer (C15), construction from a quotient is total and within its accuracy (C16), and lemmas on the
    saturating operations.
  \<^item> \<open>Era\<close>: \<open>primitives/runtime/src/generic/era.rs\<close>; the codec is a bijection on well formed eras (C17),
    birth and death (C18).

  \<^bold>\<open>Accounts and money.\<close>
  \<^item> \<open>System_Module\<close>: \<open>frame/system/src/lib.rs\<close>; accounts with nonces and reference counts, the life
    cycle of a block as a sequence of calls, weights and lengths, the checks of signed transactions. No
    transaction is replayed (C10), blocks stay within their limits (C13), the window of block hashes (C14).
  \<^item> \<open>Balances\<close>: \<open>frame/balances/src/lib.rs\<close> on top of the system's account store. All currency
    operations, locks, reserves, imbalances with what dropping them does, calls and genesis.
  \<^item> \<open>Issuance\<close>: the books of the currency. The step relation runs the operations in any order with
    any outstanding imbalances, and the total issuance is always accounted for (C1).
  \<^item> \<open>Balances_Props\<close>: errors leave no trace (C2), transfers (C3, C4), locks (C5, C6), slashing (C7),
    reserves (C8), accounts kept alive (C9), and lemmas for what differs from the comments. The
    module is shown to satisfy the contract of lockable currencies.
  \<^item> \<open>Vesting\<close>: \<open>frame/vesting/src/lib.rs\<close> on that contract; exactly what has not vested is locked
    (C11), and vested transfers (C12).

  \<^bold>\<open>Chains with forks.\<close>
  \<^item> \<open>Ancestry\<close>: the locale of block ancestry, a strict order whose down sets are chains.
  \<^item> \<open>Header_Metadata\<close>: \<open>primitives/blockchain/src/header_metadata.rs\<close>, the ancestry test of
    \<open>client/api\<close> and the metadata reads of \<open>client/db\<close>. Cached links that jump over ancestors may be stale
    or evicted at any time, by a cache given by its laws only. The lowest common ancestor (C19), the test
    (C20) and routes (C21); headers provide the ancestry locale.
  \<^item> \<open>Fork_Tree\<close>: \<open>utils/fork-tree/src/lib.rs\<close>, every operation. \<open>Fork_Tree_Order\<close> and
    \<open>Fork_Tree_Finality\<close> prove in the ancestry locale what they do to a tree in chain order;
    \<open>Fork_Tree_Props\<close> states it (C22 to C27).
  \<^item> \<open>Grandpa_Authorities\<close>: \<open>client/finality-grandpa/src/authorities.rs\<close>; \<open>Grandpa_Props\<close>: its
    invariant along every sequence of operations (C28), and which changes are applied when (C29 to C31).
  \<^item> \<open>Epoch_Changes\<close>: \<open>client/consensus/epochs/src/lib.rs\<close> and the epochs of
    \<open>client/consensus/babe/\<close>; \<open>Epoch_Props\<close>: the epoch of a block (C32), import (C33), and that pruning
    does not change the answer for later blocks (C34). These compose the header tree, its ancestry
    function and the fork tree.

  \<^bold>\<open>Execution.\<close>
  \<^item> \<open>Allocator\<close>: \<open>primitives/allocator/src/freeing_bump.rs\<close> on the bytes of a linear memory, with
    32 bit pointers and 64 bit headers. \<open>Allocator_Props\<close>: memory as a locale, an abstract heap, and
    that the allocator implements it (C35, C36) whatever the program writes to its own blocks (C37).
  \<^item> \<open>Storage_Overlay\<close>: \<open>primitives/state-machine/src/overlayed_changes.rs\<close>. \<open>Externalities\<close>: the
    backend trait, the backend in memory, \<open>Ext\<close> and \<open>BasicExternalities\<close> of the same directory.
    \<open>Externalities_Props\<close>: backends as a locale; \<open>Ext\<close> over any of them behaves as plain maps (C38),
    its changes applied to the backend give its state (C39), and cached roots are current (C40).

  \<^bold>\<open>Termination.\<close> No fuel is used. Loops are structural or have a termination proof, such as the search
  for the next key, by the keys left. The walks of the header tree follow links of an arbitrary metadata
  source, which may be cyclic; they are partial functions whose value is \<open>None\<close> if they do not return, and
  the properties show that they return on every tree of headers.

  \<^bold>\<open>Parameters.\<close> Code that is not in the repository is an argument: the LRU cache with its laws, trie
  roots and hashes, the SCALE decoding of single values, the caller's ancestry function of fork trees with
  the hypothesis that it answers for an ancestry. Each hypothesis is instantiated in a witness.

  \<^bold>\<open>Not modelled.\<close> Input and output: networking, RPC, telemetry, the database. Code generated by macros
  (dispatch, storage declarations, runtime API). The trie and cryptography, which are packages outside the
  repository, and what consists mainly of calling them: proofs, signatures, block seals, changes tries.
  The interpreters and contracts. The other runtime modules (staking, governance, sessions and so on) and
  the transaction pool, which could be modelled on top of what is here. Of the modelled parts: SCALE codecs
  (apart from eras), logging, floating point conversions of ratios, storage migrations.
\<close>

end
